(* ===== verification/Nh_Prelude.thy ===== *)
theory Nh_Prelude
  imports Main "HOL-Library.Word" "HOL-Library.Signed_Division"
begin

text \<open>
  The shared vocabulary of the development: how Go values, errors, panics, slices and
  concurrent maps are represented, and the generic lemmas the components use.

  \<^item> A Go function that returns \<open>(T, error)\<close> and may panic returns a value of \<open>'a go\<close>.
  \<^item> An \<open>error\<close> value is a \<open>go_error\<close>: a text, a wrapped error (\<open>fmt.Errorf\<close> with
    \<open>%w\<close>), a gRPC status error, or one of the standard library's sentinel errors.
  \<^item> A \<open>gokit.MapOf[K, V]\<close> (a typed \<open>sync.Map\<close>) and a Go \<open>map[K]V\<close> are HOL maps.
    The order in which \<open>Range\<close> visits the keys is not specified, so every operation
    that ranges takes the visiting order as an argument, with
    \<open>enumerates order m\<close> as what is known about it.
  \<^item> \<open>ulid.ULID\<close> is the pair of its 48-bit time and its 80-bit entropy, ordered
    lexicographically as \<open>ULID.Compare\<close> orders the 16 bytes.
\<close>

named_theorems map_range_simps \<open>evaluation of ranges over maps\<close>
named_theorems inv_intros \<open>preservation of component invariants\<close>

section \<open>Errors, results and panics\<close>

datatype grpc_code =
    codes_OK | codes_Canceled | codes_Unknown | codes_InvalidArgument | codes_DeadlineExceeded
  | codes_NotFound | codes_AlreadyExists | codes_PermissionDenied | codes_ResourceExhausted
  | codes_FailedPrecondition | codes_Aborted | codes_OutOfRange | codes_Unimplemented
  | codes_Internal | codes_Unavailable | codes_DataLoss | codes_Unauthenticated

datatype go_error =
    ErrNew string
  | ErrWrap string go_error
  | ErrStatus grpc_code string
  | EOF
  | ErrUnexpectedEOF
  | ErrClosed
  | CtxCanceled
  | CtxDeadlineExceeded

datatype 'a go = Ok 'a | Error go_error | Panic string

text \<open>Sequencing: an error or a panic of the first call is the result.\<close>

fun go_bind :: "'a go \<Rightarrow> ('a \<Rightarrow> 'b go) \<Rightarrow> 'b go" where
  "go_bind (Ok x) f = f x"
| "go_bind (Error e) f = Error e"
| "go_bind (Panic p) f = Panic p"

fun go_fold :: "('a \<Rightarrow> 's \<Rightarrow> 's go) \<Rightarrow> 'a list \<Rightarrow> 's \<Rightarrow> 's go" where
  "go_fold f [] s = Ok s"
| "go_fold f (x # xs) s = go_bind (f x s) (go_fold f xs)"

text \<open>\<open>errors.Is\<close>: the error itself or one it wraps is the target.\<close>

fun errors_Is :: "go_error \<Rightarrow> go_error \<Rightarrow> bool" where
  "errors_Is (ErrWrap m e) t = (ErrWrap m e = t \<or> errors_Is e t)"
| "errors_Is e t = (e = t)"

text \<open>\<open>strconv.Itoa\<close>, as \<open>%d\<close> prints an integer.\<close>

fun digits_rev :: "nat \<Rightarrow> nat \<Rightarrow> string" where
  "digits_rev 0 n = []"
| "digits_rev (Suc fuel) n =
     (if n < 10 then [char_of (48 + n)]
      else char_of (48 + n mod 10) # digits_rev fuel (n div 10))"

definition itoa :: "int \<Rightarrow> string" where
  "itoa i = (if i < 0 then CHR ''-'' # rev (digits_rev (Suc (nat (- i))) (nat (- i)))
             else rev (digits_rev (Suc (nat i)) (nat i)))"

text \<open>The text of an error, as \<open>%v\<close> prints it.\<close>

fun code_name :: "grpc_code \<Rightarrow> string" where
  "code_name codes_OK = ''OK''"
| "code_name codes_Canceled = ''Canceled''"
| "code_name codes_Unknown = ''Unknown''"
| "code_name codes_InvalidArgument = ''InvalidArgument''"
| "code_name codes_DeadlineExceeded = ''DeadlineExceeded''"
| "code_name codes_NotFound = ''NotFound''"
| "code_name codes_AlreadyExists = ''AlreadyExists''"
| "code_name codes_PermissionDenied = ''PermissionDenied''"
| "code_name codes_ResourceExhausted = ''ResourceExhausted''"
| "code_name codes_FailedPrecondition = ''FailedPrecondition''"
| "code_name codes_Aborted = ''Aborted''"
| "code_name codes_OutOfRange = ''OutOfRange''"
| "code_name codes_Unimplemented = ''Unimplemented''"
| "code_name codes_Internal = ''Internal''"
| "code_name codes_Unavailable = ''Unavailable''"
| "code_name codes_DataLoss = ''DataLoss''"
| "code_name codes_Unauthenticated = ''Unauthenticated''"

fun err_text :: "go_error \<Rightarrow> string" where
  "err_text (ErrNew s) = s"
| "err_text (ErrWrap m e) = m @ '', '' @ err_text e"
| "err_text (ErrStatus c m) = ''rpc error: code = '' @ code_name c @ '' desc = '' @ m"
| "err_text EOF = ''EOF''"
| "err_text ErrUnexpectedEOF = ''unexpected EOF''"
| "err_text ErrClosed = ''use of closed network connection''"
| "err_text CtxCanceled = ''context canceled''"
| "err_text CtxDeadlineExceeded = ''context deadline exceeded''"

section \<open>Integers and slices\<close>

text \<open>Go's \<open>int\<close> and \<open>int64\<close> wrap around at 64 bits; \<open>%\<close> truncates towards zero.\<close>

definition int64_of :: "int \<Rightarrow> int" where
  "int64_of x = signed_take_bit 63 x"

definition go_rem :: "int \<Rightarrow> int \<Rightarrow> int" where
  "go_rem a b = a smod b"

text \<open>Indexing a slice panics outside its bounds, and a negative index is outside.\<close>

definition go_index :: "'a list \<Rightarrow> int \<Rightarrow> 'a go" where
  "go_index xs i =
     (if 0 \<le> i \<and> i < int (length xs) then Ok (xs ! nat i)
      else Panic ''index out of range'')"

section \<open>Ranging over a concurrent map\<close>

definition enumerates :: "'k list \<Rightarrow> ('k \<rightharpoonup> 'v) \<Rightarrow> bool" where
  "enumerates ks m \<longleftrightarrow> distinct ks \<and> set ks = dom m"

text \<open>
  \<open>m.Range(f)\<close>: \<open>f\<close> is called for each key in the visiting order with the key's
  value, until it returns false.
\<close>

fun map_range :: "('k \<Rightarrow> 'v \<Rightarrow> 's \<Rightarrow> 's \<times> bool) \<Rightarrow> 'k list \<Rightarrow> ('k \<rightharpoonup> 'v) \<Rightarrow> 's \<Rightarrow> 's" where
  "map_range f [] m s = s"
| "map_range f (k # ks) m s =
     (case m k of
        None \<Rightarrow> map_range f ks m s
      | Some v \<Rightarrow> (case f k v s of (s', cont) \<Rightarrow> if cont then map_range f ks m s' else s'))"

text \<open>The values in visiting order, as a \<open>Range\<close> that appends each of them collects them.\<close>

definition map_values :: "'k list \<Rightarrow> ('k \<rightharpoonup> 'v) \<Rightarrow> 'v list" where
  "map_values ks m = List.map_filter m ks"

section \<open>ULIDs\<close>

datatype ulid = ULID (ulid_Time: "48 word") (ulid_Entropy: "80 word")

instantiation ulid :: linorder
begin

definition less_eq_ulid :: "ulid \<Rightarrow> ulid \<Rightarrow> bool" where
  "less_eq_ulid a b \<longleftrightarrow>
     ulid_Time a < ulid_Time b \<or> ulid_Time a = ulid_Time b \<and> ulid_Entropy a \<le> ulid_Entropy b"

definition less_ulid :: "ulid \<Rightarrow> ulid \<Rightarrow> bool" where
  "less_ulid a b \<longleftrightarrow>
     ulid_Time a < ulid_Time b \<or> ulid_Time a = ulid_Time b \<and> ulid_Entropy a < ulid_Entropy b"

instance
proof
  fix x y z :: ulid
  show "(x < y) = (x \<le> y \<and> \<not> y \<le> x)"
    by (auto simp: less_eq_ulid_def less_ulid_def)
  show "x \<le> x" by (simp add: less_eq_ulid_def)
  show "x \<le> y \<Longrightarrow> y \<le> z \<Longrightarrow> x \<le> z"
    by (auto simp: less_eq_ulid_def)
  show "x \<le> y \<Longrightarrow> y \<le> x \<Longrightarrow> x = y"
    by (auto simp: less_eq_ulid_def intro: ulid.expand)
  show "x \<le> y \<or> y \<le> x"
    by (auto simp: less_eq_ulid_def)
qed

end

text \<open>The zero ULID, \<open>ulid.ULID{}\<close>.\<close>

definition ulid_zero :: ulid where
  "ulid_zero = ULID 0 0"

section \<open>Generic lemmas\<close>

lemma go_fold_append: "go_fold f (xs @ ys) s = go_bind (go_fold f xs s) (go_fold f ys)"
proof (induction xs arbitrary: s)
  case (Cons x xs)
  then show ?case by (cases "f x s") simp_all
qed simp

text \<open>A loop whose body never fails is a fold.\<close>

lemma go_fold_Ok: "(\<And>x s. x \<in> set xs \<Longrightarrow> f x s = Ok (g x s)) \<Longrightarrow> go_fold f xs s = Ok (fold g xs s)"
  by (induction xs arbitrary: s) simp_all

lemma go_fold_inv:
  "(\<And>x s s'. x \<in> set xs \<Longrightarrow> P s \<Longrightarrow> f x s = Ok s' \<Longrightarrow> P s') \<Longrightarrow> P s \<Longrightarrow> go_fold f xs s = Ok s' \<Longrightarrow> P s'"
proof (induction xs arbitrary: s)
  case (Cons x xs)
  then show ?case by (cases "f x s") auto
qed simp

lemma go_bind_Ok_iff: "go_bind m f = Ok y \<longleftrightarrow> (\<exists>x. m = Ok x \<and> f x = Ok y)"
  by (cases m) simp_all

lemma errors_Is_refl [simp]: "errors_Is e e"
  by (cases e) auto

lemma errors_Is_wrap [simp]: "errors_Is e t \<Longrightarrow> errors_Is (ErrWrap m e) t"
  by simp

lemma int64_of_id: "- (2 ^ 63) \<le> x \<Longrightarrow> x < 2 ^ 63 \<Longrightarrow> int64_of x = x"
  unfolding int64_of_def by (rule signed_take_bit_int_eq_self) simp_all

lemma go_index_Ok_iff: "go_index xs i = Ok x \<longleftrightarrow> 0 \<le> i \<and> i < int (length xs) \<and> x = xs ! nat i"
  by (auto simp: go_index_def)

lemma go_index_mem: "go_index xs i = Ok x \<Longrightarrow> x \<in> set xs"
  by (auto simp: go_index_Ok_iff)

lemma go_index_not_Error [simp]: "go_index xs i \<noteq> Error e"
  by (simp add: go_index_def)

lemma go_rem_nonneg: "0 \<le> a \<Longrightarrow> 0 < b \<Longrightarrow> 0 \<le> go_rem a b \<and> go_rem a b < b"
  by (cases "a = 0") (simp_all add: go_rem_def signed_modulo_int_def)

lemma go_rem_eq_mod: "0 \<le> a \<Longrightarrow> 0 < b \<Longrightarrow> go_rem a b = a mod b"
  by (cases "a = 0") (simp_all add: go_rem_def signed_modulo_int_def)

lemma go_rem_neg: "a < 0 \<Longrightarrow> 0 < b \<Longrightarrow> go_rem a b = - ((- a) mod b)"
  by (simp add: go_rem_def signed_modulo_int_def)

lemma go_rem_index:
  assumes "0 < length xs"
  shows "(\<exists>x. go_index xs (go_rem a (int (length xs))) = Ok x) \<longleftrightarrow>
    0 \<le> a \<or> int (length xs) dvd a"
proof (cases "0 \<le> a")
  case True
  with assms go_rem_nonneg [of a "int (length xs)"] show ?thesis
    by (simp add: go_index_Ok_iff)
next
  case False
  define r where "r = (- a) mod int (length xs)"
  have "go_rem a (int (length xs)) = - r"
    unfolding r_def using assms False by (intro go_rem_neg) auto
  moreover have "0 \<le> r" and "int (length xs) dvd a \<longleftrightarrow> r = 0"
    using assms by (simp_all add: r_def mod_eq_0_iff_dvd)
  ultimately show ?thesis
    using assms False by (auto simp: go_index_Ok_iff)
qed

lemma enumerates_dom: "enumerates ks m \<Longrightarrow> set ks = dom m"
  by (simp add: enumerates_def)

lemma map_values_Nil [simp]: "map_values [] m = []"
  by (simp add: map_values_def map_filter_def)

lemma map_values_Cons [simp]:
  "map_values (k # ks) m = (case m k of None \<Rightarrow> map_values ks m | Some v \<Rightarrow> v # map_values ks m)"
  by (simp add: map_values_def map_filter_def split: option.splits)

lemma set_map_values: "set ks = dom m \<Longrightarrow> set (map_values ks m) = ran m"
  by (force simp: map_values_def map_filter_def ran_def dom_def image_iff)

lemma set_map_values_sub: "set (map_values ks m) \<subseteq> ran m"
  by (auto simp: map_values_def map_filter_def ran_def)

lemma map_range_cong_out:
  "(\<And>k. k \<in> set ks \<Longrightarrow> m k = m' k) \<Longrightarrow> map_range f ks m s = map_range f ks m' s"
  by (induction ks arbitrary: s) (auto split: option.splits prod.splits)

lemma map_range_inv:
  "(\<And>k v s. m k = Some v \<Longrightarrow> P s \<Longrightarrow> P (fst (f k v s))) \<Longrightarrow> P s \<Longrightarrow> P (map_range f ks m s)"
proof (induction ks arbitrary: s)
  case (Cons k ks)
  show ?case
  proof (cases "m k")
    case None
    then show ?thesis using Cons by simp
  next
    case (Some v)
    then have "P (fst (f k v s))" using Cons.prems by blast
    then show ?thesis using Some Cons by (simp add: split_beta)
  qed
qed simp

text \<open>A range that never stops early is a fold over the values.\<close>

lemma map_range_no_stop:
  "(\<And>k v s. snd (f k v s)) \<Longrightarrow>
   map_range f ks m s = fold (\<lambda>(k, v) s. fst (f k v s))
     (List.map_filter (\<lambda>k. map_option (Pair k) (m k)) ks) s"
  by (induction ks arbitrary: s)
    (auto simp: map_filter_def split: option.splits prod.splits, metis snd_conv)

lemma enumerates_distinct_values:
  assumes "enumerates ks m" and "\<And>k v. m k = Some v \<Longrightarrow> f v = k"
  shows "distinct (map f (map_values ks m))"
proof -
  have "map f (map_values ks m) = filter (\<lambda>k. m k \<noteq> None) ks"
    using assms(2) by (induction ks) (auto split: option.splits)
  then show ?thesis using assms(1) by (simp add: enumerates_def)
qed

lemma sort_key_Nil_iff [simp]: "sort_key f xs = [] \<longleftrightarrow> xs = []"
  by (metis length_0_conv length_sort)

lemma sorted_map_last: "sorted (map f xs) \<Longrightarrow> x \<in> set xs \<Longrightarrow> f x \<le> f (last xs)"
  by (induction xs rule: rev_induct) (auto simp: sorted_append)

end
