(* ===== verification/Go_Netip.thy ===== *)
theory Go_Netip
  imports Nh_Prelude
begin

text \<open>
  What the program uses of Go's standard library package \<open>net/netip\<close>: \<open>ParseAddr\<close>,
  \<open>ParseAddrPort\<close>, \<open>Addr.AsSlice\<close>, \<open>Addr.Unmap\<close> and \<open>Addr.IsUnspecified\<close>, and
  \<open>big.Int.SetBytes\<close>/\<open>Int64\<close>, which \<open>addrToint64\<close> applies to the bytes. Addresses are
  lists of byte values; a parse error is its message, without the quoted input.
\<close>

datatype addr = Addr4 "int list" | Addr6 "int list" string

section \<open>Parsing\<close>

definition dec_val :: "char \<Rightarrow> int option" where
  "dec_val c = (if 48 \<le> (of_char c :: int) \<and> (of_char c :: int) \<le> 57
     then Some (of_char c - 48) else None)"

definition hex_val :: "char \<Rightarrow> int option" where
  "hex_val c = (let n = (of_char c :: int) in
     if 48 \<le> n \<and> n \<le> 57 then Some (n - 48)
     else if 97 \<le> n \<and> n \<le> 102 then Some (n - 87)
     else if 65 \<le> n \<and> n \<le> 70 then Some (n - 55)
     else None)"

text \<open>The loop of \<open>parseIPv4Fields\<close>: previous character, value and digits of the octet, octets.\<close>

fun v4_loop :: "char option \<Rightarrow> int \<Rightarrow> nat \<Rightarrow> int list \<Rightarrow> string \<Rightarrow> string + int list" where
  "v4_loop prev val digLen fields [] =
     (if length fields < 3 then Inl ''IPv4 address too short'' else Inr (fields @ [val]))"
| "v4_loop prev val digLen fields (c # cs) =
     (case dec_val c of
        Some d \<Rightarrow>
          if digLen = 1 \<and> val = 0 then Inl ''IPv4 field has octet with leading zero''
          else if val * 10 + d > 255 then Inl ''IPv4 field has value >255''
          else v4_loop (Some c) (val * 10 + d) (Suc digLen) fields cs
      | None \<Rightarrow>
          if c = CHR ''.'' then
            if prev = None \<or> cs = [] \<or> prev = Some (CHR ''.'')
            then Inl ''IPv4 field must have at least one digit''
            else if length fields = 3 then Inl ''IPv4 address too long''
            else v4_loop (Some c) 0 0 (fields @ [val]) cs
          else Inl ''unexpected character'')"

definition parseIPv4Fields :: "string \<Rightarrow> string + int list" where
  "parseIPv4Fields s = v4_loop None 0 0 [] s"

text \<open>One group of hexadecimal digits: how many were read, their value and the rest.\<close>

fun hex_group :: "nat \<Rightarrow> int \<Rightarrow> string \<Rightarrow> string + (nat \<times> int \<times> string)" where
  "hex_group off acc [] = Inr (off, acc, [])"
| "hex_group off acc (c # cs) =
     (case hex_val c of
        None \<Rightarrow> Inr (off, acc, c # cs)
      | Some d \<Rightarrow>
          if off > 3 then Inl ''each group must have 4 or less digits''
          else if acc * 16 + d > 65535 then Inl ''IPv6 field has value >=2^16''
          else hex_group (Suc off) (acc * 16 + d) cs)"

text \<open>The loop of \<open>parseIPv6\<close>: the bytes so far, the place of the ellipsis, the rest.\<close>

function v6_loop :: "int list \<Rightarrow> nat option \<Rightarrow> string \<Rightarrow> string + (int list \<times> nat option \<times> string)"
where
  "v6_loop ip ell s =
     (if 16 \<le> length ip then Inr (ip, ell, s)
      else case hex_group 0 0 s of
        Inl e \<Rightarrow> Inl e
      | Inr (off, acc, rest) \<Rightarrow>
          if off = 0 then Inl ''each colon-separated field must have at least one digit''
          else if rest \<noteq> [] \<and> hd rest = CHR ''.'' then
            if ell = None \<and> length ip \<noteq> 12
            then Inl ''embedded IPv4 address must replace the final 2 fields of the address''
            else if length ip + 4 > 16
            then Inl ''too many hex fields to fit an embedded IPv4 at the end of the address''
            else (case parseIPv4Fields s of Inl e \<Rightarrow> Inl e | Inr f \<Rightarrow> Inr (ip @ f, ell, []))
          else
            (case rest of
               [] \<Rightarrow> Inr (ip @ [acc div 256, acc mod 256], ell, [])
             | c # rest' \<Rightarrow>
                 if c \<noteq> CHR '':'' then Inl ''unexpected character, want colon''
                 else if rest' = [] then Inl ''colon must be followed by more characters''
                 else if hd rest' = CHR '':'' then
                   if ell \<noteq> None then Inl ''multiple :: in address''
                   else if tl rest' = []
                   then Inr (ip @ [acc div 256, acc mod 256], Some (length ip + 2), [])
                   else v6_loop (ip @ [acc div 256, acc mod 256]) (Some (length ip + 2)) (tl rest')
                 else v6_loop (ip @ [acc div 256, acc mod 256]) ell rest'))"
  by pat_completeness auto
termination
  by (relation "measure (\<lambda>(ip, ell, s). 16 - length ip)") auto

declare v6_loop.simps [simp del]

definition v6_finish :: "string \<Rightarrow> int list \<times> nat option \<times> string \<Rightarrow> string + addr" where
  "v6_finish zone r = (case r of (ip, ell, s) \<Rightarrow>
     if s \<noteq> [] then Inl ''trailing garbage after address''
     else if length ip < 16 then
       (case ell of
          None \<Rightarrow> Inl ''address string too short''
        | Some e \<Rightarrow>
            Inr (Addr6 (take e ip @ replicate (16 - length ip) 0 @ drop e ip) zone))
     else if ell \<noteq> None then Inl ''the :: must expand to at least one field of zeros''
     else Inr (Addr6 ip zone))"

definition parseIPv6 :: "string \<Rightarrow> string + addr" where
  "parseIPv6 inp =
     (let s = takeWhile (\<lambda>c. c \<noteq> CHR ''%'') inp;
          tail = dropWhile (\<lambda>c. c \<noteq> CHR ''%'') inp;
          zone = (case tail of [] \<Rightarrow> [] | _ # z \<Rightarrow> z)
      in if tail \<noteq> [] \<and> zone = [] then Inl ''zone must be a non-empty string''
         else if take 2 s = ''::'' then
           if drop 2 s = [] then Inr (Addr6 (replicate 16 0) zone)
           else (case v6_loop [] (Some 0) (drop 2 s) of Inl e \<Rightarrow> Inl e | Inr r \<Rightarrow> v6_finish zone r)
         else (case v6_loop [] None s of Inl e \<Rightarrow> Inl e | Inr r \<Rightarrow> v6_finish zone r))"

text \<open>\<open>netip.ParseAddr\<close>: the first dot, colon or percent sign decides.\<close>

definition ParseAddr :: "string \<Rightarrow> string + addr" where
  "ParseAddr s =
     (case dropWhile (\<lambda>c. c \<noteq> CHR ''.'' \<and> c \<noteq> CHR '':'' \<and> c \<noteq> CHR ''%'') s of
        [] \<Rightarrow> Inl ''unable to parse IP''
      | c # _ \<Rightarrow>
          if c = CHR ''.'' then (case parseIPv4Fields s of Inl e \<Rightarrow> Inl e | Inr f \<Rightarrow> Inr (Addr4 f))
          else if c = CHR '':'' then parseIPv6 s
          else Inl ''missing IPv6 address'')"

text \<open>\<open>strconv.ParseUint(s, 10, 16)\<close>.\<close>

fun parse_dec :: "int \<Rightarrow> string \<Rightarrow> int option" where
  "parse_dec acc [] = Some acc"
| "parse_dec acc (c # cs) =
     (case dec_val c of None \<Rightarrow> None | Some d \<Rightarrow> parse_dec (acc * 10 + d) cs)"

definition ParseUint16 :: "string \<Rightarrow> int option" where
  "ParseUint16 s = (if s = [] then None else
     case parse_dec 0 s of None \<Rightarrow> None | Some n \<Rightarrow> if n < 65536 then Some n else None)"

text \<open>\<open>splitAddrPort\<close>: the last colon separates the port; brackets announce IPv6.\<close>

definition splitAddrPort :: "string \<Rightarrow> string + (string \<times> string \<times> bool)" where
  "splitAddrPort s =
     (let port = rev (takeWhile (\<lambda>c. c \<noteq> CHR '':'') (rev s));
          pre = rev (dropWhile (\<lambda>c. c \<noteq> CHR '':'') (rev s))
      in if pre = [] then Inl ''not an ip:port''
         else let ip = butlast pre in
           if ip = [] then Inl ''no IP''
           else if port = [] then Inl ''no port''
           else if hd ip = CHR ''['' then
             if length ip < 2 \<or> last ip \<noteq> CHR '']'' then Inl ''missing ]''
             else Inr (butlast (tl ip), port, True)
           else Inr (ip, port, False))"

definition ParseAddrPort :: "string \<Rightarrow> string + (addr \<times> int)" where
  "ParseAddrPort s =
     (case splitAddrPort s of
        Inl e \<Rightarrow> Inl e
      | Inr (ip, port, v6) \<Rightarrow>
          (case ParseUint16 port of
             None \<Rightarrow> Inl ''invalid port''
           | Some p \<Rightarrow>
               (case ParseAddr ip of
                  Inl e \<Rightarrow> Inl e
                | Inr (Addr4 f) \<Rightarrow>
                    if v6 then Inl ''square brackets can only be used with IPv6 addresses''
                    else Inr (Addr4 f, p)
                | Inr (Addr6 b z) \<Rightarrow>
                    if \<not> v6 then Inl ''IPv6 addresses must be surrounded by square brackets''
                    else Inr (Addr6 b z, p))))"

section \<open>Reading an address\<close>

fun AsSlice :: "addr \<Rightarrow> int list" where
  "AsSlice (Addr4 b) = b"
| "AsSlice (Addr6 b z) = b"

text \<open>\<open>Addr.Unmap\<close>: an IPv4-mapped IPv6 address becomes the IPv4 address.\<close>

fun Unmap :: "addr \<Rightarrow> addr" where
  "Unmap (Addr6 b z) =
     (if take 12 b = replicate 10 0 @ [255, 255] then Addr4 (drop 12 b) else Addr6 b z)"
| "Unmap a = a"

definition IsUnspecified :: "addr \<Rightarrow> bool" where
  "IsUnspecified a \<longleftrightarrow> a = Addr4 (replicate 4 0) \<or> a = Addr6 (replicate 16 0) []"

text \<open>\<open>big.Int.SetBytes\<close>: the bytes as a big-endian number.\<close>

definition big_SetBytes :: "int list \<Rightarrow> int" where
  "big_SetBytes bs = fold (\<lambda>b acc. acc * 256 + b) bs 0"

text \<open>\<open>big.Int.Int64\<close> keeps the low 64 bits.\<close>

definition big_Int64 :: "int \<Rightarrow> int" where
  "big_Int64 n = int64_of n"

section \<open>Facts about parsed addresses\<close>

definition is_bytes :: "int list \<Rightarrow> bool" where
  "is_bytes bs \<longleftrightarrow> (\<forall>b \<in> set bs. 0 \<le> b \<and> b < 256)"

lemma is_bytes_append [simp]: "is_bytes (xs @ ys) \<longleftrightarrow> is_bytes xs \<and> is_bytes ys"
  by (auto simp: is_bytes_def)

lemma is_bytes_Nil [simp]: "is_bytes []"
  by (simp add: is_bytes_def)

lemma is_bytes_Cons [simp]: "is_bytes (b # bs) \<longleftrightarrow> 0 \<le> b \<and> b < 256 \<and> is_bytes bs"
  by (auto simp: is_bytes_def)

lemma dec_val_nonneg: "dec_val c = Some d \<Longrightarrow> 0 \<le> d"
  by (auto simp: dec_val_def split: if_splits)

lemma v4_loop_bytes:
  assumes "v4_loop prev val digLen fields s = Inr f" and "0 \<le> val" and "val \<le> 255"
    and "length fields \<le> 3" and "is_bytes fields"
  shows "length f = 4 \<and> is_bytes f"
  using assms
proof (induction s arbitrary: prev val digLen fields)
  case Nil
  then show ?case by (auto split: if_splits)
next
  case (Cons c cs)
  show ?case
  proof (cases "dec_val c")
    case None
    have "v4_loop (Some c) 0 0 (fields @ [val]) cs = Inr f" and "length (fields @ [val]) \<le> 3"
      using Cons.prems None by (auto split: if_splits)
    then show ?thesis
      using Cons.prems by (intro Cons.IH [of "Some c" 0 0 "fields @ [val]"]) auto
  next
    case (Some d)
    then have "v4_loop (Some c) (val * 10 + d) (Suc digLen) fields cs = Inr f"
      and "val * 10 + d \<le> 255" and "0 \<le> val * 10 + d"
      using Cons.prems dec_val_nonneg [OF Some] by (auto split: if_splits)
    then show ?thesis
      using Cons.prems by (intro Cons.IH [of "Some c" "val * 10 + d" "Suc digLen" fields]) auto
  qed
qed

lemma parseIPv4Fields_bytes: "parseIPv4Fields s = Inr f \<Longrightarrow> length f = 4 \<and> is_bytes f"
  unfolding parseIPv4Fields_def by (drule v4_loop_bytes) simp_all

lemma v6_finish_not_v4: "v6_finish z r \<noteq> Inr (Addr4 b)"
  by (simp add: v6_finish_def split: prod.splits option.splits)

lemma parseIPv6_not_v4: "parseIPv6 s \<noteq> Inr (Addr4 b)"
  by (simp add: parseIPv6_def Let_def v6_finish_not_v4 split: sum.splits)

lemma ParseAddr_v4_bytes: "ParseAddr s = Inr (Addr4 b) \<Longrightarrow> length b = 4 \<and> is_bytes b"
  by (auto simp: ParseAddr_def parseIPv6_not_v4 dest: parseIPv4Fields_bytes
      split: list.splits if_splits sum.splits)

lemma ParseAddrPort_v4_bytes: "ParseAddrPort s = Inr (Addr4 b, port) \<Longrightarrow> length b = 4 \<and> is_bytes b"
  by (auto simp: ParseAddrPort_def dest: ParseAddr_v4_bytes
      split: sum.splits option.splits addr.splits if_splits)

lemma big_SetBytes_snoc: "big_SetBytes (bs @ [b]) = big_SetBytes bs * 256 + b"
  by (simp add: big_SetBytes_def)

lemma big_SetBytes_bound: "is_bytes bs \<Longrightarrow> 0 \<le> big_SetBytes bs \<and> big_SetBytes bs < 256 ^ length bs"
proof (induction bs rule: rev_induct)
  case Nil
  then show ?case by (simp add: big_SetBytes_def)
next
  case (snoc b bs)
  then have IH: "0 \<le> big_SetBytes bs" "big_SetBytes bs + 1 \<le> 256 ^ length bs" by auto
  then have "(big_SetBytes bs + 1) * 256 \<le> 256 ^ length bs * 256"
    by (intro mult_right_mono) auto
  with IH snoc.prems show ?case by (auto simp: big_SetBytes_snoc)
qed

end
