(* ===== verification/Cluster_Entry.thy ===== *)
theory Cluster_Entry
  imports Go_Netip
begin

text \<open>
  The service-discovery entry of a node (\<open>src/cluster/entry.go\<close>): the records that are
  stored in etcd, and their \<open>Validate\<close> methods. \<open>url.Parse(s).Hostname()\<close> is the
  parameter \<open>url_Hostname\<close>: the host of a URL, or the parse error.
\<close>

section \<open>Entries\<close>

type_synonym NodeState = string

definition NodeOK :: NodeState where "NodeOK = ''ok''"
definition NodeLazy :: NodeState where "NodeLazy = ''lazy''"
definition NodeDown :: NodeState where "NodeDown = ''down''"

definition AutoAllocate :: string where "AutoAllocate = ''auto''"
definition ServerAllocate :: string where "ServerAllocate = ''server''"
definition ClientAllocate :: string where "ClientAllocate = ''client''"

record GRPCServiceDesc =
  SvcName :: string
  Code :: int
  Path :: string
  Public :: bool
  Balancer :: string
  Weight :: int
  Stateful :: bool
  Allocation :: string

record GRPCEntry =
  Endpoint :: string
  Services :: "GRPCServiceDesc list"

record NodeEntry =
  ID :: ulid
  Name :: string
  State :: NodeState
  Entrance :: string
  Metrics :: string
  GRPC :: GRPCEntry
  GitVersion :: string

section \<open>Validation\<close>

definition desc_Validate :: "GRPCServiceDesc \<Rightarrow> go_error option" where
  "desc_Validate desc =
     (if Code desc = 0 then Some (ErrNew ''code is empty'')
      else if Path desc = [] then Some (ErrNew ''path is empty'')
      else if Balancer desc = [] then Some (ErrNew ''balancer is empty'')
      else if Stateful desc then
        if Allocation desc = AutoAllocate \<or> Allocation desc = ServerAllocate
           \<or> Allocation desc = ClientAllocate then None
        else if Allocation desc = [] then Some (ErrNew ''allocation is empty'')
        else Some (ErrNew ''allocation is invalid'')
      else None)"

fun descs_Validate :: "GRPCServiceDesc list \<Rightarrow> go_error option" where
  "descs_Validate [] = None"
| "descs_Validate (d # ds) =
     (case desc_Validate d of Some e \<Rightarrow> Some e | None \<Rightarrow> descs_Validate ds)"

definition grpc_Validate :: "GRPCEntry \<Rightarrow> go_error option" where
  "grpc_Validate e =
     (if Services e = [] then None
      else if Endpoint e = [] then Some (ErrNew ''grpc endpoint is empty'')
      else descs_Validate (Services e))"

definition entrance_Validate :: "(string \<Rightarrow> go_error + string) \<Rightarrow> string \<Rightarrow> go_error option" where
  "entrance_Validate url_Hostname entrance =
     (if entrance = [] then None
      else case url_Hostname entrance of
        Inl err \<Rightarrow> Some (ErrWrap ''invalid entrance'' err)
      | Inr host \<Rightarrow>
          if host = [] then Some (ErrNew ''entrance require hostname or ip'')
          else (case ParseAddr host of
                  Inr addr \<Rightarrow>
                    if IsUnspecified (Unmap addr)
                    then Some (ErrNew ''entrance is an unspecified address'') else None
                | Inl _ \<Rightarrow> None))"

definition entry_Validate :: "(string \<Rightarrow> go_error + string) \<Rightarrow> NodeEntry \<Rightarrow> go_error option" where
  "entry_Validate url_Hostname e =
     (if ulid_Time (ID e) = 0 then Some (ErrNew ''id is empty'')
      else if Name e = [] then Some (ErrNew ''name is empty'')
      else if State e = [] then Some (ErrNew ''state is empty'')
      else case grpc_Validate (GRPC e) of
        Some err \<Rightarrow> Some err
      | None \<Rightarrow> entrance_Validate url_Hostname (Entrance e))"

section \<open>What a valid entry satisfies\<close>

definition codes_of :: "NodeEntry \<Rightarrow> int set" where
  "codes_of e = Code ` set (Services (GRPC e))"

text \<open>The contract of a registered service: what the gateway relies on when it routes to it.\<close>

definition desc_ok :: "GRPCServiceDesc \<Rightarrow> bool" where
  "desc_ok d \<longleftrightarrow> Code d \<noteq> 0 \<and> Path d \<noteq> [] \<and> Balancer d \<noteq> [] \<and>
     (Stateful d \<longrightarrow> Allocation d \<in> {AutoAllocate, ServerAllocate, ClientAllocate})"

lemmas alloc_defs = AutoAllocate_def ServerAllocate_def ClientAllocate_def
lemmas state_defs = NodeOK_def NodeLazy_def NodeDown_def

lemma desc_Validate_None_iff: "desc_Validate d = None \<longleftrightarrow> desc_ok d"
  by (simp add: desc_Validate_def desc_ok_def)

lemma descs_Validate_None_iff: "descs_Validate ds = None \<longleftrightarrow> (\<forall>d \<in> set ds. desc_ok d)"
  by (induction ds) (auto simp flip: desc_Validate_None_iff split: option.splits)

lemma grpc_Validate_None_iff:
  "grpc_Validate e = None \<longleftrightarrow>
     Services e = [] \<or> Endpoint e \<noteq> [] \<and> (\<forall>d \<in> set (Services e). desc_ok d)"
  by (auto simp: grpc_Validate_def descs_Validate_None_iff)

lemma entrance_Validate_None_iff:
  "entrance_Validate uh s = None \<longleftrightarrow>
     s = [] \<or> (\<exists>host. uh s = Inr host \<and> host \<noteq> [] \<and>
       (\<forall>addr. ParseAddr host = Inr addr \<longrightarrow> \<not> IsUnspecified (Unmap addr)))"
  by (auto simp: entrance_Validate_def split: sum.splits if_splits)

text \<open>
  An entry passes \<open>Validate\<close> exactly when it has a time-bearing id, a name, a state, a
  well-formed list of services with an endpoint (if it has services), and an entrance (if it
  has one) whose host is present and not the unspecified address.
\<close>

theorem entry_Validate_iff:
  "entry_Validate uh e = None \<longleftrightarrow>
     ulid_Time (ID e) \<noteq> 0 \<and> Name e \<noteq> [] \<and> State e \<noteq> [] \<and>
     (Services (GRPC e) = [] \<or>
        Endpoint (GRPC e) \<noteq> [] \<and> (\<forall>d \<in> set (Services (GRPC e)). desc_ok d)) \<and>
     (Entrance e = [] \<or>
        (\<exists>host. uh (Entrance e) = Inr host \<and> host \<noteq> [] \<and>
           (\<forall>addr. ParseAddr host = Inr addr \<longrightarrow> \<not> IsUnspecified (Unmap addr))))"
  by (auto simp: entry_Validate_def grpc_Validate_None_iff [symmetric]
      entrance_Validate_None_iff [symmetric] split: option.splits)

theorem entry_Validate_iff_witness:
  "entry_Validate (\<lambda>s. Inr ''127.0.0.1'')
     \<lparr>ID = ULID 1 0, Name = ''gateway'', State = NodeOK, Entrance = ''tcp://127.0.0.1:9000'',
      Metrics = [], GRPC = \<lparr>Endpoint = ''127.0.0.1:10000'',
        Services = [\<lparr>SvcName = ''nodehub.Node'', Code = -1, Path = ''/nodehub.Node'',
          Public = False, Balancer = ''random'', Weight = 0, Stateful = True,
          Allocation = ServerAllocate\<rparr>]\<rparr>, GitVersion = []\<rparr> = None"
proof -
  have "\<not> IsUnspecified (Unmap addr)" if "ParseAddr ''127.0.0.1'' = Inr addr" for addr
  proof -
    have "ParseAddr ''127.0.0.1'' = Inr (Addr4 [127, 0, 0, 1])" by code_simp
    with that show ?thesis by (auto simp: IsUnspecified_def numeral_eq_Suc)
  qed
  then show ?thesis
    by (subst entry_Validate_iff) (simp add: desc_ok_def state_defs)
qed

end
