(* ===== verification/Cluster_Balancer.thy ===== *)
theory Cluster_Balancer
  imports Cluster_Entry "HOL-Library.Multiset"
begin

text \<open>
  Load balancers (\<open>src/cluster/balancer.go\<close>): the registry of policies, \<open>NewBalancer\<close>,
  the six built-in factories and their \<open>Pick\<close> methods.

  \<open>sort.Slice\<close> sorts the caller's slice in place, so a factory returns the balancer and
  the reordered slice. \<open>rand.Intn\<close> is the argument \<open>rnd\<close> (\<open>rnd n\<close> is the value drawn
  for the bound \<open>n\<close>; the call panics for a bound that is not positive), and
  \<open>xxhash.Sum64String\<close> the argument \<open>xxhash\<close>. A balancer registered by the
  application is a \<open>customBalancer\<close> with its \<open>Pick\<close> function.
\<close>

section \<open>Policies and balancers\<close>

definition BalancerRandom :: string where "BalancerRandom = ''random''"
definition BalancerRoundRobin :: string where "BalancerRoundRobin = ''roundRobin''"
definition BalancerIPHash :: string where "BalancerIPHash = ''ipHash''"
definition BalancerIDHash :: string where "BalancerIDHash = ''idHash''"
definition BalancerOldest :: string where "BalancerOldest = ''oldest''"
definition BalancerNewest :: string where "BalancerNewest = ''newest''"

record Session_view =
  view_ID :: string
  view_RemoteAddr :: string

datatype balancer =
    noBalancer NodeEntry
  | errorBalancer go_error
  | randomBalancer "NodeEntry list"
  | roundRobinBalancer "(NodeEntry \<times> int) list" int
  | ipHashBalancer "NodeEntry list"
  | idHashBalancer "NodeEntry list"
  | oldestBalancer NodeEntry
  | newestBalancer NodeEntry
  | customBalancer "Session_view \<Rightarrow> ulid go"

type_synonym BalancerFactory = "int \<Rightarrow> NodeEntry list \<Rightarrow> balancer \<times> NodeEntry list"

definition ErrNodeNotFoundOrDown :: go_error where
  "ErrNodeNotFoundOrDown = ErrNew ''node not found or down''"

definition ErrNoNodeAvailable :: go_error where
  "ErrNoNodeAvailable = ErrNew ''no node available''"

section \<open>The built-in factories\<close>

definition newRandomBalancer :: BalancerFactory where
  "newRandomBalancer serviceCode nodes = (randomBalancer nodes, nodes)"

definition rr_weight :: "GRPCServiceDesc \<Rightarrow> int" where
  "rr_weight desc = int64_of ((if Weight desc \<le> 0 then 1 else Weight desc) * 10)"

fun rr_collect :: "int \<Rightarrow> NodeEntry list \<Rightarrow> (NodeEntry \<times> int) list \<Rightarrow> int \<Rightarrow> (NodeEntry \<times> int) list \<times> int"
where
  "rr_collect serviceCode [] wnodes wsum = (wnodes, wsum)"
| "rr_collect serviceCode (node # nodes) wnodes wsum =
     (case find (\<lambda>desc. Code desc = serviceCode) (Services (GRPC node)) of
        None \<Rightarrow> rr_collect serviceCode nodes wnodes wsum
      | Some desc \<Rightarrow>
          rr_collect serviceCode nodes (wnodes @ [(node, rr_weight desc)])
            (int64_of (wsum + rr_weight desc)))"

definition newRoundRobinBalancer :: BalancerFactory where
  "newRoundRobinBalancer serviceCode nodes =
     (case rr_collect serviceCode nodes [] 0 of
        (wnodes, wsum) \<Rightarrow> (roundRobinBalancer wnodes wsum, nodes))"

definition newIPHashBalancer :: BalancerFactory where
  "newIPHashBalancer serviceCode nodes = (ipHashBalancer nodes, nodes)"

definition newIDHashBalancer :: BalancerFactory where
  "newIDHashBalancer serviceCode nodes = (idHashBalancer nodes, nodes)"

definition newOldestBalancer :: BalancerFactory where
  "newOldestBalancer serviceCode nodes =
     (let sorted = sort_key ID nodes in (oldestBalancer (hd sorted), sorted))"

definition newNewestBalancer :: BalancerFactory where
  "newNewestBalancer serviceCode nodes =
     (let sorted = rev (sort_key ID nodes) in (newestBalancer (hd sorted), sorted))"

section \<open>Registration\<close>

definition to_lower :: "char \<Rightarrow> char" where
  "to_lower c = (let n = (of_char c :: int) in if 65 \<le> n \<and> n \<le> 90 then char_of (n + 32) else c)"

definition ToLower :: "string \<Rightarrow> string" where
  "ToLower s = map to_lower s"

definition RegisterBalancer ::
  "string \<Rightarrow> BalancerFactory \<Rightarrow> (string \<rightharpoonup> BalancerFactory) \<Rightarrow> (string \<rightharpoonup> BalancerFactory) go" where
  "RegisterBalancer policy factory reg =
     (case reg (ToLower policy) of
        Some _ \<Rightarrow> Panic (''balancer: balancer '' @ ToLower policy @ '' already registered'')
      | None \<Rightarrow> Ok (reg(ToLower policy \<mapsto> factory)))"

text \<open>The package's \<open>init\<close>: the built-in policies, keyed by their lower-case names.\<close>

definition registeredBalancer :: "string \<rightharpoonup> BalancerFactory" where
  "registeredBalancer =
     [ToLower BalancerRandom \<mapsto> newRandomBalancer,
      ToLower BalancerRoundRobin \<mapsto> newRoundRobinBalancer,
      ToLower BalancerIPHash \<mapsto> newIPHashBalancer,
      ToLower BalancerIDHash \<mapsto> newIDHashBalancer,
      ToLower BalancerOldest \<mapsto> newOldestBalancer,
      ToLower BalancerNewest \<mapsto> newNewestBalancer]"

section \<open>NewBalancer\<close>

definition desc_policy :: "int \<Rightarrow> NodeEntry \<Rightarrow> string" where
  "desc_policy serviceCode node =
     (case find (\<lambda>desc. Code desc = serviceCode) (Services (GRPC node)) of
        None \<Rightarrow> [] | Some desc \<Rightarrow> Balancer desc)"

definition NewBalancer :: "(string \<rightharpoonup> BalancerFactory) \<Rightarrow> BalancerFactory" where
  "NewBalancer reg serviceCode nodes =
     (case nodes of
        [] \<Rightarrow> (errorBalancer ErrNoNodeAvailable, nodes)
      | [node] \<Rightarrow> (noBalancer node, nodes)
      | _ \<Rightarrow>
          let sorted = rev (sort_key ID nodes);
              policy = desc_policy serviceCode (hd sorted)
          in case reg (ToLower policy) of
               Some factory \<Rightarrow> factory serviceCode sorted
             | None \<Rightarrow> (errorBalancer (ErrNew (''balancer '' @ policy @ '' not implemented'')), sorted))"

section \<open>Picking a node\<close>

definition rand_Intn :: "(int \<Rightarrow> int) \<Rightarrow> int \<Rightarrow> int go" where
  "rand_Intn rnd n = (if n \<le> 0 then Panic ''invalid argument to Intn'' else Ok (rnd n))"

fun rr_pick :: "int \<Rightarrow> (NodeEntry \<times> int) list \<Rightarrow> ulid go" where
  "rr_pick r [] = Error ErrNoNodeAvailable"
| "rr_pick r ((node, weight) # nodes) =
     (let r' = int64_of (r - weight) in if r' < 0 then Ok (ID node) else rr_pick r' nodes)"

definition addrToint64 :: "string \<Rightarrow> int go" where
  "addrToint64 remoteAddr =
     (case ParseAddrPort remoteAddr of
        Inl err \<Rightarrow> Error (ErrNew err)
      | Inr (addr, port) \<Rightarrow> Ok (big_Int64 (big_SetBytes (AsSlice addr))))"

text \<open>\<open>nodes[index].ID\<close>, with the panic of an index outside the slice.\<close>

definition pick_index :: "NodeEntry list \<Rightarrow> int \<Rightarrow> ulid go" where
  "pick_index nodes i =
     (case go_index nodes i of Ok node \<Rightarrow> Ok (ID node) | Error e \<Rightarrow> Error e | Panic p \<Rightarrow> Panic p)"

text \<open>The \<open>Pick\<close> of each balancer.\<close>

definition noBalancer_Pick :: "NodeEntry \<Rightarrow> ulid go" where
  "noBalancer_Pick node = Ok (ID node)"

definition errorBalancer_Pick :: "go_error \<Rightarrow> ulid go" where
  "errorBalancer_Pick err = Error err"

definition randomBalancer_Pick :: "(int \<Rightarrow> int) \<Rightarrow> NodeEntry list \<Rightarrow> ulid go" where
  "randomBalancer_Pick rnd nodes =
     (case rand_Intn rnd (int (length nodes)) of
        Ok i \<Rightarrow> pick_index nodes i | Error e \<Rightarrow> Error e | Panic p \<Rightarrow> Panic p)"

definition roundRobinBalancer_Pick :: "(int \<Rightarrow> int) \<Rightarrow> (NodeEntry \<times> int) list \<Rightarrow> int \<Rightarrow> ulid go" where
  "roundRobinBalancer_Pick rnd nodes wsum =
     (case rand_Intn rnd wsum of Ok r \<Rightarrow> rr_pick r nodes | Error e \<Rightarrow> Error e | Panic p \<Rightarrow> Panic p)"

definition ipHashBalancer_Pick :: "NodeEntry list \<Rightarrow> Session_view \<Rightarrow> ulid go" where
  "ipHashBalancer_Pick nodes sess =
     (case addrToint64 (view_RemoteAddr sess) of
        Ok ipInt \<Rightarrow>
          if nodes = [] then Panic ''integer divide by zero''
          else pick_index nodes (go_rem ipInt (int (length nodes)))
      | Error e \<Rightarrow> Error e
      | Panic p \<Rightarrow> Panic p)"

definition idHashBalancer_Pick :: "(string \<Rightarrow> 64 word) \<Rightarrow> NodeEntry list \<Rightarrow> Session_view \<Rightarrow> ulid go" where
  "idHashBalancer_Pick xxhash nodes sess =
     (if nodes = [] then Panic ''integer divide by zero''
      else pick_index nodes (go_rem (sint (xxhash (view_ID sess))) (int (length nodes))))"

definition oldestBalancer_Pick :: "NodeEntry \<Rightarrow> ulid go" where
  "oldestBalancer_Pick node = Ok (ID node)"

definition newestBalancer_Pick :: "NodeEntry \<Rightarrow> ulid go" where
  "newestBalancer_Pick node = Ok (ID node)"

lemmas Pick_defs [simp] = noBalancer_Pick_def errorBalancer_Pick_def randomBalancer_Pick_def roundRobinBalancer_Pick_def
  ipHashBalancer_Pick_def idHashBalancer_Pick_def oldestBalancer_Pick_def newestBalancer_Pick_def

text \<open>The call of \<open>Pick\<close> through the interface \<open>Balancer\<close>.\<close>

fun Pick :: "(string \<Rightarrow> 64 word) \<Rightarrow> (int \<Rightarrow> int) \<Rightarrow> balancer \<Rightarrow> Session_view \<Rightarrow> ulid go" where
  "Pick xxhash rnd (noBalancer node) sess = noBalancer_Pick node"
| "Pick xxhash rnd (errorBalancer err) sess = errorBalancer_Pick err"
| "Pick xxhash rnd (randomBalancer nodes) sess = randomBalancer_Pick rnd nodes"
| "Pick xxhash rnd (roundRobinBalancer nodes wsum) sess = roundRobinBalancer_Pick rnd nodes wsum"
| "Pick xxhash rnd (ipHashBalancer nodes) sess = ipHashBalancer_Pick nodes sess"
| "Pick xxhash rnd (idHashBalancer nodes) sess = idHashBalancer_Pick xxhash nodes sess"
| "Pick xxhash rnd (oldestBalancer node) sess = oldestBalancer_Pick node"
| "Pick xxhash rnd (newestBalancer node) sess = newestBalancer_Pick node"
| "Pick xxhash rnd (customBalancer f) sess = f sess"

definition rand_ok :: "(int \<Rightarrow> int) \<Rightarrow> bool" where
  "rand_ok rnd \<longleftrightarrow> (\<forall>n > 0. 0 \<le> rnd n \<and> rnd n < n)"


section \<open>Weighted round robin\<close>

text \<open>The share of a node: ten times its weight, at least ten; nothing if it lacks the service.\<close>

definition rr_share :: "int \<Rightarrow> NodeEntry \<Rightarrow> int" where
  "rr_share c n =
     (case find (\<lambda>desc. Code desc = c) (Services (GRPC n)) of
        None \<Rightarrow> 0 | Some d \<Rightarrow> 10 * max 1 (Weight d))"

definition rr_list :: "int \<Rightarrow> NodeEntry list \<Rightarrow> (NodeEntry \<times> int) list" where
  "rr_list c ns = map (\<lambda>n. (n, rr_share c n)) (filter (\<lambda>n. rr_share c n \<noteq> 0) ns)"

lemma rr_share_nonneg [simp]: "0 \<le> rr_share c n"
  by (simp add: rr_share_def split: option.splits)

lemma sum_rr_share_nonneg [simp]: "0 \<le> sum_list (map (rr_share c) ns)"
  by (induction ns) auto

lemma sum_rr_list: "sum_list (map snd (rr_list c ns)) = sum_list (map (rr_share c) ns)"
  by (induction ns) (auto simp: rr_list_def)

lemma rr_list_pos: "(n, w) \<in> set (rr_list c ns) \<Longrightarrow> 0 < w"
  using rr_share_nonneg [of c n] by (auto simp: rr_list_def simp del: rr_share_nonneg)

lemma rr_weight_share:
  assumes "find (\<lambda>desc. Code desc = c) (Services (GRPC n)) = Some d" and "rr_share c n < 2 ^ 63"
  shows "rr_weight d = rr_share c n"
proof -
  have "(if Weight d \<le> 0 then 1 else Weight d) * 10 = rr_share c n"
    using assms(1) by (simp add: rr_share_def max_def)
  then show ?thesis
    using assms(2) rr_share_nonneg [of c n] unfolding rr_weight_def
    by (simp add: int64_of_id del: rr_share_nonneg)
qed

lemma rr_collect_eq:
  assumes "0 \<le> t" and "t + sum_list (map (rr_share c) ns) < 2 ^ 63"
  shows "rr_collect c ns ws t = (ws @ rr_list c ns, t + sum_list (map (rr_share c) ns))"
  using assms
proof (induction ns arbitrary: ws t)
  case Nil
  then show ?case by (simp add: rr_list_def)
next
  case (Cons n ns)
  show ?case
  proof (cases "find (\<lambda>desc. Code desc = c) (Services (GRPC n))")
    case None
    then have "rr_share c n = 0" by (simp add: rr_share_def)
    with None Cons show ?thesis by (simp add: rr_list_def)
  next
    case (Some d)
    have lt: "rr_share c n < 2 ^ 63" "t + rr_share c n + sum_list (map (rr_share c) ns) < 2 ^ 63"
      using Cons.prems sum_rr_share_nonneg [of c ns] by (auto simp del: sum_rr_share_nonneg)
    have w: "rr_weight d = rr_share c n" using Some lt(1) by (rule rr_weight_share)
    have "int64_of (t + rr_share c n) = t + rr_share c n"
      using Cons.prems(1) lt sum_rr_share_nonneg [of c ns] rr_share_nonneg [of c n]
      by (intro int64_of_id) linarith+
    moreover have "rr_share c n \<noteq> 0"
      using Some by (simp add: rr_share_def)
    ultimately show ?thesis
      using Some w Cons.prems(1) lt
      by (simp add: Cons.IH rr_list_def)
  qed
qed

lemma newRoundRobinBalancer_eq:
  "sum_list (map (rr_share c) ns) < 2 ^ 63 \<Longrightarrow>
   newRoundRobinBalancer c ns =
     (roundRobinBalancer (rr_list c ns) (sum_list (map (rr_share c) ns)), ns)"
  by (simp add: newRoundRobinBalancer_def rr_collect_eq)

lemma rr_pick_Cons_small:
  "0 \<le> r \<Longrightarrow> r < 2 ^ 63 \<Longrightarrow> 0 < w \<Longrightarrow> w < 2 ^ 63 \<Longrightarrow>
   rr_pick r ((n, w) # ws) = (if r < w then Ok (ID n) else rr_pick (r - w) ws)"
  by (simp add: int64_of_id)

lemma rr_pick_ids: "rr_pick r ws = Ok i \<Longrightarrow> i \<in> ID ` fst ` set ws"
  by (induction ws arbitrary: r) (fastforce simp: Let_def split: if_splits)+

lemma sum_pos_weights: "\<forall>(n, w) \<in> set ws. 0 < w \<Longrightarrow> 0 \<le> sum_list (map snd (ws :: (NodeEntry \<times> int) list))"
  by (induction ws) auto

lemma rr_pick_total:
  assumes "\<forall>(n, w) \<in> set ws. 0 < w" and "sum_list (map snd ws) < 2 ^ 63"
    and "0 \<le> r" and "r < sum_list (map snd ws)"
  shows "\<exists>i. rr_pick r ws = Ok i"
  using assms
proof (induction ws arbitrary: r)
  case (Cons nw ws)
  obtain n w where nw: "nw = (n, w)" by (cases nw)
  have S: "0 \<le> sum_list (map snd ws)" using Cons.prems(1) by (intro sum_pos_weights) auto
  have "rr_pick r (nw # ws) = (if r < w then Ok (ID n) else rr_pick (r - w) ws)"
    unfolding nw using Cons.prems S nw by (intro rr_pick_Cons_small) auto
  moreover have "\<exists>i. rr_pick (r - w) ws = Ok i" if "\<not> r < w"
    using that Cons.prems nw by (intro Cons.IH) auto
  ultimately show ?case by simp
qed simp

text \<open>Of the values \<open>rand.Intn\<close> can draw, exactly as many select a node as its weight says.\<close>

lemma rr_pick_card:
  assumes "\<forall>(n, w) \<in> set ws. 0 < w" and "sum_list (map snd ws) < 2 ^ 63"
    and "distinct (map (ID \<circ> fst) ws)" and "(n, w) \<in> set ws"
  shows "card {r. 0 \<le> r \<and> r < sum_list (map snd ws) \<and> rr_pick r ws = Ok (ID n)} = nat w"
  using assms
proof (induction ws)
  case (Cons mv ws)
  obtain m v where mv: "mv = (m, v)" by (cases mv)
  define S where "S = sum_list (map snd ws)"
  have S: "0 \<le> S" unfolding S_def using Cons.prems(1) by (intro sum_pos_weights) auto
  have v: "0 < v" "v + S < 2 ^ 63" using Cons.prems mv by (auto simp: S_def)
  have step: "rr_pick r (mv # ws) = (if r < v then Ok (ID m) else rr_pick (r - v) ws)"
    if "0 \<le> r" "r < v + S" for r
    unfolding mv using that v S by (intro rr_pick_Cons_small) auto
  show ?case
  proof (cases "ID n = ID m")
    case True
    have notin: "ID m \<notin> ID ` fst ` set ws" using Cons.prems(3) mv by auto
    have "(n, w) = (m, v)"
      using Cons.prems(4) mv notin True by (auto simp: image_iff)
    moreover have "{r. 0 \<le> r \<and> r < v + S \<and> rr_pick r (mv # ws) = Ok (ID n)} = {0..<v}"
      using True S notin step rr_pick_ids by fastforce
    ultimately show ?thesis by (simp add: mv S_def [symmetric])
  next
    case False
    then have "(n, w) \<in> set ws" using Cons.prems(4) mv by auto
    then have IH: "card {r. 0 \<le> r \<and> r < S \<and> rr_pick r ws = Ok (ID n)} = nat w"
      unfolding S_def using Cons.prems v S by (intro Cons.IH) (auto simp: S_def)
    have "{r. 0 \<le> r \<and> r < v + S \<and> rr_pick r (mv # ws) = Ok (ID n)} =
      (\<lambda>r. r + v) ` {r. 0 \<le> r \<and> r < S \<and> rr_pick r ws = Ok (ID n)}" (is "?L = ?R")
    proof
      show "?L \<subseteq> ?R"
      proof
        fix r assume r: "r \<in> ?L"
        then have "\<not> r < v" using step [of r] False by auto
        then have "r - v \<in> {r. 0 \<le> r \<and> r < S \<and> rr_pick r ws = Ok (ID n)}"
          using r step [of r] by auto
        then show "r \<in> ?R" by (rule rev_image_eqI) simp
      qed
      show "?R \<subseteq> ?L" using step v by auto
    qed
    moreover have "inj_on (\<lambda>r. r + v) {r. 0 \<le> r \<and> r < S \<and> rr_pick r ws = Ok (ID n)}"
      by (simp add: inj_on_def)
    ultimately show ?thesis
      by (simp add: mv S_def [symmetric] card_image IH)
  qed
qed simp

lemma rr_list_mem: "n \<in> set ns \<Longrightarrow> rr_share c n \<noteq> 0 \<Longrightarrow> (n, rr_share c n) \<in> set (rr_list c ns)"
  by (simp add: rr_list_def)

lemma rr_list_ids: "map (ID \<circ> fst) (rr_list c ns) = map ID (filter (\<lambda>n. rr_share c n \<noteq> 0) ns)"
  by (simp add: rr_list_def)

lemma rr_list_ID:
  assumes "distinct (map ID ns)" and "n \<in> set ns" and "i = ID n" and "i \<in> ID ` fst ` set (rr_list c ns)"
  shows "rr_share c n \<noteq> 0"
  using assms by (auto simp: rr_list_def distinct_map inj_on_def image_iff)

lemma Pick_roundRobin:
  assumes "sum_list (map (rr_share c) ns) < 2 ^ 63" and "0 < sum_list (map (rr_share c) ns)"
  shows "Pick xxhash rnd (fst (newRoundRobinBalancer c ns)) sess =
    rr_pick (rnd (sum_list (map (rr_share c) ns))) (rr_list c ns)"
  using assms by (simp add: newRoundRobinBalancer_eq rand_Intn_def)

section \<open>The contract of a balancer\<close>

text \<open>
  What the resolver relies on: a factory keeps the nodes it was given (it may reorder the
  slice), and a picked node is one of them.
\<close>

locale balancer_factory =
  fixes factory :: BalancerFactory
  assumes same_nodes: "mset (snd (factory c ns)) = mset ns"
    and picks_member: "\<lbrakk>ns \<noteq> []; rand_ok rnd; Pick xxhash rnd (fst (factory c ns)) sess = Ok i\<rbrakk>
      \<Longrightarrow> i \<in> ID ` set ns"
begin

lemma same_set: "set (snd (factory c ns)) = set ns"
  using same_nodes by (metis mset_eq_setD)

lemma picks_node:
  assumes "ns \<noteq> []" and "rand_ok rnd" and "Pick xxhash rnd (fst (factory c ns)) sess = Ok i"
  obtains n where "n \<in> set (snd (factory c ns))" and "ID n = i"
  using picks_member [OF assms] by (auto simp: same_set)

end

lemma pick_index_Ok: "pick_index ns i = Ok j \<Longrightarrow> j \<in> ID ` set ns"
  by (auto simp: pick_index_def dest: go_index_mem split: go.splits)

lemma pick_index_nth: "0 \<le> i \<Longrightarrow> i < int (length ns) \<Longrightarrow> pick_index ns i = Ok (ID (ns ! nat i))"
  by (simp add: pick_index_def go_index_def)

lemma hd_sort_key_min:
  assumes "ns \<noteq> []"
  shows "ID (hd (sort_key ID ns)) = Min (ID ` set ns)"
proof -
  have "sorted (map ID (sort_key ID ns))" by simp
  moreover have "sort_key ID ns \<noteq> []" using assms by simp
  ultimately have "\<forall>x \<in> set (sort_key ID ns). ID (hd (sort_key ID ns)) \<le> ID x"
    by (cases "sort_key ID ns") auto
  moreover have "hd (sort_key ID ns) \<in> set ns"
    using \<open>sort_key ID ns \<noteq> []\<close> by (metis list.set_sel(1) set_sort)
  ultimately show ?thesis by (intro Min_eqI [symmetric]) auto
qed

lemma last_sort_key_max:
  assumes "ns \<noteq> []"
  shows "ID (last (sort_key ID ns)) = Max (ID ` set ns)"
proof -
  have "ID x \<le> ID (last (sort_key ID ns))" if "x \<in> set ns" for x
    using that by (intro sorted_map_last) simp_all
  moreover have "last (sort_key ID ns) \<in> set ns"
    using assms by (metis last_in_set set_sort sort_key_Nil_iff)
  ultimately show ?thesis by (intro Max_eqI [symmetric]) auto
qed

interpretation random_bal: balancer_factory newRandomBalancer
  by unfold_locales (auto simp: newRandomBalancer_def rand_Intn_def split: go.splits if_splits
      dest: pick_index_Ok)

lemma rr_collect_fst: "fst ` set (fst (rr_collect c ns ws t)) \<subseteq> fst ` set ws \<union> set ns"
  by (induction c ns ws t rule: rr_collect.induct) (auto split: option.splits)

interpretation roundRobin_bal: balancer_factory newRoundRobinBalancer
proof unfold_locales
  fix c ns rnd xxhash sess i
  show "mset (snd (newRoundRobinBalancer c ns)) = mset ns"
    by (simp add: newRoundRobinBalancer_def split: prod.splits)
  assume "Pick xxhash rnd (fst (newRoundRobinBalancer c ns)) sess = Ok i"
  then have "i \<in> ID ` fst ` set (fst (rr_collect c ns [] 0))"
    by (auto simp: newRoundRobinBalancer_def rand_Intn_def dest: rr_pick_ids
        split: prod.splits if_splits)
  then show "i \<in> ID ` set ns" using rr_collect_fst [of c ns "[]" 0] by auto
qed

interpretation ipHash_bal: balancer_factory newIPHashBalancer
  by unfold_locales (auto simp: newIPHashBalancer_def split: go.splits if_splits dest: pick_index_Ok)

interpretation idHash_bal: balancer_factory newIDHashBalancer
  by unfold_locales (auto simp: newIDHashBalancer_def split: if_splits dest: pick_index_Ok)

lemma hd_sort_mem: "ns \<noteq> [] \<Longrightarrow> hd (sort_key ID ns) \<in> set ns"
  by (metis length_0_conv length_sort list.set_sel(1) set_sort)

lemma hd_rev_sort_mem: "ns \<noteq> [] \<Longrightarrow> hd (rev (sort_key ID ns)) \<in> set ns"
  by (metis length_0_conv length_sort list.set_sel(1) rev_is_Nil_conv set_rev set_sort)

interpretation oldest_bal: balancer_factory newOldestBalancer
  by unfold_locales (auto simp: newOldestBalancer_def Let_def hd_sort_mem)

interpretation newest_bal: balancer_factory newNewestBalancer
  by unfold_locales (auto simp: newNewestBalancer_def Let_def hd_rev_sort_mem)

text \<open>A registry whose factories all keep the contract, as the built-in one does.\<close>

definition registry_ok :: "(string \<rightharpoonup> BalancerFactory) \<Rightarrow> bool" where
  "registry_ok reg \<longleftrightarrow> (\<forall>p f. reg p = Some f \<longrightarrow> balancer_factory f)"

lemma registeredBalancer_ok: "registry_ok registeredBalancer"
  unfolding registry_ok_def registeredBalancer_def
  using random_bal.balancer_factory_axioms roundRobin_bal.balancer_factory_axioms
    ipHash_bal.balancer_factory_axioms idHash_bal.balancer_factory_axioms
    oldest_bal.balancer_factory_axioms newest_bal.balancer_factory_axioms
  by (auto split: if_splits)

lemma RegisterBalancer_ok:
  "registry_ok reg \<Longrightarrow> balancer_factory f \<Longrightarrow> RegisterBalancer p f reg = Ok reg' \<Longrightarrow> registry_ok reg'"
  by (auto simp: RegisterBalancer_def registry_ok_def split: option.splits if_splits)

lemma NewBalancer_many:
  assumes "2 \<le> length ns"
  shows "NewBalancer reg c ns =
    (let sorted = rev (sort_key ID ns); policy = desc_policy c (hd sorted)
     in case reg (ToLower policy) of
          Some factory \<Rightarrow> factory c sorted
        | None \<Rightarrow> (errorBalancer (ErrNew (''balancer '' @ policy @ '' not implemented'')), sorted))"
  using assms unfolding NewBalancer_def by (cases ns; cases "tl ns") auto

text \<open>\<open>NewBalancer\<close> keeps the contract when every registered factory does.\<close>

lemma NewBalancer_factory:
  assumes reg: "registry_ok reg"
  shows "balancer_factory (NewBalancer reg)"
proof (unfold_locales)
  fix c ns
  show "mset (snd (NewBalancer reg c ns)) = mset ns"
  proof (cases "2 \<le> length ns")
    case True
    then show ?thesis
      using reg by (auto simp: NewBalancer_many Let_def registry_ok_def
          balancer_factory.same_nodes split: option.splits)
  next
    case False
    then show ?thesis unfolding NewBalancer_def by (cases ns; cases "tl ns") auto
  qed
next
  fix c ns rnd xxhash sess i
  assume *: "ns \<noteq> []" "rand_ok rnd" "Pick xxhash rnd (fst (NewBalancer reg c ns)) sess = Ok i"
  show "i \<in> ID ` set ns"
  proof (cases "2 \<le> length ns")
    case True
    define srt where "srt = rev (sort_key ID ns)"
    have "srt \<noteq> []" "set srt = set ns" using *(1) by (auto simp: srt_def)
    obtain f where "reg (ToLower (desc_policy c (hd srt))) = Some f"
      and "Pick xxhash rnd (fst (f c srt)) sess = Ok i"
      using *(3) True by (auto simp: NewBalancer_many Let_def srt_def split: option.splits)
    then have "i \<in> ID ` set srt"
      using reg *(2) \<open>srt \<noteq> []\<close> unfolding registry_ok_def
      by (meson balancer_factory.picks_member)
    with \<open>set srt = set ns\<close> show ?thesis by simp
  next
    case False
    with *(1) obtain n where "ns = [n]" by (cases ns; cases "tl ns") auto
    with *(3) show ?thesis by (simp add: NewBalancer_def)
  qed
qed

interpretation builtin: balancer_factory "NewBalancer registeredBalancer"
  by (rule NewBalancer_factory [OF registeredBalancer_ok])

section \<open>Properties\<close>

text \<open>Two nodes that offer service 7, used where a statement is applied to concrete nodes.\<close>

definition demo_node :: "48 word \<Rightarrow> int \<Rightarrow> string \<Rightarrow> NodeEntry" where
  "demo_node t w policy =
     \<lparr>ID = ULID t 0, Name = ''echo'', State = NodeOK, Entrance = [], Metrics = [],
      GRPC = \<lparr>Endpoint = ''10.0.0.1:9000'',
        Services = [\<lparr>SvcName = ''echo.Echo'', Code = 7, Path = ''/echo.Echo'', Public = True,
          Balancer = policy, Weight = w, Stateful = False, Allocation = []\<rparr>]\<rparr>,
      GitVersion = []\<rparr>"

lemma demo_node_simps [simp]:
  "ID (demo_node t w p) = ULID t 0"
  "State (demo_node t w p) = NodeOK"
  "rr_share 7 (demo_node t w p) = 10 * max 1 w"
  "desc_policy 7 (demo_node t w p) = p"
  by (simp_all add: demo_node_def rr_share_def desc_policy_def)

text \<open>
  C29. Weighted round robin is exactly proportional: of the values \<open>rand.Intn(sum)\<close> can
  draw, the number that selects a node is ten times the node's weight (ten for a weight
  that is not positive, none for a node without the service), as long as the weights add
  up within an \<open>int\<close>.
\<close>

theorem round_robin_share:
  assumes "distinct (map ID ns)" and "sum_list (map (rr_share c) ns) < 2 ^ 63" and "n \<in> set ns"
  shows "card {r. 0 \<le> r \<and> r < sum_list (map (rr_share c) ns) \<and>
      Pick xxhash (\<lambda>_. r) (fst (newRoundRobinBalancer c ns)) sess = Ok (ID n)} =
    nat (rr_share c n)"
proof -
  define T where "T = sum_list (map (rr_share c) ns)"
  have eq: "{r. 0 \<le> r \<and> r < T \<and> Pick xxhash (\<lambda>_. r) (fst (newRoundRobinBalancer c ns)) sess = Ok (ID n)}
    = {r. 0 \<le> r \<and> r < sum_list (map snd (rr_list c ns)) \<and> rr_pick r (rr_list c ns) = Ok (ID n)}"
    using assms(2) by (auto simp: T_def Pick_roundRobin sum_rr_list)
  show ?thesis
  proof (cases "rr_share c n = 0")
    case True
    then have "rr_pick r (rr_list c ns) \<noteq> Ok (ID n)" for r
      using rr_list_ID [OF assms(1,3) refl] rr_pick_ids by blast
    then show ?thesis unfolding T_def [symmetric] eq using True by simp
  next
    case False
    have "distinct (map (ID \<circ> fst) (rr_list c ns))"
      using assms(1) by (simp add: rr_list_ids distinct_map_filter)
    then have "card {r. 0 \<le> r \<and> r < sum_list (map snd (rr_list c ns)) \<and>
        rr_pick r (rr_list c ns) = Ok (ID n)} = nat (rr_share c n)"
      using assms(2) rr_list_mem [OF assms(3) False]
      by (intro rr_pick_card) (auto simp: sum_rr_list dest: rr_list_pos)
    then show ?thesis unfolding T_def [symmetric] eq .
  qed
qed

theorem round_robin_share_witness:
  "card {r. 0 \<le> r \<and> r < 40 \<and>
      Pick (\<lambda>_. 0) (\<lambda>_. r)
        (fst (newRoundRobinBalancer 7 [demo_node 2 3 ''roundRobin'', demo_node 1 0 ''roundRobin'']))
        \<lparr>view_ID = ''u1'', view_RemoteAddr = []\<rparr> = Ok (ULID 2 0)} = 30"
  using round_robin_share [of "[demo_node 2 3 ''roundRobin'', demo_node 1 0 ''roundRobin'']" 7
      "demo_node 2 3 ''roundRobin''" "\<lambda>_. 0" "\<lparr>view_ID = ''u1'', view_RemoteAddr = []\<rparr>"]
  by simp

text \<open>
  Weighted round robin always answers: when some node offers the service and the
  weights add up within an \<open>int\<close>, \<open>Pick\<close> returns a node for every value drawn; the
  \<open>ErrNoNodeAvailable\<close> after its loop is never reached.
\<close>

theorem round_robin_answers:
  assumes "rand_ok rnd" and "sum_list (map (rr_share c) ns) < 2 ^ 63"
    and "0 < sum_list (map (rr_share c) ns)"
  shows "\<exists>i. Pick xxhash rnd (fst (newRoundRobinBalancer c ns)) sess = Ok i"
proof -
  have "\<exists>i. rr_pick (rnd (sum_list (map (rr_share c) ns))) (rr_list c ns) = Ok i"
    using assms by (intro rr_pick_total) (auto simp: sum_rr_list rand_ok_def dest: rr_list_pos)
  with assms(2,3) show ?thesis by (simp add: Pick_roundRobin)
qed

theorem round_robin_answers_witness:
  "\<exists>i. Pick (\<lambda>_. 0) (\<lambda>n. n - 1)
     (fst (newRoundRobinBalancer 7 [demo_node 2 3 ''roundRobin'', demo_node 1 0 ''roundRobin'']))
     \<lparr>view_ID = ''u1'', view_RemoteAddr = []\<rparr> = Ok i"
  by (rule round_robin_answers) (simp_all add: rand_ok_def)

text \<open>
  The newest node's configuration decides the policy, and the two single-node policies
  do what they say: with \<open>oldest\<close> the node with the least ULID is picked, with
  \<open>newest\<close> the one with the greatest.
\<close>

theorem oldest_newest_policy:
  assumes "2 \<le> length ns" and "distinct (map ID ns)" and "n \<in> set ns" and "ID n = Max (ID ` set ns)"
  shows "(ToLower (desc_policy c n) = ''oldest'' \<longrightarrow>
      Pick xxhash rnd (fst (NewBalancer registeredBalancer c ns)) sess = Ok (Min (ID ` set ns))) \<and>
    (ToLower (desc_policy c n) = ''newest'' \<longrightarrow>
      Pick xxhash rnd (fst (NewBalancer registeredBalancer c ns)) sess = Ok (Max (ID ` set ns)))"
proof -
  have ne: "ns \<noteq> []" using assms(1) by auto
  define srt where "srt = rev (sort_key ID ns)"
  have srt: "srt \<noteq> []" "set srt = set ns" using ne by (simp_all add: srt_def)
  have "hd srt = last (sort_key ID ns)" using ne by (simp add: srt_def hd_rev)
  then have "ID (hd srt) = ID n" using assms(4) last_sort_key_max [OF ne] by simp
  moreover have "hd srt \<in> set ns" using srt by (metis list.set_sel(1))
  ultimately have n: "hd srt = n" using assms(2,3) by (auto simp: distinct_map inj_on_def)
  have "NewBalancer registeredBalancer c ns = newOldestBalancer c srt"
    if "ToLower (desc_policy c n) = ''oldest''"
    using that assms(1) n [symmetric]
    by (simp add: NewBalancer_many Let_def srt_def registeredBalancer_def ToLower_def to_lower_def
        BalancerRandom_def BalancerRoundRobin_def BalancerIPHash_def BalancerIDHash_def
        BalancerOldest_def BalancerNewest_def)
  moreover have "NewBalancer registeredBalancer c ns = newNewestBalancer c srt"
    if "ToLower (desc_policy c n) = ''newest''"
    using that assms(1) n [symmetric]
    by (simp add: NewBalancer_many Let_def srt_def registeredBalancer_def ToLower_def to_lower_def
        BalancerRandom_def BalancerRoundRobin_def BalancerIPHash_def BalancerIDHash_def
        BalancerOldest_def BalancerNewest_def)
  ultimately show ?thesis
    using srt hd_sort_key_min [of srt] last_sort_key_max [of srt]
    by (auto simp: newOldestBalancer_def newNewestBalancer_def Let_def hd_rev)
qed

theorem oldest_newest_policy_witness:
  "Pick (\<lambda>_. 0) (\<lambda>_. 0)
     (fst (NewBalancer registeredBalancer 7 [demo_node 1 0 ''random'', demo_node 2 0 ''Oldest'']))
     \<lparr>view_ID = ''u1'', view_RemoteAddr = []\<rparr> = Ok (ULID 1 0)"
proof -
  let ?ns = "[demo_node 1 0 ''random'', demo_node 2 0 ''Oldest'']"
  have m: "Max (ID ` set ?ns) = ULID 2 0" "Min (ID ` set ?ns) = ULID 1 0"
    by (simp_all add: max_def min_def less_eq_ulid_def)
  have "ToLower (desc_policy 7 (demo_node 2 0 ''Oldest'')) = ''oldest''"
    by (simp only: demo_node_simps) code_simp
  then show ?thesis
    using oldest_newest_policy [of ?ns "demo_node 2 0 ''Oldest''" 7] m by simp
qed

text \<open>
  Whatever the policy, a balancer built from the built-in factories only ever picks one
  of the nodes it was built from.
\<close>

theorem builtin_picks_member:
  assumes "ns \<noteq> []" and "rand_ok rnd"
    and "Pick xxhash rnd (fst (NewBalancer registeredBalancer c ns)) sess = Ok i"
  shows "i \<in> ID ` set ns"
  using assms by (rule builtin.picks_member)

theorem builtin_picks_member_witness:
  "ULID 1 0 \<in> ID ` set [demo_node 1 0 ''random'']"
  by (rule builtin_picks_member [where rnd = "\<lambda>_. 0" and xxhash = "\<lambda>_. 0" and c = 7
        and sess = "\<lparr>view_ID = [], view_RemoteAddr = []\<rparr>"])
    (simp_all add: rand_ok_def NewBalancer_def)

text \<open>
  The identity hash balancer answers only for part of the hash values: \<open>int(hash)\<close>
  is negative for half of them, \<open>%\<close> keeps the sign, and the index then lies outside the
  slice. \<open>Pick\<close> returns a node exactly when the signed hash is not negative or is
  divisible by the number of nodes, and panics otherwise.
\<close>

theorem idHash_pick_iff:
  assumes "ns \<noteq> []"
  shows "((\<exists>i. Pick xxhash rnd (idHashBalancer ns) sess = Ok i) \<longleftrightarrow>
      0 \<le> sint (xxhash (view_ID sess)) \<or> int (length ns) dvd sint (xxhash (view_ID sess))) \<and>
    ((\<exists>p. Pick xxhash rnd (idHashBalancer ns) sess = Panic p) \<longleftrightarrow>
      sint (xxhash (view_ID sess)) < 0 \<and> \<not> int (length ns) dvd sint (xxhash (view_ID sess)))"
  using assms go_rem_index [of ns "sint (xxhash (view_ID sess))"]
  by (auto simp: pick_index_def split: go.splits)

theorem idHash_pick_iff_witness:
  "\<exists>p. Pick (\<lambda>_. -1) (\<lambda>_. 0)
     (idHashBalancer [demo_node 2 0 ''idHash'', demo_node 1 0 ''idHash''])
     \<lparr>view_ID = ''u1'', view_RemoteAddr = []\<rparr> = Panic p"
  using idHash_pick_iff [of "[demo_node 2 0 ''idHash'', demo_node 1 0 ''idHash'']" "\<lambda>_. -1" "\<lambda>_. 0"
      "\<lparr>view_ID = ''u1'', view_RemoteAddr = []\<rparr>"]
  by simp

text \<open>
  The address hash balancer is total and stable on IPv4 clients: an address that parses
  as \<open>a.b.c.d:port\<close> selects the node at the 32-bit address modulo the number of nodes.
\<close>

theorem ipHash_ipv4:
  assumes "ns \<noteq> []" and "ParseAddrPort (view_RemoteAddr sess) = Inr (Addr4 b, port)"
  shows "Pick xxhash rnd (ipHashBalancer ns) sess =
    Ok (ID (ns ! nat (big_SetBytes b mod int (length ns))))"
proof -
  have "length b = 4 \<and> is_bytes b" using assms(2) by (rule ParseAddrPort_v4_bytes)
  then have v: "0 \<le> big_SetBytes b" "big_SetBytes b < 2 ^ 63"
    using big_SetBytes_bound [of b] by auto
  then have "addrToint64 (view_RemoteAddr sess) = Ok (big_SetBytes b)"
    using assms(2) by (simp add: addrToint64_def big_Int64_def int64_of_id)
  then show ?thesis
    using assms(1) v go_rem_nonneg [of "big_SetBytes b" "int (length ns)"]
    by (simp add: go_rem_eq_mod pick_index_nth)
qed

theorem ipHash_ipv4_witness:
  "Pick (\<lambda>_. 0) (\<lambda>_. 0) (ipHashBalancer [demo_node 2 0 ''ipHash'', demo_node 1 0 ''ipHash''])
     \<lparr>view_ID = ''u1'', view_RemoteAddr = ''192.168.0.1:1234''\<rparr> = Ok (ULID 1 0)"
proof -
  have "ParseAddrPort ''192.168.0.1:1234'' = Inr (Addr4 [192, 168, 0, 1], 1234)"
    by code_simp
  then have "Pick (\<lambda>_. 0) (\<lambda>_. 0) (ipHashBalancer [demo_node 2 0 ''ipHash'', demo_node 1 0 ''ipHash''])
     \<lparr>view_ID = ''u1'', view_RemoteAddr = ''192.168.0.1:1234''\<rparr> =
     Ok (ID ([demo_node 2 0 ''ipHash'', demo_node 1 0 ''ipHash''] !
       nat (big_SetBytes [192, 168, 0, 1] mod int (length [demo_node 2 0 ''ipHash'', demo_node 1 0 ''ipHash'']))))"
    by (intro ipHash_ipv4) simp_all
  then show ?thesis by (simp add: big_SetBytes_def)
qed

end
