(* ===== verification/Cluster_Resolver.thy ===== *)
theory Cluster_Resolver
  imports Cluster_Balancer
begin

text \<open>
  The gRPC resolver (\<open>src/cluster/resolver.go\<close>): which nodes are online, which of them
  can take new requests for each service, the balancer of each service and the cached
  connections.

  A connection is its handle. \<open>grpc.NewClient\<close> with the dial options is the parameter
  \<open>dial\<close>; the order in which \<open>allNodes.Range\<close> visits the nodes while the service \<open>c\<close>
  is updated is \<open>ord c m\<close>; \<open>reg\<close> is the registry of balancer factories. The mutex makes
  \<open>Update\<close> and \<open>Remove\<close> atomic, so each is one function on the state.
\<close>

section \<open>State and operations\<close>

record grpcResolver =
  services :: "int \<rightharpoonup> GRPCServiceDesc"
  allNodes :: "ulid \<rightharpoonup> NodeEntry"
  okNodes :: "int \<rightharpoonup> NodeEntry list"
  serviceBalancer :: "int \<rightharpoonup> balancer"
  conns :: "string \<rightharpoonup> nat"
  closedConns :: "nat list"

type_synonym range_order = "int \<Rightarrow> (ulid \<rightharpoonup> NodeEntry) \<Rightarrow> ulid list"

definition newGRPCResolver :: grpcResolver where
  "newGRPCResolver = \<lparr>services = Map.empty, allNodes = Map.empty, okNodes = Map.empty,
     serviceBalancer = Map.empty, conns = Map.empty, closedConns = []\<rparr>"

definition offers :: "int \<Rightarrow> NodeEntry \<Rightarrow> bool" where
  "offers serviceCode node = list_ex (\<lambda>desc. Code desc = serviceCode) (Services (GRPC node))"

definition updateServiceNodes :: "range_order \<Rightarrow> int \<Rightarrow> grpcResolver \<Rightarrow> grpcResolver" where
  "updateServiceNodes ord serviceCode r =
     (let nodes = filter (\<lambda>node. State node = NodeOK \<and> offers serviceCode node)
                    (map_values (ord serviceCode (allNodes r)) (allNodes r))
      in if nodes = [] then r\<lparr>okNodes := (okNodes r)(serviceCode := None)\<rparr>
         else r\<lparr>okNodes := (okNodes r)(serviceCode \<mapsto> nodes)\<rparr>)"

definition updateBalancer ::
  "(string \<rightharpoonup> BalancerFactory) \<Rightarrow> int \<Rightarrow> grpcResolver \<Rightarrow> grpcResolver" where
  "updateBalancer reg serviceCode r =
     (case services r serviceCode of
        None \<Rightarrow> r
      | Some desc \<Rightarrow>
          if \<not> Public desc then r
          else (case okNodes r serviceCode of
            None \<Rightarrow> r\<lparr>serviceBalancer := (serviceBalancer r)(serviceCode := None)\<rparr>
          | Some nodes \<Rightarrow>
              if nodes = [] then r\<lparr>serviceBalancer := (serviceBalancer r)(serviceCode := None)\<rparr>
              else (case NewBalancer reg serviceCode nodes of
                (b, nodes') \<Rightarrow>
                  r\<lparr>serviceBalancer := (serviceBalancer r)(serviceCode \<mapsto> b),
                    okNodes := (okNodes r)(serviceCode \<mapsto> nodes')\<rparr>)))"

text \<open>\<open>conns.LoadAndDelete(endpoint)\<close> and \<open>conn.Close()\<close>, the deferred cleanup.\<close>

definition closeConn :: "string \<Rightarrow> grpcResolver \<Rightarrow> grpcResolver" where
  "closeConn endpoint r =
     (case conns r endpoint of
        None \<Rightarrow> r
      | Some conn \<Rightarrow> r\<lparr>conns := (conns r)(endpoint := None),
                       closedConns := closedConns r @ [conn]\<rparr>)"

definition updateDesc ::
  "(string \<rightharpoonup> BalancerFactory) \<Rightarrow> range_order \<Rightarrow> GRPCServiceDesc \<Rightarrow> grpcResolver \<Rightarrow> grpcResolver" where
  "updateDesc reg ord desc r =
     (if Code desc > 0 then
        updateBalancer reg (Code desc) (updateServiceNodes ord (Code desc)
          (r\<lparr>services := (services r)(Code desc \<mapsto> desc)\<rparr>))
      else r)"

definition resolver_Update ::
  "(string \<rightharpoonup> BalancerFactory) \<Rightarrow> range_order \<Rightarrow> NodeEntry \<Rightarrow> grpcResolver \<Rightarrow> grpcResolver" where
  "resolver_Update reg ord node r =
     (if Services (GRPC node) = [] then r
      else let r1 = r\<lparr>allNodes := (allNodes r)(ID node \<mapsto> node)\<rparr>;
               r2 = fold (updateDesc reg ord) (Services (GRPC node)) r1
           in if State node = NodeDown then closeConn (Endpoint (GRPC node)) r2 else r2)"

definition removeDesc ::
  "(string \<rightharpoonup> BalancerFactory) \<Rightarrow> range_order \<Rightarrow> GRPCServiceDesc \<Rightarrow> grpcResolver \<Rightarrow> grpcResolver" where
  "removeDesc reg ord desc r =
     (if Code desc > 0
      then updateBalancer reg (Code desc) (updateServiceNodes ord (Code desc) r) else r)"

definition resolver_Remove ::
  "(string \<rightharpoonup> BalancerFactory) \<Rightarrow> range_order \<Rightarrow> NodeEntry \<Rightarrow> grpcResolver \<Rightarrow> grpcResolver" where
  "resolver_Remove reg ord node r =
     (if Services (GRPC node) = [] then r
      else let r1 = r\<lparr>allNodes := (allNodes r)(ID node := None)\<rparr>;
               r2 = fold (removeDesc reg ord) (Services (GRPC node)) r1
           in closeConn (Endpoint (GRPC node)) r2)"

definition GetDesc :: "grpcResolver \<Rightarrow> int \<Rightarrow> GRPCServiceDesc option" where
  "GetDesc r serviceCode = services r serviceCode"

definition AllocNode ::
  "(string \<Rightarrow> 64 word) \<Rightarrow> (int \<Rightarrow> int) \<Rightarrow> grpcResolver \<Rightarrow> int \<Rightarrow> Session_view \<Rightarrow> ulid go" where
  "AllocNode xxhash rnd r serviceCode sess =
     (case serviceBalancer r serviceCode of
        None \<Rightarrow> Error ErrNoNodeAvailable
      | Some b \<Rightarrow> Pick xxhash rnd b sess)"

definition PickNode :: "(int \<Rightarrow> int) \<Rightarrow> grpcResolver \<Rightarrow> int \<Rightarrow> ulid go" where
  "PickNode rnd r serviceCode =
     (let nodes = (case okNodes r serviceCode of None \<Rightarrow> [] | Some ns \<Rightarrow> ns) in
      if nodes = [] then Error ErrNoNodeAvailable
      else if length nodes = 1 then Ok (ID (hd nodes))
      else case rand_Intn rnd (int (length nodes)) of
        Ok i \<Rightarrow> pick_index nodes i | Error e \<Rightarrow> Error e | Panic p \<Rightarrow> Panic p)"

definition getConn :: "(string \<Rightarrow> go_error + nat) \<Rightarrow> string \<Rightarrow> grpcResolver \<Rightarrow> grpcResolver \<times> nat go" where
  "getConn dial endpoint r =
     (case conns r endpoint of
        Some conn \<Rightarrow> (r, Ok conn)
      | None \<Rightarrow>
          (case dial endpoint of
             Inl err \<Rightarrow> (r, Error (ErrWrap ''dial grpc'' err))
           | Inr conn \<Rightarrow> (r\<lparr>conns := (conns r)(endpoint \<mapsto> conn)\<rparr>, Ok conn)))"

definition GetConn :: "(string \<Rightarrow> go_error + nat) \<Rightarrow> ulid \<Rightarrow> grpcResolver \<Rightarrow> grpcResolver \<times> nat go" where
  "GetConn dial nodeID r =
     (case allNodes r nodeID of
        None \<Rightarrow> (r, Error ErrNodeNotFoundOrDown)
      | Some node \<Rightarrow>
          if State node = NodeDown then (r, Error ErrNodeNotFoundOrDown)
          else getConn dial (Endpoint (GRPC node)) r)"

text \<open>\<open>Close\<close> closes and forgets every connection, in the visiting order of the map.\<close>

definition resolver_Close :: "string list \<Rightarrow> grpcResolver \<Rightarrow> grpcResolver" where
  "resolver_Close keys r =
     map_range (\<lambda>key conn s. (s\<lparr>closedConns := closedConns s @ [conn],
                                conns := (conns s)(key := None)\<rparr>, True)) keys (conns r) r"

definition DumpData ::
  "grpcResolver \<Rightarrow> (int \<rightharpoonup> GRPCServiceDesc) \<times> (ulid \<rightharpoonup> NodeEntry) \<times> (int \<rightharpoonup> ulid list)" where
  "DumpData r = (services r, allNodes r, \<lambda>c. map_option (map ID) (okNodes r c))"

section \<open>The invariant\<close>

text \<open>The nodes that can take new requests for a service, read off the online nodes.\<close>

definition ok_set :: "grpcResolver \<Rightarrow> int \<Rightarrow> NodeEntry set" where
  "ok_set r c = {n \<in> ran (allNodes r). State n = NodeOK \<and> c \<in> codes_of n}"

definition ids_ok :: "grpcResolver \<Rightarrow> bool" where
  "ids_ok r \<longleftrightarrow> finite (dom (allNodes r)) \<and> (\<forall>i n. allNodes r i = Some n \<longrightarrow> ID n = i)"

definition ok_at :: "grpcResolver \<Rightarrow> int \<Rightarrow> bool" where
  "ok_at r c \<longleftrightarrow>
     (case okNodes r c of
        None \<Rightarrow> ok_set r c = {}
      | Some ns \<Rightarrow> ns \<noteq> [] \<and> distinct (map ID ns) \<and> set ns = ok_set r c)"

definition bal_at :: "(string \<rightharpoonup> BalancerFactory) \<Rightarrow> grpcResolver \<Rightarrow> int \<Rightarrow> bool" where
  "bal_at reg r c \<longleftrightarrow>
     (\<forall>d. services r c = Some d \<longrightarrow> Public d \<longrightarrow>
        (case okNodes r c of
           None \<Rightarrow> serviceBalancer r c = None
         | Some ns \<Rightarrow> \<exists>ns'. mset ns' = mset ns \<and> serviceBalancer r c = Some (fst (NewBalancer reg c ns'))))"

definition resolver_inv :: "(string \<rightharpoonup> BalancerFactory) \<Rightarrow> grpcResolver \<Rightarrow> bool" where
  "resolver_inv reg r \<longleftrightarrow> ids_ok r \<and> (\<forall>c > 0. ok_at r c \<and> bal_at reg r c)"

definition range_ok :: "range_order \<Rightarrow> bool" where
  "range_ok ord \<longleftrightarrow> (\<forall>c m. finite (dom m) \<longrightarrow> enumerates (ord c m) m)"

text \<open>
  A node registers the same services for its whole life, so an update or a removal names
  every service the resolver already knows of the node.
\<close>

definition keeps_codes :: "grpcResolver \<Rightarrow> NodeEntry \<Rightarrow> bool" where
  "keeps_codes r node \<longleftrightarrow>
     (\<forall>old. allNodes r (ID node) = Some old \<longrightarrow> codes_of old \<subseteq> codes_of node)"

inductive resolver_reach :: "(string \<rightharpoonup> BalancerFactory) \<Rightarrow> grpcResolver \<Rightarrow> bool"
  for reg where
  reach_new: "resolver_reach reg newGRPCResolver"
| reach_Update: "resolver_reach reg r \<Longrightarrow> range_ok ord \<Longrightarrow> keeps_codes r node \<Longrightarrow>
    resolver_reach reg (resolver_Update reg ord node r)"
| reach_Remove: "resolver_reach reg r \<Longrightarrow> range_ok ord \<Longrightarrow> keeps_codes r node \<Longrightarrow>
    resolver_reach reg (resolver_Remove reg ord node r)"
| reach_GetConn: "resolver_reach reg r \<Longrightarrow> resolver_reach reg (fst (GetConn dial i r))"
| reach_getConn: "resolver_reach reg r \<Longrightarrow> resolver_reach reg (fst (getConn dial e r))"
| reach_Close: "resolver_reach reg r \<Longrightarrow> resolver_reach reg (resolver_Close keys r)"

section \<open>Preservation\<close>

lemma offers_iff: "offers c n \<longleftrightarrow> c \<in> codes_of n"
  by (auto simp: offers_def codes_of_def list_ex_iff)

lemma ok_set_cong: "allNodes r' = allNodes r \<Longrightarrow> ok_set r' c = ok_set r c"
  by (simp add: ok_set_def)

text \<open>Recomputing one service makes it consistent and leaves the others alone.\<close>

lemma updateServiceNodes_frame [simp]:
  "allNodes (updateServiceNodes ord c r) = allNodes r"
  "services (updateServiceNodes ord c r) = services r"
  "serviceBalancer (updateServiceNodes ord c r) = serviceBalancer r"
  "conns (updateServiceNodes ord c r) = conns r"
  "c' \<noteq> c \<Longrightarrow> okNodes (updateServiceNodes ord c r) c' = okNodes r c'"
  by (simp_all add: updateServiceNodes_def Let_def)

lemma updateBalancer_frame [simp]:
  "allNodes (updateBalancer reg c r) = allNodes r"
  "services (updateBalancer reg c r) = services r"
  "conns (updateBalancer reg c r) = conns r"
  "c' \<noteq> c \<Longrightarrow> serviceBalancer (updateBalancer reg c r) c' = serviceBalancer r c'"
  "c' \<noteq> c \<Longrightarrow> okNodes (updateBalancer reg c r) c' = okNodes r c'"
  by (simp_all add: updateBalancer_def split: option.splits prod.splits)

lemma updateServiceNodes_ok_at:
  assumes "range_ok ord" and "ids_ok r"
  shows "ok_at (updateServiceNodes ord c r) c"
proof -
  define vs where "vs = map_values (ord c (allNodes r)) (allNodes r)"
  define ns where "ns = filter (\<lambda>n. State n = NodeOK \<and> offers c n) vs"
  have en: "enumerates (ord c (allNodes r)) (allNodes r)"
    using assms by (simp add: range_ok_def ids_ok_def)
  have "set vs = ran (allNodes r)"
    unfolding vs_def using en by (intro set_map_values) (simp add: enumerates_def)
  then have set_ns: "set ns = ok_set r c"
    by (auto simp: ns_def ok_set_def offers_iff)
  have "distinct (map ID vs)"
    unfolding vs_def using en assms(2) by (intro enumerates_distinct_values) (auto simp: ids_ok_def)
  then have d: "distinct (map ID ns)"
    unfolding ns_def by (rule distinct_map_filter)
  have "okNodes (updateServiceNodes ord c r) c = (if ns = [] then None else Some ns)"
    by (simp add: updateServiceNodes_def vs_def ns_def Let_def)
  moreover have "ok_set (updateServiceNodes ord c r) c = ok_set r c"
    by (rule ok_set_cong) simp
  ultimately show ?thesis
    using set_ns d unfolding ok_at_def by auto
qed

lemma NewBalancer_mset: "registry_ok reg \<Longrightarrow> mset (snd (NewBalancer reg c ns)) = mset ns"
  by (rule balancer_factory.same_nodes [OF NewBalancer_factory])

lemma ok_list_mset:
  fixes ns :: "NodeEntry list"
  assumes "mset ns' = mset ns"
  shows "ns' = [] \<longleftrightarrow> ns = []" and "distinct (map ID ns') \<longleftrightarrow> distinct (map ID ns)"
    and "set ns' = set ns"
proof -
  have "mset (map ID ns') = mset (map ID ns)" using assms by simp
  then show "distinct (map ID ns') \<longleftrightarrow> distinct (map ID ns)"
    by (rule mset_eq_imp_distinct_iff)
  show "set ns' = set ns" using assms by (rule mset_eq_setD)
  show "ns' = [] \<longleftrightarrow> ns = []" using assms by (metis mset_zero_iff)
qed

lemma updateBalancer_okNodes:
  assumes "registry_ok reg"
  obtains "okNodes (updateBalancer reg c r) c = okNodes r c"
  | ns ns' where "okNodes r c = Some ns" "okNodes (updateBalancer reg c r) c = Some ns'"
      "mset ns' = mset ns"
proof (cases "\<exists>d ns. services r c = Some d \<and> Public d \<and> okNodes r c = Some ns \<and> ns \<noteq> []")
  case True
  then obtain d ns where "services r c = Some d" "Public d" "okNodes r c = Some ns" "ns \<noteq> []"
    by blast
  then show thesis
    using that(2) [of ns "snd (NewBalancer reg c ns)"] NewBalancer_mset [OF assms, of c ns]
    by (simp add: updateBalancer_def split: prod.splits)
next
  case False
  then have "okNodes (updateBalancer reg c r) c = okNodes r c"
    by (auto simp: updateBalancer_def split: option.splits)
  then show thesis by (rule that(1))
qed

lemma updateBalancer_ok_at:
  assumes "registry_ok reg" and "ok_at r c"
  shows "ok_at (updateBalancer reg c r) c"
proof -
  have same: "ok_set (updateBalancer reg c r) c = ok_set r c" by (rule ok_set_cong) simp
  show ?thesis
  proof (cases rule: updateBalancer_okNodes [OF assms(1), of c r])
    case 1
    then show ?thesis using assms(2) by (simp add: ok_at_def same cong: option.case_cong)
  next
    case (2 ns ns')
    then show ?thesis
      using assms(2) ok_list_mset [OF 2(3)] by (simp add: ok_at_def same)
  qed
qed

lemma updateBalancer_bal_at:
  assumes "registry_ok reg" and "ok_at r c"
  shows "bal_at reg (updateBalancer reg c r) c"
proof (cases "\<exists>d ns. services r c = Some d \<and> Public d \<and> okNodes r c = Some ns")
  case True
  then obtain d ns where *: "services r c = Some d" "Public d" "okNodes r c = Some ns"
    by blast
  then have "ns \<noteq> []" using assms(2) by (simp add: ok_at_def)
  with * have
    "okNodes (updateBalancer reg c r) c = Some (snd (NewBalancer reg c ns))"
    "serviceBalancer (updateBalancer reg c r) c = Some (fst (NewBalancer reg c ns))"
    by (auto simp: updateBalancer_def split: prod.splits)
  moreover have "mset ns = mset (snd (NewBalancer reg c ns))"
    using NewBalancer_mset [OF assms(1)] by simp
  ultimately show ?thesis unfolding bal_at_def by auto
next
  case False
  then show ?thesis by (auto simp: bal_at_def updateBalancer_def split: option.splits)
qed
text \<open>The two loops, one service at a time.\<close>

definition fresh_at :: "(string \<rightharpoonup> BalancerFactory) \<Rightarrow> grpcResolver \<Rightarrow> int \<Rightarrow> bool" where
  "fresh_at reg r c \<longleftrightarrow> ok_at r c \<and> bal_at reg r c"

lemma refresh_fresh_at:
  assumes "registry_ok reg" and "range_ok ord" and "ids_ok r"
  shows "fresh_at reg (updateBalancer reg c (updateServiceNodes ord c r)) c"
  using assms unfolding fresh_at_def
  by (intro conjI updateBalancer_ok_at updateBalancer_bal_at updateServiceNodes_ok_at)

lemma fresh_at_cong:
  assumes "allNodes r' = allNodes r" and "okNodes r' c = okNodes r c"
    and "serviceBalancer r' c = serviceBalancer r c" and "services r' c = services r c"
  shows "fresh_at reg r' c \<longleftrightarrow> fresh_at reg r c"
  using assms by (simp add: fresh_at_def ok_at_def bal_at_def ok_set_def cong: option.case_cong)

lemma desc_frame [simp]:
  "allNodes (updateDesc reg ord d r) = allNodes r"
  "allNodes (removeDesc reg ord d r) = allNodes r"
  "conns (updateDesc reg ord d r) = conns r"
  "conns (removeDesc reg ord d r) = conns r"
  "services (removeDesc reg ord d r) = services r"
  by (simp_all add: updateDesc_def removeDesc_def)

lemma desc_frame_other:
  assumes "c \<noteq> Code d"
  shows "fresh_at reg (updateDesc reg ord d r) c \<longleftrightarrow> fresh_at reg r c"
    and "fresh_at reg (removeDesc reg ord d r) c \<longleftrightarrow> fresh_at reg r c"
proof -
  show "fresh_at reg (updateDesc reg ord d r) c \<longleftrightarrow> fresh_at reg r c"
    using assms by (intro fresh_at_cong) (simp_all add: updateDesc_def)
  show "fresh_at reg (removeDesc reg ord d r) c \<longleftrightarrow> fresh_at reg r c"
    using assms by (intro fresh_at_cong) (simp_all add: removeDesc_def)
qed

lemma ids_ok_desc [simp]:
  "ids_ok (updateDesc reg ord d r) \<longleftrightarrow> ids_ok r"
  "ids_ok (removeDesc reg ord d r) \<longleftrightarrow> ids_ok r"
  "ids_ok (r\<lparr>services := m\<rparr>) \<longleftrightarrow> ids_ok r"
  by (simp_all add: ids_ok_def)

lemma desc_fresh:
  assumes "registry_ok reg" and "range_ok ord" and "ids_ok r" and "0 < Code d"
  shows "fresh_at reg (updateDesc reg ord d r) (Code d)"
    and "fresh_at reg (removeDesc reg ord d r) (Code d)"
  using assms by (simp_all add: updateDesc_def removeDesc_def refresh_fresh_at)

text \<open>
  A loop that refreshes the code of each descriptor makes every positive code of the list
  consistent and keeps the others as they were.
\<close>

lemma fold_fresh:
  assumes "\<And>d r. ids_ok (f d r) \<longleftrightarrow> ids_ok r"
    and "\<And>d r c. c \<noteq> Code d \<Longrightarrow> fresh_at reg (f d r) c \<longleftrightarrow> fresh_at reg r c"
    and "\<And>d r. ids_ok r \<Longrightarrow> 0 < Code d \<Longrightarrow> fresh_at reg (f d r) (Code d)"
    and "ids_ok r" and "0 < c" and "c \<in> Code ` set ds \<or> fresh_at reg r c"
  shows "fresh_at reg (fold f ds r) c"
  using assms(4-6)
proof (induction ds arbitrary: r)
  case (Cons d ds)
  have "c \<in> Code ` set ds \<or> fresh_at reg (f d r) c"
    using Cons.prems assms(2) [of c d r] assms(3) [of r d] by (cases "c = Code d") auto
  then show ?case
    using Cons assms(1) by simp
qed simp

lemma fold_desc_frame [simp]:
  "allNodes (fold (updateDesc reg ord) ds r) = allNodes r"
  "allNodes (fold (removeDesc reg ord) ds r) = allNodes r"
  "conns (fold (updateDesc reg ord) ds r) = conns r"
  "conns (fold (removeDesc reg ord) ds r) = conns r"
  "services (fold (removeDesc reg ord) ds r) = services r"
  "ids_ok (fold (updateDesc reg ord) ds r) \<longleftrightarrow> ids_ok r"
  "ids_ok (fold (removeDesc reg ord) ds r) \<longleftrightarrow> ids_ok r"
  by (induction ds arbitrary: r) simp_all

lemma fold_updateDesc_fresh:
  assumes "registry_ok reg" and "range_ok ord" and "ids_ok r" and "0 < c"
    and "c \<in> Code ` set ds \<or> fresh_at reg r c"
  shows "fresh_at reg (fold (updateDesc reg ord) ds r) c"
  using assms by (intro fold_fresh) (simp_all add: desc_frame_other desc_fresh)

lemma fold_removeDesc_fresh:
  assumes "registry_ok reg" and "range_ok ord" and "ids_ok r" and "0 < c"
    and "c \<in> Code ` set ds \<or> fresh_at reg r c"
  shows "fresh_at reg (fold (removeDesc reg ord) ds r) c"
  using assms by (intro fold_fresh) (simp_all add: desc_frame_other desc_fresh)

lemma closeConn_frame [simp]:
  "allNodes (closeConn e r) = allNodes r"
  "services (closeConn e r) = services r"
  "okNodes (closeConn e r) = okNodes r"
  "serviceBalancer (closeConn e r) = serviceBalancer r"
  "conns (closeConn e r) = (conns r)(e := None)"
  by (auto simp: closeConn_def split: option.splits)

lemma resolver_inv_cong:
  assumes "allNodes r' = allNodes r" and "okNodes r' = okNodes r"
    and "serviceBalancer r' = serviceBalancer r" and "services r' = services r"
  shows "resolver_inv reg r' \<longleftrightarrow> resolver_inv reg r"
proof -
  have "fresh_at reg r' c \<longleftrightarrow> fresh_at reg r c" for c
    using assms by (intro fresh_at_cong) simp_all
  moreover have "ids_ok r' \<longleftrightarrow> ids_ok r"
    using assms(1) by (simp add: ids_ok_def)
  ultimately show ?thesis
    by (simp add: resolver_inv_def fresh_at_def)
qed

lemma resolver_inv_closeConn [simp]: "resolver_inv reg (closeConn e r) \<longleftrightarrow> resolver_inv reg r"
  by (rule resolver_inv_cong) simp_all

lemma ids_ok_store: "ids_ok r \<Longrightarrow> ids_ok (r\<lparr>allNodes := (allNodes r)(ID node \<mapsto> node)\<rparr>)"
  by (auto simp: ids_ok_def)

lemma ids_ok_delete: "ids_ok r \<Longrightarrow> ids_ok (r\<lparr>allNodes := (allNodes r)(i := None)\<rparr>)"
  by (auto simp: ids_ok_def)

text \<open>Writing or deleting a node leaves the codes neither version offers consistent.\<close>

lemma ok_set_store:
  assumes "\<And>old. allNodes r i = Some old \<Longrightarrow> c \<notin> codes_of old"
    and "\<And>n. new = Some n \<Longrightarrow> c \<notin> codes_of n"
  shows "ok_set (r\<lparr>allNodes := (allNodes r)(i := new)\<rparr>) c = ok_set r c"
proof -
  have "n \<in> ran ((allNodes r)(i := new)) \<longleftrightarrow> n \<in> ran (allNodes r)" if "c \<in> codes_of n" for n
  proof -
    have "allNodes r a = Some n \<Longrightarrow> a \<noteq> i" and "new \<noteq> Some n" for a
      using assms that by auto
    then show ?thesis by (auto simp: ran_def)
  qed
  then show ?thesis by (auto simp: ok_set_def)
qed

lemma fresh_at_store:
  assumes "\<And>old. allNodes r i = Some old \<Longrightarrow> c \<notin> codes_of old"
    and "\<And>n. new = Some n \<Longrightarrow> c \<notin> codes_of n" and "fresh_at reg r c"
  shows "fresh_at reg (r\<lparr>allNodes := (allNodes r)(i := new)\<rparr>) c"
  using assms(3) ok_set_store [OF assms(1,2)]
  by (simp add: fresh_at_def ok_at_def bal_at_def cong: option.case_cong)

lemma codes_of_image: "codes_of n = Code ` set (Services (GRPC n))"
  by (auto simp: codes_of_def)

lemma resolver_Update_inv [inv_intros]:
  assumes "registry_ok reg" and "range_ok ord" and "keeps_codes r node" and "resolver_inv reg r"
  shows "resolver_inv reg (resolver_Update reg ord node r)"
proof (cases "Services (GRPC node) = []")
  case True
  then show ?thesis using assms(4) by (simp add: resolver_Update_def)
next
  case False
  let ?r1 = "r\<lparr>allNodes := (allNodes r)(ID node \<mapsto> node)\<rparr>"
  have ids: "ids_ok ?r1" using assms(4) by (simp add: resolver_inv_def ids_ok_store)
  have "c \<in> Code ` set (Services (GRPC node)) \<or> fresh_at reg ?r1 c" if "0 < c" for c
    using assms(3,4) that fresh_at_store [of r "ID node" c "Some node" reg]
    by (auto simp: keeps_codes_def resolver_inv_def fresh_at_def codes_of_image [symmetric])
  then have "resolver_inv reg (fold (updateDesc reg ord) (Services (GRPC node)) ?r1)"
    using fold_updateDesc_fresh [OF assms(1,2) ids] ids
    by (simp add: resolver_inv_def fresh_at_def)
  then show ?thesis using False by (simp add: resolver_Update_def Let_def)
qed

lemma resolver_Remove_inv [inv_intros]:
  assumes "registry_ok reg" and "range_ok ord" and "keeps_codes r node" and "resolver_inv reg r"
  shows "resolver_inv reg (resolver_Remove reg ord node r)"
proof (cases "Services (GRPC node) = []")
  case True
  then show ?thesis using assms(4) by (simp add: resolver_Remove_def)
next
  case False
  let ?r1 = "r\<lparr>allNodes := (allNodes r)(ID node := None)\<rparr>"
  have ids: "ids_ok ?r1" using assms(4) by (simp add: resolver_inv_def ids_ok_delete)
  have "c \<in> Code ` set (Services (GRPC node)) \<or> fresh_at reg ?r1 c" if "0 < c" for c
    using assms(3,4) that fresh_at_store [of r "ID node" c None reg]
    by (auto simp: keeps_codes_def resolver_inv_def fresh_at_def codes_of_image [symmetric])
  then have "resolver_inv reg (fold (removeDesc reg ord) (Services (GRPC node)) ?r1)"
    using fold_removeDesc_fresh [OF assms(1,2) ids] ids
    by (simp add: resolver_inv_def fresh_at_def)
  then show ?thesis using False by (simp add: resolver_Remove_def Let_def)
qed

lemma getConn_frame [simp]:
  "allNodes (fst (getConn dial e r)) = allNodes r"
  "services (fst (getConn dial e r)) = services r"
  "okNodes (fst (getConn dial e r)) = okNodes r"
  "serviceBalancer (fst (getConn dial e r)) = serviceBalancer r"
  by (simp_all add: getConn_def split: option.splits sum.splits)

lemma GetConn_frame [simp]:
  "allNodes (fst (GetConn dial i r)) = allNodes r"
  "services (fst (GetConn dial i r)) = services r"
  "okNodes (fst (GetConn dial i r)) = okNodes r"
  "serviceBalancer (fst (GetConn dial i r)) = serviceBalancer r"
  by (simp_all add: GetConn_def split: option.splits)

lemma resolver_Close_frame [simp]:
  "allNodes (resolver_Close ks r) = allNodes r"
  "services (resolver_Close ks r) = services r"
  "okNodes (resolver_Close ks r) = okNodes r"
  "serviceBalancer (resolver_Close ks r) = serviceBalancer r"
proof -
  let ?f = "\<lambda>key conn s. (s\<lparr>closedConns := closedConns s @ [conn], conns := (conns s)(key := None)\<rparr>, True)"
  have "allNodes (map_range ?f ks m r) = allNodes r \<and> services (map_range ?f ks m r) = services r \<and>
    okNodes (map_range ?f ks m r) = okNodes r \<and>
    serviceBalancer (map_range ?f ks m r) = serviceBalancer r" for m
    by (induction ks arbitrary: r) (simp_all split: option.splits)
  then show "allNodes (resolver_Close ks r) = allNodes r"
    "services (resolver_Close ks r) = services r"
    "okNodes (resolver_Close ks r) = okNodes r"
    "serviceBalancer (resolver_Close ks r) = serviceBalancer r"
    by (simp_all add: resolver_Close_def)
qed

lemma newGRPCResolver_inv [inv_intros]: "resolver_inv reg newGRPCResolver"
  by (simp add: resolver_inv_def newGRPCResolver_def ids_ok_def ok_at_def bal_at_def ok_set_def)

lemma resolver_reach_inv:
  assumes "registry_ok reg" and "resolver_reach reg r"
  shows "resolver_inv reg r"
  using assms(2)
proof (induction rule: resolver_reach.induct)
  case reach_new
  show ?case by (rule newGRPCResolver_inv)
next
  case (reach_Update r ord node)
  then show ?case using assms(1) by (intro resolver_Update_inv)
next
  case (reach_Remove r ord node)
  then show ?case using assms(1) by (intro resolver_Remove_inv)
next
  case (reach_GetConn r dial i)
  then show ?case using resolver_inv_cong [of "fst (GetConn dial i r)" r] by simp
next
  case (reach_getConn r dial e)
  then show ?case using resolver_inv_cong [of "fst (getConn dial e r)" r] by simp
next
  case (reach_Close r ks)
  then show ?case using resolver_inv_cong [of "resolver_Close ks r" r] by simp
qed

section \<open>What the resolver promises\<close>

text \<open>
  The interface the gateway relies on: the allocated node is online, in state \<open>ok\<close> and
  offers the service; nothing is allocated only when there is no such node.
\<close>

locale node_directory =
  fixes avail :: "'s \<Rightarrow> int \<Rightarrow> ulid set"
    and pick :: "'s \<Rightarrow> int \<Rightarrow> (int \<Rightarrow> int) \<Rightarrow> ulid go"
    and good :: "'s \<Rightarrow> bool"
  assumes pick_sound: "\<lbrakk>good s; 0 < c; rand_ok rnd; pick s c rnd = Ok i\<rbrakk> \<Longrightarrow> i \<in> avail s c"
    and pick_empty: "\<lbrakk>good s; 0 < c; avail s c = {}\<rbrakk> \<Longrightarrow> pick s c rnd = Error ErrNoNodeAvailable"
    and pick_complete: "\<lbrakk>good s; 0 < c; i \<in> avail s c\<rbrakk> \<Longrightarrow> \<exists>rnd. rand_ok rnd \<and> pick s c rnd = Ok i"
    and pick_answers: "\<lbrakk>good s; 0 < c; rand_ok rnd; avail s c \<noteq> {}\<rbrakk> \<Longrightarrow> \<exists>i. pick s c rnd = Ok i"
begin

lemma pick_range:
  assumes "good s" and "0 < c"
  shows "{i. \<exists>rnd. rand_ok rnd \<and> pick s c rnd = Ok i} = avail s c"
  using assms pick_sound pick_complete by blast

lemma pick_error_iff:
  assumes "good s" and "0 < c" and "rand_ok rnd"
  shows "pick s c rnd = Error ErrNoNodeAvailable \<longleftrightarrow> avail s c = {}"
  using pick_answers [OF assms] pick_empty [OF assms(1,2), of rnd] by force

lemma pick_no_panic:
  assumes "good s" and "0 < c" and "rand_ok rnd"
  shows "pick s c rnd \<noteq> Panic p"
  using pick_answers [OF assms] pick_empty [OF assms(1,2), of rnd] by force

end

definition avail_ids :: "grpcResolver \<Rightarrow> int \<Rightarrow> ulid set" where
  "avail_ids r c = ID ` ok_set r c"

lemma rand_ok_const: "0 \<le> k \<Longrightarrow> k < m \<Longrightarrow> rand_ok (\<lambda>n. if k < n then k else 0)"
  by (auto simp: rand_ok_def)

lemma PickNode_Some:
  assumes "okNodes r c = Some ns" and "ns \<noteq> []" and "rand_ok rnd"
  shows "PickNode rnd r c =
    Ok (ID (ns ! (if length ns = 1 then 0 else nat (rnd (int (length ns))))))"
proof -
  have "0 \<le> rnd (int (length ns)) \<and> rnd (int (length ns)) < int (length ns)"
    using assms(2,3) by (simp add: rand_ok_def)
  then show ?thesis
    using assms by (auto simp: PickNode_def rand_Intn_def pick_index_nth hd_conv_nth)
qed

lemma PickNode_Ok_mem:
  assumes "okNodes r c = Some ns" and "ns \<noteq> []" and "rand_ok rnd"
  shows "\<exists>n \<in> set ns. PickNode rnd r c = Ok (ID n)"
proof -
  have "nat (rnd (int (length ns))) < length ns"
    using assms(2,3) unfolding rand_ok_def by (metis length_greater_0_conv nat_less_iff of_nat_0_less_iff)
  then have "(if length ns = 1 then 0 else nat (rnd (int (length ns)))) < length ns"
    using assms(2) by auto
  then show ?thesis
    unfolding PickNode_Some [OF assms] using nth_mem by auto
qed

lemma PickNode_reaches:
  assumes "okNodes r c = Some ns" and "n \<in> set ns"
  shows "\<exists>rnd. rand_ok rnd \<and> PickNode rnd r c = Ok (ID n)"
proof -
  obtain k where k: "k < length ns" "n = ns ! k" using assms(2) by (metis in_set_conv_nth)
  let ?rnd = "\<lambda>m. if int k < m then int k else 0"
  have "rand_ok ?rnd" by (rule rand_ok_const [of "int k" "int (Suc k)"]) simp_all
  moreover from this have "PickNode ?rnd r c = Ok (ID n)"
    using assms k by (subst PickNode_Some) (auto simp: less_Suc0)
  ultimately show ?thesis by blast
qed

interpretation resolver_dir: node_directory avail_ids "\<lambda>r c rnd. PickNode rnd r c"
  "resolver_inv registeredBalancer"
proof unfold_locales
  fix r rnd i and c :: int
  assume "resolver_inv registeredBalancer r" and "0 < c"
  then have ok: "ok_at r c" by (simp add: resolver_inv_def)
  show "avail_ids r c = {} \<Longrightarrow> PickNode rnd r c = Error ErrNoNodeAvailable"
    using ok by (auto simp: avail_ids_def ok_at_def PickNode_def split: option.splits)
  show "i \<in> avail_ids r c" if "rand_ok rnd" "PickNode rnd r c = Ok i"
  proof (cases "okNodes r c")
    case None
    then show ?thesis using that(2) by (simp add: PickNode_def)
  next
    case (Some ns)
    then have "ns \<noteq> []" "set ns = ok_set r c" using ok by (simp_all add: ok_at_def)
    then show ?thesis
      using PickNode_Ok_mem [OF Some _ that(1)] that(2) by (auto simp: avail_ids_def)
  qed
  show "\<exists>i. PickNode rnd r c = Ok i" if "rand_ok rnd" "avail_ids r c \<noteq> {}"
  proof (cases "okNodes r c")
    case None
    then show ?thesis using that ok by (simp add: avail_ids_def ok_at_def)
  next
    case (Some ns)
    then have "ns \<noteq> []" using ok by (simp add: ok_at_def)
    then show ?thesis using PickNode_Ok_mem [OF Some _ that(1)] by auto
  qed
  show "\<exists>rnd. rand_ok rnd \<and> PickNode rnd r c = Ok i" if "i \<in> avail_ids r c"
  proof (cases "okNodes r c")
    case None
    then show ?thesis using that ok by (simp add: avail_ids_def ok_at_def)
  next
    case (Some ns)
    then have "set ns = ok_set r c" using ok by (simp add: ok_at_def)
    then show ?thesis
      using that PickNode_reaches [OF Some] by (auto simp: avail_ids_def)
  qed
qed

lemma ok_set_node:
  assumes "ids_ok r" and "n \<in> ok_set r c"
  shows "allNodes r (ID n) = Some n \<and> State n = NodeOK \<and> c \<in> codes_of n"
  using assms by (auto simp: ok_set_def ids_ok_def ran_def)

lemma GetConn_online:
  assumes "allNodes r i = Some n" and "State n = NodeOK"
  shows "snd (GetConn dial i r) \<noteq> Error ErrNodeNotFoundOrDown"
  using assms
  by (auto simp: GetConn_def getConn_def state_defs ErrNodeNotFoundOrDown_def split: option.splits sum.splits)

text \<open>A balancer of the invariant picks only nodes of the service.\<close>

lemma AllocNode_member:
  assumes "registry_ok reg" and "resolver_inv reg r" and "0 < c" and "rand_ok rnd"
    and "services r c = Some d" and "Public d" and "AllocNode xxhash rnd r c sess = Ok i"
  shows "\<exists>n \<in> ok_set r c. ID n = i"
proof -
  have ok: "ok_at r c" and bal: "bal_at reg r c" using assms(2,3) by (simp_all add: resolver_inv_def)
  show ?thesis
  proof (cases "okNodes r c")
    case None
    then have "serviceBalancer r c = None" using bal assms(5,6) by (simp add: bal_at_def)
    then show ?thesis using assms(7) by (simp add: AllocNode_def)
  next
    case (Some ns)
    then obtain ns' where ns': "mset ns' = mset ns"
      "serviceBalancer r c = Some (fst (NewBalancer reg c ns'))"
      using bal assms(5,6) by (auto simp: bal_at_def)
    have "ns' \<noteq> []" "set ns' = ok_set r c"
      using ok Some ok_list_mset [OF ns'(1)] by (simp_all add: ok_at_def)
    then have "i \<in> ID ` set ns'"
      using balancer_factory.picks_member [OF NewBalancer_factory [OF assms(1)], of ns' rnd xxhash c sess i]
        assms(4,7) ns'(2) by (simp add: AllocNode_def)
    then show ?thesis using \<open>set ns' = ok_set r c\<close> by auto
  qed
qed

lemma AllocNode_none_iff:
  assumes "resolver_inv reg r" and "0 < c" and "services r c = Some d" and "Public d"
  shows "serviceBalancer r c = None \<longleftrightarrow> ok_set r c = {}"
proof -
  have "ok_at r c" and "bal_at reg r c" using assms(1,2) by (simp_all add: resolver_inv_def)
  then show ?thesis
    using assms(3,4) by (cases "okNodes r c") (auto simp: ok_at_def bal_at_def)
qed

section \<open>Properties\<close>

text \<open>A visiting order that lists a map's keys by increasing ULID.\<close>

definition ord_sorted :: range_order where
  "ord_sorted c m = sorted_list_of_set (dom m)"

lemma ord_sorted_ok: "range_ok ord_sorted"
  by (simp add: range_ok_def ord_sorted_def enumerates_def)

definition demo_resolver :: grpcResolver where
  "demo_resolver = resolver_Update registeredBalancer ord_sorted (demo_node 1 0 ''random'') newGRPCResolver"

lemma demo_resolver_reach: "resolver_reach registeredBalancer demo_resolver"
  unfolding demo_resolver_def
  by (intro reach_Update reach_new ord_sorted_ok) (simp add: keeps_codes_def newGRPCResolver_def)

lemma demo_resolver_eq:
  "allNodes demo_resolver = [ULID 1 0 \<mapsto> demo_node 1 0 ''random'']"
  "okNodes demo_resolver = [7 \<mapsto> [demo_node 1 0 ''random'']]"
  "serviceBalancer demo_resolver = [7 \<mapsto> noBalancer (demo_node 1 0 ''random'')]"
  "\<exists>d. services demo_resolver 7 = Some d \<and> Public d"
  by (simp_all add: demo_resolver_def newGRPCResolver_def resolver_Update_def demo_node_def Let_def
      updateDesc_def updateServiceNodes_def ord_sorted_def updateBalancer_def NewBalancer_def
      state_defs offers_def)

text \<open>
  C6. The resolver's tables agree with the online nodes after any sequence of updates,
  removals and connection requests in which nodes keep their services: for every service,
  \<open>okNodes\<close> lists exactly the online nodes in state \<open>ok\<close> that offer it, without
  repetition, and has no entry when there is none; and a public service has a balancer,
  built from exactly those nodes, precisely when the list is there.
\<close>

theorem resolver_tables_consistent:
  assumes "registry_ok reg" and "resolver_reach reg r" and "0 < c"
  shows "(case okNodes r c of
        None \<Rightarrow> ok_set r c = {}
      | Some ns \<Rightarrow> ns \<noteq> [] \<and> distinct (map ID ns) \<and> set ns = ok_set r c) \<and>
    (\<forall>d. services r c = Some d \<longrightarrow> Public d \<longrightarrow>
      (case okNodes r c of
         None \<Rightarrow> serviceBalancer r c = None
       | Some ns \<Rightarrow> \<exists>ns'. mset ns' = mset ns \<and>
           serviceBalancer r c = Some (fst (NewBalancer reg c ns'))))"
  using resolver_reach_inv [OF assms(1,2)] assms(3)
  by (simp add: resolver_inv_def ok_at_def bal_at_def)

theorem resolver_tables_consistent_witness:
  "set [demo_node 1 0 ''random''] = ok_set demo_resolver 7"
  using resolver_tables_consistent [OF registeredBalancer_ok demo_resolver_reach, of 7]
  by (simp add: demo_resolver_eq)

text \<open>
  \<open>AllocNode\<close> is sound for a public service: an allocated node is online, in state
  \<open>ok\<close>, offers the service, and \<open>GetConn\<close> does not refuse it as missing or down;
  and \<open>AllocNode\<close> has no balancer to ask exactly when no such node exists.
\<close>

theorem AllocNode_sound:
  assumes "registry_ok reg" and "resolver_reach reg r" and "0 < c" and "rand_ok rnd"
    and "services r c = Some d" and "Public d"
  shows "(AllocNode xxhash rnd r c sess = Ok i \<longrightarrow>
      (\<exists>n. allNodes r i = Some n \<and> State n = NodeOK \<and> c \<in> codes_of n \<and>
        snd (GetConn dial i r) \<noteq> Error ErrNodeNotFoundOrDown)) \<and>
    (ok_set r c = {} \<longrightarrow> AllocNode xxhash rnd r c sess = Error ErrNoNodeAvailable)"
proof -
  have inv: "resolver_inv reg r" using assms(1,2) by (rule resolver_reach_inv)
  then have ids: "ids_ok r" by (simp add: resolver_inv_def)
  have "\<exists>n. allNodes r i = Some n \<and> State n = NodeOK \<and> c \<in> codes_of n"
    if "AllocNode xxhash rnd r c sess = Ok i"
    using AllocNode_member [OF assms(1) inv assms(3-6) that] ok_set_node [OF ids] by blast
  then show ?thesis
    using GetConn_online AllocNode_none_iff [OF inv assms(3,5,6)] by (auto simp: AllocNode_def)
qed

theorem AllocNode_sound_witness:
  "\<exists>n. allNodes demo_resolver (ULID 1 0) = Some n \<and> State n = NodeOK \<and> 7 \<in> codes_of n \<and>
     snd (GetConn (\<lambda>_. Inr 5) (ULID 1 0) demo_resolver) \<noteq> Error ErrNodeNotFoundOrDown"
proof -
  obtain d where "services demo_resolver 7 = Some d" "Public d"
    using demo_resolver_eq(4) by blast
  then show ?thesis
    using AllocNode_sound [OF registeredBalancer_ok demo_resolver_reach, of 7 "\<lambda>_. 0" d "\<lambda>_. 0"
        "\<lparr>view_ID = [], view_RemoteAddr = []\<rparr>" "ULID 1 0" "\<lambda>_. Inr 5"]
    by (simp add: rand_ok_def AllocNode_def demo_resolver_eq)
qed

text \<open>
  \<open>PickNode\<close> is exact: over all the values the random source can draw, the nodes it
  returns are exactly the online nodes in state \<open>ok\<close> that offer the service; it fails
  with \<open>ErrNoNodeAvailable\<close> exactly when there is none, and never panics.
\<close>

theorem PickNode_exact:
  assumes "resolver_reach registeredBalancer r" and "0 < c" and "rand_ok rnd"
  shows "{i. \<exists>rnd. rand_ok rnd \<and> PickNode rnd r c = Ok i} =
      {i. \<exists>n. allNodes r i = Some n \<and> State n = NodeOK \<and> c \<in> codes_of n} \<and>
    (PickNode rnd r c = Error ErrNoNodeAvailable \<longleftrightarrow> ok_set r c = {}) \<and>
    (\<forall>p. PickNode rnd r c \<noteq> Panic p)"
proof -
  have inv: "resolver_inv registeredBalancer r"
    by (rule resolver_reach_inv [OF registeredBalancer_ok assms(1)])
  have "avail_ids r c = {i. \<exists>n. allNodes r i = Some n \<and> State n = NodeOK \<and> c \<in> codes_of n}"
    using inv ok_set_node [of r _ c]
    by (auto simp: avail_ids_def resolver_inv_def ok_set_def ids_ok_def ran_def image_iff)
  moreover have "avail_ids r c = {} \<longleftrightarrow> ok_set r c = {}" by (simp add: avail_ids_def)
  ultimately show ?thesis
    using resolver_dir.pick_range [OF inv assms(2)] resolver_dir.pick_error_iff [OF inv assms(2,3)]
      resolver_dir.pick_no_panic [OF inv assms(2,3)] by simp
qed

theorem PickNode_exact_witness:
  "{i. \<exists>rnd. rand_ok rnd \<and> PickNode rnd demo_resolver 7 = Ok i} = {ULID 1 0}"
proof -
  have "{i. \<exists>n. allNodes demo_resolver i = Some n \<and> State n = NodeOK \<and> 7 \<in> codes_of n} = {ULID 1 0}"
    by (auto simp: demo_resolver_eq demo_node_def codes_of_def split: if_splits)
  then show ?thesis
    using PickNode_exact [OF demo_resolver_reach, of 7 "\<lambda>_. 0"] by (simp add: rand_ok_def)
qed

lemma cut_off_nodes:
  assumes "ids_ok r" and "allNodes r' = (allNodes r)(ID node := None) \<or>
      State node = NodeDown \<and> allNodes r' = (allNodes r)(ID node \<mapsto> node)"
  shows "ID node \<notin> ID ` ok_set r' c"
    and "snd (GetConn dial (ID node) r') = Error ErrNodeNotFoundOrDown"
proof -
  have "State n = NodeDown" if "allNodes r' i = Some n" "ID n = ID node" for i n
    using that assms by (auto simp: ids_ok_def split: if_splits)
  then show "ID node \<notin> ID ` ok_set r' c"
    by (force simp: ok_set_def ran_def state_defs)
  show "snd (GetConn dial (ID node) r') = Error ErrNodeNotFoundOrDown"
    using assms(2) by (auto simp: GetConn_def)
qed

lemma closeConn_closed:
  "conns r e = Some conn \<Longrightarrow> conn \<in> set (closedConns (closeConn e r))"
  by (simp add: closeConn_def)

lemma cut_off_form:
  assumes "Services (GRPC node) \<noteq> []"
    and "r' = resolver_Remove reg ord node r \<or>
      State node = NodeDown \<and> r' = resolver_Update reg ord node r"
  obtains r2 where "r' = closeConn (Endpoint (GRPC node)) r2" and "conns r2 = conns r"
    and "allNodes r2 = (allNodes r)(ID node := None) \<or>
      State node = NodeDown \<and> allNodes r2 = (allNodes r)(ID node \<mapsto> node)"
  using assms(2)
proof
  assume "r' = resolver_Remove reg ord node r"
  then show thesis
    using assms(1) that [of "fold (removeDesc reg ord) (Services (GRPC node))
        (r\<lparr>allNodes := (allNodes r)(ID node := None)\<rparr>)"]
    by (simp add: resolver_Remove_def Let_def)
next
  assume "State node = NodeDown \<and> r' = resolver_Update reg ord node r"
  then show thesis
    using assms(1) that [of "fold (updateDesc reg ord) (Services (GRPC node))
        (r\<lparr>allNodes := (allNodes r)(ID node \<mapsto> node)\<rparr>)"]
    by (simp add: resolver_Update_def Let_def)
qed

text \<open>
  A node that goes down or is removed is cut off at once: it is no longer an available
  node of any service, \<open>GetConn\<close> refuses it, and the cached connection to its endpoint
  is dropped and closed.
\<close>

theorem down_node_unreachable:
  assumes "ids_ok r" and "Services (GRPC node) \<noteq> []"
    and "r' = resolver_Remove reg ord node r \<or>
      State node = NodeDown \<and> r' = resolver_Update reg ord node r"
  shows "(\<forall>c. ID node \<notin> ID ` ok_set r' c) \<and>
    snd (GetConn dial (ID node) r') = Error ErrNodeNotFoundOrDown \<and>
    conns r' (Endpoint (GRPC node)) = None \<and>
    (\<forall>conn. conns r (Endpoint (GRPC node)) = Some conn \<longrightarrow> conn \<in> set (closedConns r'))"
proof -
  obtain r2 where r2: "r' = closeConn (Endpoint (GRPC node)) r2" "conns r2 = conns r"
    "allNodes r2 = (allNodes r)(ID node := None) \<or>
      State node = NodeDown \<and> allNodes r2 = (allNodes r)(ID node \<mapsto> node)"
    using cut_off_form [OF assms(2,3)] .
  have "allNodes r' = (allNodes r)(ID node := None) \<or>
      State node = NodeDown \<and> allNodes r' = (allNodes r)(ID node \<mapsto> node)"
    using r2(3) unfolding r2(1) closeConn_frame .
  from cut_off_nodes [OF assms(1) this] show ?thesis
    using closeConn_closed [of r2] unfolding r2(1) by (simp add: r2(2))
qed

theorem down_node_unreachable_witness:
  "snd (GetConn (\<lambda>_. Inr 5) (ULID 1 0)
     (resolver_Remove registeredBalancer ord_sorted (demo_node 1 0 ''random'') demo_resolver)) =
   Error ErrNodeNotFoundOrDown"
proof -
  have ids: "ids_ok demo_resolver"
    using resolver_reach_inv [OF registeredBalancer_ok demo_resolver_reach]
    by (simp add: resolver_inv_def)
  have "Services (GRPC (demo_node 1 0 ''random'')) \<noteq> []" by (simp add: demo_node_def)
  from down_node_unreachable [OF ids this disjI1 [OF refl]] show ?thesis
    unfolding demo_node_simps by blast
qed

text \<open>
  Connections are cached per endpoint: once \<open>GetConn\<close> has returned a connection for a
  node, a later call returns the same one and dials nothing, whatever dialling would now
  give.
\<close>

theorem GetConn_cached:
  assumes "snd (GetConn dial i r) = Ok conn"
  shows "GetConn dial' i (fst (GetConn dial i r)) = (fst (GetConn dial i r), Ok conn)"
proof -
  obtain n where n: "allNodes r i = Some n" "State n \<noteq> NodeDown"
    "GetConn dial i r = getConn dial (Endpoint (GRPC n)) r"
    using assms by (auto simp: GetConn_def split: option.splits if_splits)
  then have "snd (getConn dial (Endpoint (GRPC n)) r) = Ok conn" using assms by simp
  then have "conns (fst (getConn dial (Endpoint (GRPC n)) r)) (Endpoint (GRPC n)) = Some conn"
    by (simp add: getConn_def split: option.splits sum.splits)
  then have "getConn dial' (Endpoint (GRPC n)) (fst (getConn dial (Endpoint (GRPC n)) r)) =
      (fst (getConn dial (Endpoint (GRPC n)) r), Ok conn)"
    by (simp add: getConn_def [of dial'])
  then show ?thesis using n by (simp add: GetConn_def [of dial'])
qed

theorem GetConn_cached_witness:
  "snd (GetConn (\<lambda>_. Inr 9) (ULID 1 0) (fst (GetConn (\<lambda>_. Inr 5) (ULID 1 0) demo_resolver))) = Ok 5"
proof -
  have "conns demo_resolver = Map.empty"
    by (simp add: demo_resolver_def resolver_Update_def newGRPCResolver_def Let_def state_defs demo_node_def)
  then have "snd (GetConn (\<lambda>_. Inr 5) (ULID 1 0) demo_resolver) = Ok 5"
    by (simp add: GetConn_def getConn_def demo_resolver_eq state_defs)
  from GetConn_cached [OF this, of "\<lambda>_. Inr 9"] show ?thesis by simp
qed

text \<open>Node 1 after a restart with another service.\<close>

definition moved_node :: NodeEntry where
  "moved_node = (demo_node 1 0 ''random'')\<lparr>GRPC := \<lparr>Endpoint = ''10.0.0.1:9000'',
     Services = [\<lparr>SvcName = ''room.Room'', Code = 8, Path = ''/room.Room'', Public = True,
       Balancer = ''random'', Weight = 0, Stateful = False, Allocation = []\<rparr>]\<rparr>\<rparr>"

text \<open>
  A node that re-registers with fewer services keeps being allocated for the ones it
  dropped: \<open>Update\<close> refreshes only the services of the new entry. Here node 1 first
  offers service 7 and then only service 8, and both \<open>PickNode\<close> and \<open>AllocNode\<close> still
  return it for service 7 although no online node offers that service.
\<close>

theorem dropped_service_stale:
  "ok_set (resolver_Update registeredBalancer ord_sorted moved_node demo_resolver) 7 = {} \<and>
   PickNode rnd (resolver_Update registeredBalancer ord_sorted moved_node demo_resolver) 7 = Ok (ULID 1 0) \<and>
   AllocNode xxhash rnd (resolver_Update registeredBalancer ord_sorted moved_node demo_resolver) 7 sess =
     Ok (ULID 1 0)"
proof -
  have eqs: "okNodes (resolver_Update registeredBalancer ord_sorted moved_node demo_resolver) 7 =
      Some [demo_node 1 0 ''random'']"
    "serviceBalancer (resolver_Update registeredBalancer ord_sorted moved_node demo_resolver) 7 =
      Some (noBalancer (demo_node 1 0 ''random''))"
    "allNodes (resolver_Update registeredBalancer ord_sorted moved_node demo_resolver) =
      [ULID 1 0 \<mapsto> moved_node]"
    by (simp_all add: resolver_Update_def moved_node_def demo_resolver_eq state_defs Let_def
        updateDesc_def demo_node_def)
  then show ?thesis
    by (simp add: PickNode_def AllocNode_def ok_set_def ran_def codes_of_def moved_node_def)
qed

end
