(* ===== verification/Cluster_Registry.thy ===== *)
theory Cluster_Registry
  imports Cluster_Resolver
begin

text \<open>
  The service registry (\<open>src/cluster/registry.go\<close>, \<open>src/cluster/event.go\<close>): registering
  the own entry under a lease, watching the entries of the other nodes in etcd, and the
  queries of the rest of the framework.

  The etcd client is outside the program: what its calls return is an argument of each
  operation (\<open>grant\<close>, \<open>keepAlive\<close>, \<open>put\<close>, the response of \<open>Get\<close>, the watch
  responses), and the requests that are sent are part of the results. So are
  \<open>json.Marshal\<close> and \<open>json.Unmarshal\<close> of an entry (\<open>marshal\<close>, \<open>unmarshal\<close>) and
  \<open>ULID.String\<close> (\<open>ustr\<close>). The closure variables \<open>versions\<close> and \<open>maxRev\<close> of
  \<open>runWatcher\<close> and the events sent to the observable are part of the watcher's state;
  the closure's mutex makes \<open>apply\<close> and \<open>resync\<close> atomic.
\<close>

section \<open>Keys\<close>

text \<open>\<open>path.Clean\<close> and \<open>path.Join\<close> of two elements; \<open>acc\<close> is the cleaned path so far, reversed.\<close>

fun split_slash :: "string \<Rightarrow> string \<Rightarrow> string list" where
  "split_slash cur [] = [rev cur]"
| "split_slash cur (c # cs) =
     (if c = CHR ''/'' then rev cur # split_slash [] cs else split_slash (c # cur) cs)"

fun clean_parts :: "bool \<Rightarrow> string list \<Rightarrow> string list \<Rightarrow> string list" where
  "clean_parts rooted acc [] = rev acc"
| "clean_parts rooted acc (p # ps) =
     (if p = [] \<or> p = ''.'' then clean_parts rooted acc ps
      else if p = ''..'' then
        (if acc \<noteq> [] \<and> hd acc \<noteq> ''..'' then clean_parts rooted (tl acc) ps
         else if rooted then clean_parts rooted acc ps
         else clean_parts rooted (p # acc) ps)
      else clean_parts rooted (p # acc) ps)"

fun join_slash :: "string list \<Rightarrow> string" where
  "join_slash [] = []"
| "join_slash [p] = p"
| "join_slash (p # q # ps) = p @ CHR ''/'' # join_slash (q # ps)"

definition path_Clean :: "string \<Rightarrow> string" where
  "path_Clean s =
     (if s = [] then ''.''
      else let rooted = (hd s = CHR ''/'');
               out = join_slash (clean_parts rooted [] (split_slash [] s))
           in if rooted then CHR ''/'' # out else if out = [] then ''.'' else out)"

definition path_Join :: "string \<Rightarrow> string \<Rightarrow> string" where
  "path_Join a b =
     (if a = [] then (if b = [] then [] else path_Clean b)
      else if b = [] then path_Clean a else path_Clean (a @ CHR ''/'' # b))"

section \<open>State\<close>

datatype node_event = eventUpdateNode NodeEntry | eventDeleteNode NodeEntry

record Registry =
  keyPrefix :: string
  reg_resolver :: grpcResolver
  leaseID :: int
  leaseTTL :: int
  watchRetryMax :: int
  watchRetryInterval :: int
  reg_allNodes :: "ulid \<rightharpoonup> NodeEntry"

definition NoLease :: int where "NoLease = 0"

record KeyValue =
  kv_Key :: string
  kv_Value :: string
  kv_ModRevision :: int

datatype event_type = PUT | DELETE | event_type_other int

record etcd_Event =
  ev_Type :: event_type
  ev_Kv :: KeyValue
  ev_PrevKv :: "KeyValue option"

record watcher =
  w_registry :: Registry
  versions :: "string \<rightharpoonup> int"
  maxRev :: int
  w_events :: "node_event list"

section \<open>Options and construction\<close>

type_synonym registry_option = "Registry \<Rightarrow> Registry"

definition WithKeyPrefix :: "string \<Rightarrow> registry_option" where
  "WithKeyPrefix prefix r = r\<lparr>keyPrefix := prefix\<rparr>"

definition WithGRPCDialOptions :: registry_option where
  "WithGRPCDialOptions r = r\<lparr>reg_resolver := newGRPCResolver\<rparr>"

definition WithLeaseTTL :: "int \<Rightarrow> registry_option" where
  "WithLeaseTTL seconds r = r\<lparr>leaseTTL := seconds\<rparr>"

definition WithWatchRetry :: "int \<Rightarrow> int \<Rightarrow> registry_option" where
  "WithWatchRetry maxRetries interval r =
     (let r1 = (if maxRetries > 0 then r\<lparr>watchRetryMax := maxRetries\<rparr> else r)
      in if interval > 0 then r1\<lparr>watchRetryInterval := interval\<rparr> else r1)"

definition default_Registry :: Registry where
  "default_Registry = \<lparr>keyPrefix = ''/nodehub/node'', reg_resolver = newGRPCResolver,
     leaseID = NoLease, leaseTTL = 10, watchRetryMax = 10,
     watchRetryInterval = 30000000000, reg_allNodes = Map.empty\<rparr>"

section \<open>Watching\<close>

definition removeNode ::
  "(string \<rightharpoonup> BalancerFactory) \<Rightarrow> range_order \<Rightarrow> NodeEntry \<Rightarrow> watcher \<Rightarrow> watcher" where
  "removeNode reg ord entry w =
     (let r = w_registry w in
      w\<lparr>w_registry := r\<lparr>reg_resolver := resolver_Remove reg ord entry (reg_resolver r),
                         reg_allNodes := (reg_allNodes r)(ID entry := None)\<rparr>,
        w_events := w_events w @ [eventDeleteNode entry]\<rparr>)"

definition putNode ::
  "(string \<rightharpoonup> BalancerFactory) \<Rightarrow> range_order \<Rightarrow> NodeEntry \<Rightarrow> watcher \<Rightarrow> watcher" where
  "putNode reg ord entry w =
     (let r = w_registry w in
      w\<lparr>w_registry := r\<lparr>reg_resolver := resolver_Update reg ord entry (reg_resolver r),
                         reg_allNodes := (reg_allNodes r)(ID entry \<mapsto> entry)\<rparr>,
        w_events := w_events w @ [eventUpdateNode entry]\<rparr>)"

definition apply_event ::
  "(string \<Rightarrow> go_error + NodeEntry) \<Rightarrow> (string \<rightharpoonup> BalancerFactory) \<Rightarrow> range_order \<Rightarrow>
   etcd_Event \<Rightarrow> watcher \<Rightarrow> watcher go" where
  "apply_event unmarshal reg ord ev w =
     (let modRev = kv_ModRevision (ev_Kv ev); key = kv_Key (ev_Kv ev);
          w1 = (if modRev > maxRev w then w\<lparr>maxRev := modRev\<rparr> else w)
      in if (case versions w1 key of Some ver \<Rightarrow> ver \<ge> modRev | None \<Rightarrow> False) then Ok w1
         else let w2 = w1\<lparr>versions := (versions w1)(key \<mapsto> modRev)\<rparr>;
                  kv = (if ev_Type ev = DELETE then ev_PrevKv ev else Some (ev_Kv ev))
              in case kv of
                   None \<Rightarrow> Panic ''nil pointer dereference''
                 | Some kv \<Rightarrow>
                     (case unmarshal (kv_Value kv) of
                        Inl err \<Rightarrow> Ok w2
                      | Inr entry \<Rightarrow>
                          (case ev_Type ev of
                             PUT \<Rightarrow> Ok (putNode reg ord entry w2)
                           | DELETE \<Rightarrow> Ok (removeNode reg ord entry w2)
                           | event_type_other _ \<Rightarrow> Ok w2)))"

definition put_event :: "KeyValue \<Rightarrow> etcd_Event" where
  "put_event kv = \<lparr>ev_Type = PUT, ev_Kv = kv, ev_PrevKv = None\<rparr>"

text \<open>
  The second loop of \<open>resync\<close>: nodes whose key is not in the snapshot are removed, and
  the snapshot's revision is remembered for their key.
\<close>

definition staleEntry ::
  "(ulid \<Rightarrow> string) \<Rightarrow> (string \<rightharpoonup> BalancerFactory) \<Rightarrow> range_order \<Rightarrow> string set \<Rightarrow> int \<Rightarrow>
   NodeEntry \<Rightarrow> watcher \<Rightarrow> watcher" where
  "staleEntry ustr reg ord existing revision entry w =
     (let key = path_Join (keyPrefix (w_registry w)) (ustr (ID entry)) in
      if key \<notin> existing then removeNode reg ord entry (w\<lparr>versions := (versions w)(key \<mapsto> revision)\<rparr>)
      else w)"

definition removeStale ::
  "(ulid \<Rightarrow> string) \<Rightarrow> (string \<rightharpoonup> BalancerFactory) \<Rightarrow> range_order \<Rightarrow> string set \<Rightarrow> int \<Rightarrow>
   ulid list \<Rightarrow> watcher \<Rightarrow> watcher" where
  "removeStale ustr reg ord existing revision visit w =
     map_range (\<lambda>_ entry s. (staleEntry ustr reg ord existing revision entry s, True))
       visit (reg_allNodes (w_registry w)) w"

text \<open>What \<open>client.Get\<close> with the prefix returns: the header's revision and the pairs.\<close>

type_synonym get_response = "go_error + int \<times> KeyValue list"

definition resync ::
  "(string \<Rightarrow> go_error + NodeEntry) \<Rightarrow> (ulid \<Rightarrow> string) \<Rightarrow> (string \<rightharpoonup> BalancerFactory) \<Rightarrow> range_order \<Rightarrow>
   ((ulid \<rightharpoonup> NodeEntry) \<Rightarrow> ulid list) \<Rightarrow> get_response \<Rightarrow> watcher \<Rightarrow> (watcher \<times> go_error option) go" where
  "resync unmarshal ustr reg ord visit resp w =
     (case resp of
        Inl err \<Rightarrow> Ok (w, Some (ErrWrap ''get exist entries'' err))
      | Inr (revision, kvs) \<Rightarrow>
          let w1 = (if revision < maxRev w then w\<lparr>versions := Map.empty, maxRev := revision\<rparr> else w)
          in go_bind (go_fold (\<lambda>kv. apply_event unmarshal reg ord (put_event kv)) kvs w1)
               (\<lambda>w2. Ok (removeStale ustr reg ord (kv_Key ` set kvs) revision
                            (visit (reg_allNodes (w_registry w2))) w2, None)))"

definition NewRegistry ::
  "(string \<Rightarrow> go_error + NodeEntry) \<Rightarrow> (ulid \<Rightarrow> string) \<Rightarrow> (string \<rightharpoonup> BalancerFactory) \<Rightarrow> range_order \<Rightarrow>
   ((ulid \<rightharpoonup> NodeEntry) \<Rightarrow> ulid list) \<Rightarrow> get_response \<Rightarrow> registry_option list \<Rightarrow> watcher go" where
  "NewRegistry unmarshal ustr reg ord visit resp opts =
     (let r = fold (\<lambda>fn r. fn r) opts default_Registry;
          w = \<lparr>w_registry = r, versions = Map.empty, maxRev = 0, w_events = []\<rparr>
      in go_bind (resync unmarshal ustr reg ord visit resp w)
           (\<lambda>(w', err). case err of None \<Rightarrow> Ok w' | Some e \<Rightarrow> Error (ErrWrap ''run watcher'' e)))"

subsection \<open>The watch loop\<close>

text \<open>
  What the select of \<open>consume\<close> receives: the client's context is done, the channel is
  closed, or a response (its error, the \<open>Created\<close> flag with the response the resync's
  \<open>Get\<close> would have, and the events).
\<close>

datatype watch_input =
    CtxDone
  | ChanClosed
  | WatchErr go_error
  | WatchResp "get_response option" "etcd_Event list"

datatype watch_outcome = Watching int | Returned | WatchPanic go_error | ApplyPanic string

definition handle_event ::
  "(string \<Rightarrow> go_error + NodeEntry) \<Rightarrow> (string \<rightharpoonup> BalancerFactory) \<Rightarrow> range_order \<Rightarrow>
   etcd_Event \<Rightarrow> watcher \<Rightarrow> watcher go" where
  "handle_event unmarshal reg ord ev w =
     (case ev_Type ev of event_type_other _ \<Rightarrow> Ok w | _ \<Rightarrow> apply_event unmarshal reg ord ev w)"

definition handle_resp ::
  "(string \<Rightarrow> go_error + NodeEntry) \<Rightarrow> (ulid \<Rightarrow> string) \<Rightarrow> (string \<rightharpoonup> BalancerFactory) \<Rightarrow> range_order \<Rightarrow>
   ((ulid \<rightharpoonup> NodeEntry) \<Rightarrow> ulid list) \<Rightarrow> get_response option \<Rightarrow> etcd_Event list \<Rightarrow> watcher \<Rightarrow> watcher go" where
  "handle_resp unmarshal ustr reg ord visit created evs w =
     go_bind (case created of
                None \<Rightarrow> Ok w
              | Some resp \<Rightarrow> go_bind (resync unmarshal ustr reg ord visit resp w) (\<lambda>(w', _). Ok w'))
       (go_fold (handle_event unmarshal reg ord) evs)"

text \<open>
  \<open>consume\<close> and the loop around it, over the inputs in the order they arrive. A failed
  watch is retried after the interval; \<open>retries\<close> is reset by every response.
\<close>

definition watch_error :: "watch_input \<Rightarrow> go_error option" where
  "watch_error i =
     (case i of
        CtxDone \<Rightarrow> Some CtxCanceled
      | ChanClosed \<Rightarrow> Some (ErrNew ''watch channel closed'')
      | WatchErr err \<Rightarrow> Some (ErrWrap ''watch response'' err)
      | WatchResp _ _ \<Rightarrow> None)"

definition watch_failed :: "int \<Rightarrow> int \<Rightarrow> go_error \<Rightarrow> watch_outcome" where
  "watch_failed retryMax retries err =
     (if errors_Is err CtxCanceled then Returned
      else if retries \<ge> retryMax
      then WatchPanic (ErrWrap (''etcd watch failed after '' @ itoa retries @ '' retries'') err)
      else Watching (retries + 1))"

fun watch_loop ::
  "(etcd_Event list \<Rightarrow> get_response option \<Rightarrow> watcher \<Rightarrow> watcher go) \<Rightarrow> int \<Rightarrow> watch_input list \<Rightarrow>
   watcher \<Rightarrow> watcher \<times> watch_outcome" where
  "watch_loop handle retries [] w = (w, Watching retries)"
| "watch_loop handle retries (i # is) w =
     (case watch_error i of
        Some err \<Rightarrow>
          (case watch_failed (watchRetryMax (w_registry w)) retries err of
             Watching retries' \<Rightarrow> watch_loop handle retries' is w
           | out \<Rightarrow> (w, out))
      | None \<Rightarrow>
          (case i of
             WatchResp created evs \<Rightarrow>
               (case handle evs created w of
                  Ok w' \<Rightarrow> watch_loop handle 0 is w'
                | Error e \<Rightarrow> (w, WatchPanic e)
                | Panic p \<Rightarrow> (w, ApplyPanic p))
           | _ \<Rightarrow> (w, Watching retries)))"

text \<open>
  The goroutine of the periodic synchronisation: every minute, until the client's context is
  done; an error of \<open>resync\<close> is only logged.
\<close>

datatype resync_input = ResyncDone | ResyncTick get_response

fun resync_loop :: "(get_response \<Rightarrow> watcher \<Rightarrow> (watcher \<times> go_error option) go) \<Rightarrow> resync_input list \<Rightarrow> watcher \<Rightarrow> watcher go" where
  "resync_loop rs [] w = Ok w"
| "resync_loop rs (ResyncDone # is) w = Ok w"
| "resync_loop rs (ResyncTick resp # is) w = go_bind (rs resp w) (\<lambda>(w', err). resync_loop rs is w')"

section \<open>Registering\<close>

datatype etcd_request =
    ReqGrant int
  | ReqKeepAlive int
  | ReqPut string string int
  | ReqRevoke int
  | ReqClientClose

definition initLease ::
  "(int \<Rightarrow> go_error + int) \<Rightarrow> (int \<Rightarrow> go_error option) \<Rightarrow> Registry \<Rightarrow>
   Registry \<times> etcd_request list \<times> go_error option" where
  "initLease grant keepAlive r =
     (if leaseID r \<noteq> NoLease then (r, [], None)
      else case grant (leaseTTL r) of
        Inl err \<Rightarrow> (r, [ReqGrant (leaseTTL r)], Some (ErrWrap ''grant lease'' err))
      | Inr lease \<Rightarrow>
          (case keepAlive lease of
             Some err \<Rightarrow> (r, [ReqGrant (leaseTTL r), ReqKeepAlive lease],
                           Some (ErrWrap ''keep lease alive'' err))
           | None \<Rightarrow> (r\<lparr>leaseID := lease\<rparr>, [ReqGrant (leaseTTL r), ReqKeepAlive lease], None)))"

text \<open>
  The heartbeat goroutine of the lease: what its select receives is a keep-alive response
  or the closed channel, a tick with the lease's remaining time, or the done context.
\<close>

datatype keeper_input = KeepAliveResp bool | TickTTL "go_error + int" | KeeperDone

datatype keeper_outcome = KeeperRunning | KeeperReturned | KeeperPanic string

fun lease_keeper :: "keeper_input list \<Rightarrow> keeper_outcome" where
  "lease_keeper [] = KeeperRunning"
| "lease_keeper (KeepAliveResp alive # is) =
     (if \<not> alive then KeeperPanic ''etcd lease keeper closed'' else lease_keeper is)"
| "lease_keeper (TickTTL resp # is) =
     (case resp of
        Inl err \<Rightarrow> lease_keeper is
      | Inr ttl \<Rightarrow> if ttl < 0 then KeeperPanic ''etcd lease expired'' else lease_keeper is)"
| "lease_keeper (KeeperDone # is) = KeeperReturned"

definition registry_Put ::
  "(string \<Rightarrow> go_error + string) \<Rightarrow> (NodeEntry \<Rightarrow> go_error + string) \<Rightarrow> (ulid \<Rightarrow> string) \<Rightarrow>
   (int \<Rightarrow> go_error + int) \<Rightarrow> (int \<Rightarrow> go_error option) \<Rightarrow> (string \<Rightarrow> string \<Rightarrow> int \<Rightarrow> go_error option) \<Rightarrow>
   NodeEntry \<Rightarrow> Registry \<Rightarrow> Registry \<times> etcd_request list \<times> go_error option" where
  "registry_Put url_Hostname marshal ustr grant keepAlive put entry r =
     (case entry_Validate url_Hostname entry of
        Some err \<Rightarrow> (r, [], Some (ErrWrap ''validate entry'' err))
      | None \<Rightarrow>
          (case marshal entry of
             Inl err \<Rightarrow> (r, [], Some (ErrWrap ''marshal entry'' err))
           | Inr value \<Rightarrow>
               (case initLease grant keepAlive r of
                  (r', reqs, Some err) \<Rightarrow> (r', reqs, Some (ErrWrap ''run keeper'' err))
                | (r', reqs, None) \<Rightarrow>
                    let key = path_Join (keyPrefix r') (ustr (ID entry))
                    in (r', reqs @ [ReqPut key value (leaseID r')], put key value (leaseID r')))))"

section \<open>Queries\<close>

definition GetGRPCDesc :: "Registry \<Rightarrow> int \<Rightarrow> GRPCServiceDesc option" where
  "GetGRPCDesc r serviceCode = GetDesc (reg_resolver r) serviceCode"

definition AllocGRPCNode ::
  "(string \<Rightarrow> 64 word) \<Rightarrow> (int \<Rightarrow> int) \<Rightarrow> Registry \<Rightarrow> int \<Rightarrow> Session_view \<Rightarrow> ulid go" where
  "AllocGRPCNode xxhash rnd r serviceCode sess = AllocNode xxhash rnd (reg_resolver r) serviceCode sess"

definition PickGRPCNode :: "(int \<Rightarrow> int) \<Rightarrow> Registry \<Rightarrow> int \<Rightarrow> ulid go" where
  "PickGRPCNode rnd r serviceCode = PickNode rnd (reg_resolver r) serviceCode"

definition GetGRPCConn :: "(string \<Rightarrow> go_error + nat) \<Rightarrow> ulid \<Rightarrow> Registry \<Rightarrow> Registry \<times> nat go" where
  "GetGRPCConn dial nodeID r =
     (case GetConn dial nodeID (reg_resolver r) of (res, c) \<Rightarrow> (r\<lparr>reg_resolver := res\<rparr>, c))"

definition GetGatewayClient :: "(string \<Rightarrow> go_error + nat) \<Rightarrow> ulid \<Rightarrow> Registry \<Rightarrow> Registry \<times> nat go" where
  "GetGatewayClient dial nodeID r =
     (case reg_allNodes r nodeID of
        None \<Rightarrow> (r, Error ErrNodeNotFoundOrDown)
      | Some entry \<Rightarrow>
          (case getConn dial (Endpoint (GRPC entry)) (reg_resolver r) of
             (res, c) \<Rightarrow> (r\<lparr>reg_resolver := res\<rparr>, c)))"

definition GetNodeClient :: "(string \<Rightarrow> go_error + nat) \<Rightarrow> ulid \<Rightarrow> Registry \<Rightarrow> Registry \<times> nat go" where
  "GetNodeClient dial nodeID r =
     (case reg_allNodes r nodeID of
        None \<Rightarrow> (r, Error ErrNodeNotFoundOrDown)
      | Some entry \<Rightarrow>
          (case getConn dial (Endpoint (GRPC entry)) (reg_resolver r) of
             (res, c) \<Rightarrow> (r\<lparr>reg_resolver := res\<rparr>, c)))"

text \<open>The callback sees the entries in visiting order until it returns false.\<close>

definition ForeachNodes :: "(NodeEntry \<Rightarrow> 's \<Rightarrow> 's \<times> bool) \<Rightarrow> ulid list \<Rightarrow> Registry \<Rightarrow> 's \<Rightarrow> 's" where
  "ForeachNodes f visit r s = map_range (\<lambda>_ v s. f v s) visit (reg_allNodes r) s"

definition SubscribeUpdate :: "node_event list \<Rightarrow> NodeEntry list" where
  "SubscribeUpdate evs = List.map_filter (\<lambda>e. case e of eventUpdateNode n \<Rightarrow> Some n | _ \<Rightarrow> None) evs"

definition SubscribeDelete :: "node_event list \<Rightarrow> NodeEntry list" where
  "SubscribeDelete evs = List.map_filter (\<lambda>e. case e of eventDeleteNode n \<Rightarrow> Some n | _ \<Rightarrow> None) evs"

definition DumpGRPCResolver ::
  "Registry \<Rightarrow> (int \<rightharpoonup> GRPCServiceDesc) \<times> (ulid \<rightharpoonup> NodeEntry) \<times> (int \<rightharpoonup> ulid list)" where
  "DumpGRPCResolver r = DumpData (reg_resolver r)"

definition registry_Close :: "string list \<Rightarrow> Registry \<Rightarrow> Registry \<times> etcd_request list" where
  "registry_Close visit r =
     (r\<lparr>reg_resolver := resolver_Close visit (reg_resolver r)\<rparr>,
      (if leaseID r \<noteq> NoLease then [ReqRevoke (leaseID r)] else []) @ [ReqClientClose])"

section \<open>Keys are injective\<close>

text \<open>What is known of \<open>ULID.String\<close>: different ids have different texts, without a slash.\<close>

definition ustr_ok :: "(ulid \<Rightarrow> string) \<Rightarrow> bool" where
  "ustr_ok ustr \<longleftrightarrow> inj ustr \<and>
     (\<forall>i. ustr i \<noteq> [] \<and> ustr i \<noteq> ''.'' \<and> ustr i \<noteq> ''..'' \<and> CHR ''/'' \<notin> set (ustr i))"

definition node_key :: "string \<Rightarrow> (ulid \<Rightarrow> string) \<Rightarrow> ulid \<Rightarrow> string" where
  "node_key prefix ustr i = path_Join prefix (ustr i)"

lemma split_slash_plain: "CHR ''/'' \<notin> set s \<Longrightarrow> split_slash cur s = [rev cur @ s]"
  by (induction s arbitrary: cur) auto

lemma split_slash_snoc:
  "CHR ''/'' \<notin> set s \<Longrightarrow> split_slash cur (a @ CHR ''/'' # s) = split_slash cur a @ [s]"
  by (induction a arbitrary: cur) (auto simp: split_slash_plain)

lemma split_slash_slash:
  "CHR ''/'' \<notin> set s \<Longrightarrow> split_slash cur (s @ CHR ''/'' # m) = (rev cur @ s) # split_slash [] m"
  by (induction s arbitrary: cur) auto

lemma clean_parts_snoc:
  "s \<notin> {[], ''.'', ''..''} \<Longrightarrow> clean_parts rooted acc (ps @ [s]) = clean_parts rooted acc ps @ [s]"
  by (induction rooted acc ps rule: clean_parts.induct) auto

lemma join_slash_snoc:
  "join_slash (ps @ [s]) = (if ps = [] then s else join_slash ps @ CHR ''/'' # s)"
  by (induction ps rule: join_slash.induct) auto

lemma path_Join_suffix:
  "\<exists>pre. \<forall>s. s \<notin> {[], ''.'', ''..''} \<longrightarrow> CHR ''/'' \<notin> set s \<longrightarrow> path_Join p s = pre @ s"
proof (cases "p = []")
  case True
  have "path_Join p s = [] @ s" if "s \<notin> {[], ''.'', ''..''}" "CHR ''/'' \<notin> set s" for s
  proof -
    have "hd s \<noteq> CHR ''/''" using that by (cases s) auto
    then show ?thesis
      using that True by (simp add: path_Join_def path_Clean_def Let_def split_slash_plain)
  qed
  then show ?thesis by blast
next
  case False
  define rooted where "rooted = (hd p = CHR ''/'')"
  define ps where "ps = clean_parts rooted [] (split_slash [] p)"
  define pre where "pre = (if rooted then ''/'' else []) @ (if ps = [] then [] else join_slash ps @ ''/'')"
  have "path_Join p s = pre @ s" if s: "s \<notin> {[], ''.'', ''..''}" "CHR ''/'' \<notin> set s" for s
  proof -
    have h: "(hd (p @ CHR ''/'' # s) = CHR ''/'') = rooted" using False by (simp add: rooted_def)
    have c: "clean_parts rooted [] (split_slash [] (p @ CHR ''/'' # s)) = ps @ [s]"
      using s by (simp add: split_slash_snoc clean_parts_snoc ps_def)
    have "path_Clean (p @ CHR ''/'' # s) =
        (if rooted then CHR ''/'' # join_slash (ps @ [s]) else join_slash (ps @ [s]))"
      unfolding path_Clean_def h Let_def c using s by (simp add: join_slash_snoc)
    then show ?thesis
      using s False by (auto simp: path_Join_def pre_def join_slash_snoc)
  qed
  then show ?thesis by blast
qed

lemma node_key_inj: "ustr_ok ustr \<Longrightarrow> node_key p ustr i = node_key p ustr j \<Longrightarrow> i = j"
proof -
  assume u: "ustr_ok ustr" and eq: "node_key p ustr i = node_key p ustr j"
  obtain pre where "\<And>s. s \<notin> {[], ''.'', ''..''} \<Longrightarrow> CHR ''/'' \<notin> set s \<Longrightarrow> path_Join p s = pre @ s"
    using path_Join_suffix [of p] by blast
  then have "node_key p ustr l = pre @ ustr l" for l
    using u by (simp add: ustr_ok_def node_key_def)
  then have "ustr i = ustr j" using eq by simp
  then show "i = j" using u by (simp add: ustr_ok_def inj_eq)
qed

section \<open>The history of etcd\<close>

text \<open>
  The writes below the prefix, by increasing revision: a value that was put, or a deletion.
  \<open>val_at h k v\<close> is what the key \<open>k\<close> holds at revision \<open>v\<close>.
\<close>

type_synonym etcd_hist = "(int \<times> string \<times> string option) list"

definition ops_upto :: "etcd_hist \<Rightarrow> string \<Rightarrow> int \<Rightarrow> etcd_hist" where
  "ops_upto h k v = filter (\<lambda>(r, k', x). k' = k \<and> r \<le> v) h"

definition val_at :: "etcd_hist \<Rightarrow> string \<Rightarrow> int \<Rightarrow> string option" where
  "val_at h k v = (if ops_upto h k v = [] then None else snd (snd (last (ops_upto h k v))))"

definition entry_of :: "(string \<Rightarrow> go_error + NodeEntry) \<Rightarrow> string \<Rightarrow> NodeEntry option" where
  "entry_of unm x = (case unm x of Inl _ \<Rightarrow> None | Inr e \<Rightarrow> Some e)"

text \<open>Every node writes its entry under its own key, as \<open>Put\<close> does.\<close>

definition hist_ok ::
  "(string \<Rightarrow> go_error + NodeEntry) \<Rightarrow> (ulid \<Rightarrow> string) \<Rightarrow> string \<Rightarrow> etcd_hist \<Rightarrow> bool" where
  "hist_ok unm ustr pfx h \<longleftrightarrow>
     sorted (map fst h) \<and> distinct (map (\<lambda>(r, k, x). (r, k)) h) \<and>
     (\<forall>(r, k, x) \<in> set h. 0 < r \<and>
        (\<forall>y. x = Some y \<longrightarrow> (\<exists>e. unm y = Inr e \<and> node_key pfx ustr (ID e) = k)))"

text \<open>A watch event reports a write of the history; a deletion carries the previous value.\<close>

definition ev_ok ::
  "etcd_hist \<Rightarrow> etcd_Event \<Rightarrow> bool" where
  "ev_ok h ev \<longleftrightarrow>
     (case ev_Type ev of
        PUT \<Rightarrow> (kv_ModRevision (ev_Kv ev), kv_Key (ev_Kv ev), Some (kv_Value (ev_Kv ev))) \<in> set h
      | DELETE \<Rightarrow> (kv_ModRevision (ev_Kv ev), kv_Key (ev_Kv ev), None) \<in> set h \<and>
          (\<exists>kv r. ev_PrevKv ev = Some kv \<and> r < kv_ModRevision (ev_Kv ev) \<and>
             (r, kv_Key (ev_Kv ev), Some (kv_Value kv)) \<in> set h)
      | event_type_other _ \<Rightarrow> False)"

text \<open>The answer of a \<open>Get\<close> at revision \<open>R\<close>: the live keys with their last writes.\<close>

definition snap_of :: "etcd_hist \<Rightarrow> int \<Rightarrow> KeyValue list \<Rightarrow> bool" where
  "snap_of h R kvs \<longleftrightarrow>
     (\<forall>kv \<in> set kvs. (kv_ModRevision kv, kv_Key kv, Some (kv_Value kv)) \<in> set h \<and> kv_ModRevision kv \<le> R \<and>
        (\<forall>r x. (r, kv_Key kv, x) \<in> set h \<longrightarrow> r \<le> R \<longrightarrow> r \<le> kv_ModRevision kv)) \<and>
     (\<forall>k. k \<notin> kv_Key ` set kvs \<longrightarrow> val_at h k R = None)"

lemma val_at_op:
  assumes "hist_ok unm ustr pfx h" and "(r, k, x) \<in> set h"
  shows "val_at h k r = x"
proof -
  let ?ops = "ops_upto h k r"
  have mem: "(r, k, x) \<in> set ?ops" using assms(2) by (simp add: ops_upto_def)
  then have ne: "?ops \<noteq> []" by auto
  have "sorted (map fst ?ops)"
    using assms(1) by (auto simp: hist_ok_def ops_upto_def intro: sorted_filter)
  from sorted_map_last [OF this mem] have "r \<le> fst (last ?ops)" by simp
  moreover have "last ?ops \<in> set ?ops" using ne by (rule last_in_set)
  then have last: "last ?ops \<in> set h" "fst (last ?ops) \<le> r" "fst (snd (last ?ops)) = k"
    by (auto simp: ops_upto_def)
  ultimately have "(\<lambda>(r, k, x). (r, k)) (last ?ops) = (\<lambda>(r, k, x). (r, k)) (r, k, x)"
    by (simp add: split_beta)
  moreover have "inj_on (\<lambda>(r, k, x). (r, k)) (set h)"
    using assms(1) by (simp add: hist_ok_def distinct_map)
  ultimately have "last ?ops = (r, k, x)"
    using assms(2) last(1) by (metis inj_onD)
  then show ?thesis using ne by (simp add: val_at_def)
qed

lemma hist_ok_pos: "hist_ok unm ustr pfx h \<Longrightarrow> (r, k, x) \<in> set h \<Longrightarrow> 0 < r"
  by (auto simp: hist_ok_def)

lemma hist_ok_decodes:
  "hist_ok unm ustr pfx h \<Longrightarrow> (r, k, Some x) \<in> set h \<Longrightarrow>
   \<exists>e. unm x = Inr e \<and> node_key pfx ustr (ID e) = k"
  by (fastforce simp: hist_ok_def)

lemma val_at_0: "hist_ok unm ustr pfx h \<Longrightarrow> val_at h k 0 = None"
  by (force simp: hist_ok_def val_at_def ops_upto_def filter_empty_conv)

lemma val_at_between:
  assumes "\<And>r x. (r, k, x) \<in> set h \<Longrightarrow> r \<le> R \<Longrightarrow> r \<le> m" and "m \<le> v" and "v \<le> R"
  shows "val_at h k v = val_at h k R"
proof -
  have "ops_upto h k v = ops_upto h k R"
    unfolding ops_upto_def using assms by (intro filter_cong refl) fastforce
  then show ?thesis by (simp add: val_at_def)
qed

lemma val_at_decodes:
  assumes "hist_ok unm ustr pfx h" and "val_at h k v = Some x"
  shows "\<exists>e. unm x = Inr e \<and> node_key pfx ustr (ID e) = k"
proof -
  have ne: "ops_upto h k v \<noteq> []" and x: "snd (snd (last (ops_upto h k v))) = Some x"
    using assms(2) by (auto simp: val_at_def split: if_splits)
  obtain r k' y where l: "last (ops_upto h k v) = (r, k', y)" by (cases "last (ops_upto h k v)")
  from last_in_set [OF ne] x have "(r, k, Some x) \<in> set h"
    unfolding l by (auto simp: ops_upto_def)
  then show ?thesis using assms(1) by (fastforce simp: hist_ok_def)
qed

section \<open>The watcher follows the history\<close>

definition ver :: "watcher \<Rightarrow> string \<Rightarrow> int" where
  "ver w k = (case versions w k of None \<Rightarrow> 0 | Some v \<Rightarrow> v)"

text \<open>A node is known exactly as its key stood at the revision recorded for that key.\<close>

definition tracks_at ::
  "(string \<Rightarrow> go_error + NodeEntry) \<Rightarrow> (ulid \<Rightarrow> string) \<Rightarrow> etcd_hist \<Rightarrow> watcher \<Rightarrow> ulid \<Rightarrow> bool" where
  "tracks_at unm ustr h w i \<longleftrightarrow>
     (let k = node_key (keyPrefix (w_registry w)) ustr i in
      reg_allNodes (w_registry w) i = Option.bind (val_at h k (ver w k)) (entry_of unm))"

lemma putNode_simps [simp]:
  "versions (putNode reg ord e w) = versions w"
  "maxRev (putNode reg ord e w) = maxRev w"
  "keyPrefix (w_registry (putNode reg ord e w)) = keyPrefix (w_registry w)"
  "watchRetryMax (w_registry (putNode reg ord e w)) = watchRetryMax (w_registry w)"
  "reg_allNodes (w_registry (putNode reg ord e w)) = (reg_allNodes (w_registry w))(ID e \<mapsto> e)"
  "reg_resolver (w_registry (putNode reg ord e w)) = resolver_Update reg ord e (reg_resolver (w_registry w))"
  by (simp_all add: putNode_def Let_def)

lemma removeNode_simps [simp]:
  "versions (removeNode reg ord e w) = versions w"
  "maxRev (removeNode reg ord e w) = maxRev w"
  "keyPrefix (w_registry (removeNode reg ord e w)) = keyPrefix (w_registry w)"
  "watchRetryMax (w_registry (removeNode reg ord e w)) = watchRetryMax (w_registry w)"
  "reg_allNodes (w_registry (removeNode reg ord e w)) = (reg_allNodes (w_registry w))(ID e := None)"
  "reg_resolver (w_registry (removeNode reg ord e w)) = resolver_Remove reg ord e (reg_resolver (w_registry w))"
  by (simp_all add: removeNode_def Let_def)

definition stale :: "watcher \<Rightarrow> etcd_Event \<Rightarrow> bool" where
  "stale w ev \<longleftrightarrow> (\<exists>v. versions w (kv_Key (ev_Kv ev)) = Some v \<and> kv_ModRevision (ev_Kv ev) \<le> v)"

definition bump :: "watcher \<Rightarrow> int \<Rightarrow> watcher" where
  "bump w r = (if r > maxRev w then w\<lparr>maxRev := r\<rparr> else w)"

lemma bump_simps [simp]:
  "versions (bump w r) = versions w" "w_registry (bump w r) = w_registry w"
  "w_events (bump w r) = w_events w" "maxRev (bump w r) = max r (maxRev w)"
  by (simp_all add: bump_def max_def)

lemma apply_event_stale: "stale w ev \<Longrightarrow> apply_event unm reg ord ev w = Ok (bump w (kv_ModRevision (ev_Kv ev)))"
  by (auto simp: stale_def apply_event_def bump_def Let_def)

lemma apply_event_fresh:
  assumes "\<not> stale w ev" and "ev_ok h ev"
    and "hist_ok unm ustr pfx h"
  defines "w2 \<equiv> (bump w (kv_ModRevision (ev_Kv ev)))
    \<lparr>versions := (versions w)(kv_Key (ev_Kv ev) \<mapsto> kv_ModRevision (ev_Kv ev))\<rparr>"
  obtains e where "unm (kv_Value (ev_Kv ev)) = Inr e" "ev_Type ev = PUT"
      "node_key pfx ustr (ID e) = kv_Key (ev_Kv ev)"
      "apply_event unm reg ord ev w = Ok (putNode reg ord e w2)"
  | e where "ev_Type ev = DELETE" "node_key pfx ustr (ID e) = kv_Key (ev_Kv ev)"
      "apply_event unm reg ord ev w = Ok (removeNode reg ord e w2)"
proof -
  have ns: "(case versions w (kv_Key (ev_Kv ev)) of Some v \<Rightarrow> v \<ge> kv_ModRevision (ev_Kv ev) | None \<Rightarrow> False) = False"
    using assms(1) by (auto simp: stale_def split: option.splits)
  have run: "apply_event unm reg ord ev w =
    (case (if ev_Type ev = DELETE then ev_PrevKv ev else Some (ev_Kv ev)) of
       None \<Rightarrow> Panic ''nil pointer dereference''
     | Some kv \<Rightarrow> (case unm (kv_Value kv) of Inl err \<Rightarrow> Ok w2
         | Inr entry \<Rightarrow> (case ev_Type ev of PUT \<Rightarrow> Ok (putNode reg ord entry w2)
             | DELETE \<Rightarrow> Ok (removeNode reg ord entry w2) | event_type_other _ \<Rightarrow> Ok w2)))"
    unfolding apply_event_def Let_def bump_def [symmetric] bump_simps ns if_False w2_def by (rule refl)
  show thesis
  proof (cases "ev_Type ev")
    case PUT
    then obtain e where e: "unm (kv_Value (ev_Kv ev)) = Inr e" "node_key pfx ustr (ID e) = kv_Key (ev_Kv ev)"
      using assms(2) hist_ok_decodes [OF assms(3)] by (fastforce simp: ev_ok_def)
    show ?thesis by (rule that(1) [OF e(1) PUT e(2)]) (simp add: run PUT e)
  next
    case DELETE
    then obtain kv e where e: "ev_PrevKv ev = Some kv" "unm (kv_Value kv) = Inr e"
        "node_key pfx ustr (ID e) = kv_Key (ev_Kv ev)"
      using assms(2) hist_ok_decodes [OF assms(3)] by (fastforce simp: ev_ok_def)
    show ?thesis by (rule that(2) [OF DELETE e(3)]) (simp add: run DELETE e)
  next
    case (event_type_other n)
    then show ?thesis using assms(2) by (simp add: ev_ok_def)
  qed
qed

text \<open>
  Applying any event of the history, however late or often it is delivered, keeps what is
  tracked, and makes its key tracked.
\<close>

lemma apply_event_step:
  assumes u: "ustr_ok ustr" and h: "hist_ok unm ustr pfx h" and ev: "ev_ok h ev"
    and pfx: "keyPrefix (w_registry w) = pfx"
  obtains w' where "apply_event unm reg ord ev w = Ok w'" "keyPrefix (w_registry w') = pfx"
    "\<And>i. tracks_at unm ustr h w i \<Longrightarrow> tracks_at unm ustr h w' i"
    "\<And>i. node_key pfx ustr i = kv_Key (ev_Kv ev) \<Longrightarrow>
       tracks_at unm ustr h w i \<or> versions w (node_key pfx ustr i) = None \<Longrightarrow> tracks_at unm ustr h w' i"
    "versions w' = (if stale w ev then versions w
       else (versions w)(kv_Key (ev_Kv ev) \<mapsto> kv_ModRevision (ev_Kv ev)))"
proof (cases "stale w ev")
  case True
  have t: "tracks_at unm ustr h (bump w r) i \<longleftrightarrow> tracks_at unm ustr h w i" for i r
    by (simp add: tracks_at_def ver_def)
  show thesis
    by (rule that [OF apply_event_stale [OF True]]) (use True pfx in \<open>auto simp: t stale_def\<close>)
next
  case False
  let ?k = "kv_Key (ev_Kv ev)" and ?r = "kv_ModRevision (ev_Kv ev)"
  let ?w2 = "(bump w ?r)\<lparr>versions := (versions w)(?k \<mapsto> ?r)\<rparr>"
  have inj: "node_key pfx ustr i = node_key pfx ustr j \<Longrightarrow> i = j" for i j
    using node_key_inj [OF u] .
  show thesis
  proof (cases rule: apply_event_fresh [OF False ev h, of reg ord])
    case (1 e)
    have "(?r, ?k, Some (kv_Value (ev_Kv ev))) \<in> set h" using ev 1(2) by (simp add: ev_ok_def)
    then have "val_at h ?k ?r = Some (kv_Value (ev_Kv ev))" using val_at_op [OF h] by blast
    then have new: "node_key pfx ustr i = ?k \<Longrightarrow> tracks_at unm ustr h (putNode reg ord e ?w2) i" for i
      using 1(1) 1(3) pfx inj [of i "ID e"] by (simp add: tracks_at_def ver_def entry_of_def)
    have old: "tracks_at unm ustr h (putNode reg ord e ?w2) i"
      if "tracks_at unm ustr h w i" "node_key pfx ustr i \<noteq> ?k" for i
      using that 1(3) pfx by (auto simp: tracks_at_def ver_def)
    show ?thesis by (rule that [OF 1(4)]) (use pfx new old False in auto)
  next
    case (2 e)
    have "(?r, ?k, None) \<in> set h" using ev 2(1) by (simp add: ev_ok_def)
    then have "val_at h ?k ?r = None" using val_at_op [OF h] by blast
    then have new: "node_key pfx ustr i = ?k \<Longrightarrow> tracks_at unm ustr h (removeNode reg ord e ?w2) i" for i
      using 2(2) pfx inj [of i "ID e"] by (simp add: tracks_at_def ver_def entry_of_def)
    have old: "tracks_at unm ustr h (removeNode reg ord e ?w2) i"
      if "tracks_at unm ustr h w i" "node_key pfx ustr i \<noteq> ?k" for i
      using that 2(2) pfx by (auto simp: tracks_at_def ver_def)
    show ?thesis by (rule that [OF 2(3)]) (use pfx new old False in auto)
  qed
qed

text \<open>The first loop of \<open>resync\<close>; a key is settled when it is tracked or has no version.\<close>

definition settled_at ::
  "(string \<Rightarrow> go_error + NodeEntry) \<Rightarrow> (ulid \<Rightarrow> string) \<Rightarrow> etcd_hist \<Rightarrow> watcher \<Rightarrow> ulid \<Rightarrow> bool" where
  "settled_at unm ustr h w i \<longleftrightarrow>
     tracks_at unm ustr h w i \<or> versions w (node_key (keyPrefix (w_registry w)) ustr i) = None"

lemma ev_ok_put_event [simp]:
  "ev_ok h (put_event kv) \<longleftrightarrow> (kv_ModRevision kv, kv_Key kv, Some (kv_Value kv)) \<in> set h"
  by (simp add: ev_ok_def put_event_def)

lemma put_event_Kv [simp]: "ev_Kv (put_event kv) = kv"
  by (simp add: put_event_def)

definition put_post ::
  "(string \<Rightarrow> go_error + NodeEntry) \<Rightarrow> (ulid \<Rightarrow> string) \<Rightarrow> string \<Rightarrow> etcd_hist \<Rightarrow>
   KeyValue list \<Rightarrow> watcher \<Rightarrow> watcher \<Rightarrow> bool" where
  "put_post unm ustr pfx h kvs w w' \<longleftrightarrow>
     keyPrefix (w_registry w') = pfx \<and> (\<forall>i. settled_at unm ustr h w' i) \<and>
     (\<forall>i. tracks_at unm ustr h w i \<or> node_key pfx ustr i \<in> kv_Key ` set kvs \<longrightarrow> tracks_at unm ustr h w' i) \<and>
     (\<forall>k v. versions w' k = Some v \<longrightarrow>
        versions w k = Some v \<or> (\<exists>kv \<in> set kvs. kv_Key kv = k \<and> v = kv_ModRevision kv)) \<and>
     (\<forall>kv \<in> set kvs. versions w' (kv_Key kv) \<noteq> None \<and> kv_ModRevision kv \<le> ver w' (kv_Key kv)) \<and>
     (\<forall>k. versions w k \<noteq> None \<longrightarrow> ver w k \<le> ver w' k \<and> versions w' k \<noteq> None)"

text \<open>One step establishes the postcondition for one pair, and it composes.\<close>

lemma put_post_one:
  assumes u: "ustr_ok ustr" and h: "hist_ok unm ustr pfx h" and pfx: "keyPrefix (w_registry w) = pfx"
    and mem: "(kv_ModRevision kv, kv_Key kv, Some (kv_Value kv)) \<in> set h"
    and settled: "\<forall>i. settled_at unm ustr h w i"
  shows "\<exists>w1. apply_event unm reg ord (put_event kv) w = Ok w1 \<and> put_post unm ustr pfx h [kv] w w1"
proof -
  have ok: "ev_ok h (put_event kv)" using mem by simp
  obtain w1 where w1: "apply_event unm reg ord (put_event kv) w = Ok w1" "keyPrefix (w_registry w1) = pfx"
    "\<And>i. tracks_at unm ustr h w i \<Longrightarrow> tracks_at unm ustr h w1 i"
    "\<And>i. node_key pfx ustr i = kv_Key kv \<Longrightarrow>
       tracks_at unm ustr h w i \<or> versions w (node_key pfx ustr i) = None \<Longrightarrow> tracks_at unm ustr h w1 i"
    "versions w1 = (if stale w (put_event kv) then versions w
       else (versions w)(kv_Key kv \<mapsto> kv_ModRevision kv))"
    using apply_event_step [OF u h ok pfx, of reg ord, unfolded put_event_Kv] by blast
  have key: "tracks_at unm ustr h w1 i" if "node_key pfx ustr i = kv_Key kv" for i
    using w1(4) [OF that] settled by (simp add: settled_at_def pfx)
  have "\<forall>i. settled_at unm ustr h w1 i"
    using settled key w1(2,3,5) pfx unfolding settled_at_def by (metis fun_upd_apply)
  moreover have "versions w1 (kv_Key kv) \<noteq> None \<and> kv_ModRevision kv \<le> ver w1 (kv_Key kv)"
    using w1(5) by (auto simp: ver_def stale_def split: option.splits)
  moreover have "versions w k \<noteq> None \<longrightarrow> ver w k \<le> ver w1 k \<and> versions w1 k \<noteq> None" for k
    using w1(5) by (auto simp: ver_def stale_def)
  moreover have "versions w1 k = Some v \<longrightarrow> versions w k = Some v \<or> kv_Key kv = k \<and> v = kv_ModRevision kv" for k v
    using w1(5) by auto
  ultimately show ?thesis
    using w1(1-3) key unfolding put_post_def by auto
qed

lemma put_post_trans:
  assumes p1: "put_post unm ustr pfx h [kv] w w1" and p2: "put_post unm ustr pfx h kvs w1 w'"
  shows "put_post unm ustr pfx h (kv # kvs) w w'"
proof -
  have mono: "versions w1 k \<noteq> None \<Longrightarrow> ver w1 k \<le> ver w' k \<and> versions w' k \<noteq> None" for k
    using p2 by (simp add: put_post_def)
  have "versions w1 (kv_Key kv) \<noteq> None" "kv_ModRevision kv \<le> ver w1 (kv_Key kv)"
    using p1 by (simp_all add: put_post_def)
  then have "versions w' (kv_Key kv) \<noteq> None \<and> kv_ModRevision kv \<le> ver w' (kv_Key kv)"
    using mono [of "kv_Key kv"] by linarith
  moreover have "ver w k \<le> ver w' k \<and> versions w' k \<noteq> None" if "versions w k \<noteq> None" for k
  proof -
    have "ver w k \<le> ver w1 k" "versions w1 k \<noteq> None" using p1 that by (simp_all add: put_post_def)
    with mono [of k] show ?thesis by linarith
  qed
  moreover have "tracks_at unm ustr h w' i"
    if "tracks_at unm ustr h w i \<or> node_key pfx ustr i \<in> kv_Key ` set (kv # kvs)" for i
  proof -
    have "tracks_at unm ustr h w1 i \<or> node_key pfx ustr i \<in> kv_Key ` set kvs"
      using p1 that by (auto simp: put_post_def)
    then show ?thesis using p2 unfolding put_post_def by blast
  qed
  moreover have "versions w k = Some v \<or> (\<exists>kv' \<in> set (kv # kvs). kv_Key kv' = k \<and> v = kv_ModRevision kv')"
    if "versions w' k = Some v" for k v
  proof -
    have "versions w1 k = Some v \<or> (\<exists>kv' \<in> set kvs. kv_Key kv' = k \<and> v = kv_ModRevision kv')"
      using p2 that by (simp add: put_post_def)
    then show ?thesis using p1 by (auto simp: put_post_def)
  qed
  moreover have "keyPrefix (w_registry w') = pfx" "\<forall>i. settled_at unm ustr h w' i"
    "\<forall>kv \<in> set kvs. versions w' (kv_Key kv) \<noteq> None \<and> kv_ModRevision kv \<le> ver w' (kv_Key kv)"
    using p2 by (simp_all add: put_post_def)
  ultimately show ?thesis by (simp add: put_post_def)
qed

lemma put_loop:
  assumes u: "ustr_ok ustr" and h: "hist_ok unm ustr pfx h"
    and "keyPrefix (w_registry w) = pfx"
    and "\<forall>kv \<in> set kvs. (kv_ModRevision kv, kv_Key kv, Some (kv_Value kv)) \<in> set h"
    and "\<forall>i. settled_at unm ustr h w i"
  shows "\<exists>w'. go_fold (\<lambda>kv. apply_event unm reg ord (put_event kv)) kvs w = Ok w' \<and>
    put_post unm ustr pfx h kvs w w'"
  using assms(3-5)
proof (induction kvs arbitrary: w)
  case Nil
  then show ?case by (simp add: put_post_def)
next
  case (Cons kv kvs)
  obtain w1 where w1: "apply_event unm reg ord (put_event kv) w = Ok w1"
    "put_post unm ustr pfx h [kv] w w1"
    using put_post_one [OF u h Cons.prems(1) _ Cons.prems(3), of kv reg ord] Cons.prems(2) by auto
  then have "keyPrefix (w_registry w1) = pfx" "\<forall>i. settled_at unm ustr h w1 i"
    by (simp_all add: put_post_def)
  then obtain w' where "go_fold (\<lambda>kv. apply_event unm reg ord (put_event kv)) kvs w1 = Ok w'"
    "put_post unm ustr pfx h kvs w1 w'"
    using Cons.IH [of w1] Cons.prems(2) by auto
  then show ?case using w1 put_post_trans by auto
qed

text \<open>The second loop of \<open>resync\<close>.\<close>

lemma removeStale_loop:
  fixes ustr reg ord existing R
  defines "f \<equiv> \<lambda>_ entry s. (staleEntry ustr reg ord existing R entry s, True)"
  assumes "distinct ks" and "\<And>i e. m i = Some e \<Longrightarrow> ID e = i"
    and "keyPrefix (w_registry w) = pfx"
  shows "keyPrefix (w_registry (map_range f ks m w)) = pfx \<and>
    (\<forall>i. reg_allNodes (w_registry (map_range f ks m w)) i =
       (if i \<in> set ks \<and> m i \<noteq> None \<and> node_key pfx ustr i \<notin> existing then None
        else reg_allNodes (w_registry w) i)) \<and>
    (\<forall>k. versions (map_range f ks m w) k =
       (if \<exists>i \<in> set ks. m i \<noteq> None \<and> node_key pfx ustr i \<notin> existing \<and> node_key pfx ustr i = k
        then Some R else versions w k))"
  using assms(2,4)
proof (induction ks arbitrary: w)
  case (Cons j ks)
  show ?case
  proof (cases "m j")
    case None
    then show ?thesis using Cons by auto
  next
    case (Some e)
    have e: "ID e = j" using assms(3) Some by blast
    let ?s = "if node_key pfx ustr j \<notin> existing
      then removeNode reg ord e (w\<lparr>versions := (versions w)(node_key pfx ustr j \<mapsto> R)\<rparr>) else w"
    have step: "map_range f (j # ks) m w = map_range f ks m ?s"
      using Some e Cons.prems(2) by (simp add: f_def staleEntry_def node_key_def Let_def)
    have p: "keyPrefix (w_registry ?s) = pfx" using Cons.prems(2) by simp
    note IH = Cons.IH [OF _ p]
    show ?thesis unfolding step using IH Cons.prems(1) Some e by auto
  qed
qed simp

lemma tracks_ID:
  assumes "ustr_ok ustr" and "hist_ok unm ustr (keyPrefix (w_registry w)) h"
    and "tracks_at unm ustr h w i" and "reg_allNodes (w_registry w) i = Some e"
  shows "ID e = i"
proof -
  let ?k = "node_key (keyPrefix (w_registry w)) ustr i"
  obtain x where x: "val_at h ?k (ver w ?k) = Some x" "entry_of unm x = Some e"
    using assms(3,4) unfolding tracks_at_def Let_def
    by (cases "val_at h ?k (ver w ?k)") (auto simp del: split_paired_Ex)
  then show ?thesis
    using val_at_decodes [OF assms(2) x(1)] node_key_inj [OF assms(1)] by (auto simp: entry_of_def)
qed

definition visit_ok :: "((ulid \<rightharpoonup> NodeEntry) \<Rightarrow> ulid list) \<Rightarrow> bool" where
  "visit_ok visit \<longleftrightarrow> (\<forall>m. finite (dom m) \<longrightarrow> enumerates (visit m) m)"

text \<open>The table of nodes is finite and keyed by the nodes' own ids.\<close>

definition nodes_wf :: "watcher \<Rightarrow> bool" where
  "nodes_wf w \<longleftrightarrow> finite (dom (reg_allNodes (w_registry w))) \<and>
     (\<forall>i e. reg_allNodes (w_registry w) i = Some e \<longrightarrow> ID e = i)"

lemma nodes_wf_putNode: "nodes_wf w \<Longrightarrow> nodes_wf (putNode reg ord e w)"
  by (auto simp: nodes_wf_def)

lemma nodes_wf_removeNode: "nodes_wf w \<Longrightarrow> nodes_wf (removeNode reg ord e w)"
  by (auto simp: nodes_wf_def)

lemma nodes_wf_versions [simp]:
  "nodes_wf (w\<lparr>versions := v\<rparr>) = nodes_wf w" "nodes_wf (w\<lparr>maxRev := r\<rparr>) = nodes_wf w"
  "nodes_wf (bump w r) = nodes_wf w"
  by (simp_all add: nodes_wf_def)

lemma nodes_wf_apply:
  assumes "nodes_wf w" and "apply_event unm reg ord ev w = Ok w'"
  shows "nodes_wf w'"
  using assms unfolding apply_event_def Let_def bump_def [symmetric]
  by (auto simp: nodes_wf_putNode nodes_wf_removeNode
      split: if_splits option.splits sum.splits event_type.splits)

lemma removeStale_effect:
  fixes reg ord existing R
  assumes u: "ustr_ok ustr" and pfx: "keyPrefix (w_registry w) = pfx"
    and v: "visit_ok visit" and wf: "nodes_wf w"
  defines "w' \<equiv> removeStale ustr reg ord existing R (visit (reg_allNodes (w_registry w))) w"
  shows "keyPrefix (w_registry w') = pfx"
    and "reg_allNodes (w_registry w') i =
      (if node_key pfx ustr i \<notin> existing then None else reg_allNodes (w_registry w) i)"
    and "versions w' (node_key pfx ustr i) =
      (if reg_allNodes (w_registry w) i \<noteq> None \<and> node_key pfx ustr i \<notin> existing then Some R
       else versions w (node_key pfx ustr i))"
proof -
  let ?m = "reg_allNodes (w_registry w)"
  have ks: "distinct (visit ?m)" "set (visit ?m) = dom ?m"
    using v wf by (auto simp: visit_ok_def nodes_wf_def enumerates_def)
  have ids: "\<And>i e. ?m i = Some e \<Longrightarrow> ID e = i" using wf by (simp add: nodes_wf_def)
  have loop: "keyPrefix (w_registry w') = pfx \<and>
    (\<forall>i. reg_allNodes (w_registry w') i =
       (if i \<in> set (visit ?m) \<and> ?m i \<noteq> None \<and> node_key pfx ustr i \<notin> existing then None else ?m i)) \<and>
    (\<forall>k. versions w' k =
       (if \<exists>i \<in> set (visit ?m). ?m i \<noteq> None \<and> node_key pfx ustr i \<notin> existing \<and> node_key pfx ustr i = k
        then Some R else versions w k))"
    unfolding w'_def removeStale_def by (rule removeStale_loop [OF ks(1) _ pfx]) (rule ids)
  show "keyPrefix (w_registry w') = pfx" using loop by (rule conjunct1)
  have "reg_allNodes (w_registry w') i =
      (if i \<in> dom ?m \<and> ?m i \<noteq> None \<and> node_key pfx ustr i \<notin> existing then None else ?m i)"
    using loop unfolding ks(2) by blast
  then show "reg_allNodes (w_registry w') i =
      (if node_key pfx ustr i \<notin> existing then None else ?m i)"
    by (auto split: if_splits)
  have "versions w' (node_key pfx ustr i) =
      (if \<exists>j \<in> dom ?m. ?m j \<noteq> None \<and> node_key pfx ustr j \<notin> existing \<and> node_key pfx ustr j = node_key pfx ustr i
       then Some R else versions w (node_key pfx ustr i))"
    using loop unfolding ks(2) by blast
  moreover have "(\<exists>j \<in> dom ?m. ?m j \<noteq> None \<and> node_key pfx ustr j \<notin> existing \<and> node_key pfx ustr j = node_key pfx ustr i)
      \<longleftrightarrow> ?m i \<noteq> None \<and> node_key pfx ustr i \<notin> existing"
    using node_key_inj [OF u, of pfx] by blast
  ultimately show "versions w' (node_key pfx ustr i) =
      (if ?m i \<noteq> None \<and> node_key pfx ustr i \<notin> existing then Some R
       else versions w (node_key pfx ustr i))"
    by simp
qed

lemma tracks_None:
  assumes h: "hist_ok unm ustr pfx h" and "keyPrefix (w_registry w) = pfx"
    and "settled_at unm ustr h w i" and "reg_allNodes (w_registry w) i = None"
  shows "val_at h (node_key pfx ustr i) (ver w (node_key pfx ustr i)) = None"
proof (cases "versions w (node_key pfx ustr i)")
  case None
  then show ?thesis using val_at_0 [OF h] by (simp add: ver_def)
next
  case (Some v)
  then have t: "Option.bind (val_at h (node_key pfx ustr i) (ver w (node_key pfx ustr i))) (entry_of unm) = None"
    using assms(2-4) by (auto simp: settled_at_def tracks_at_def Let_def)
  show ?thesis
  proof (rule ccontr)
    assume "val_at h (node_key pfx ustr i) (ver w (node_key pfx ustr i)) \<noteq> None"
    then obtain x where x: "val_at h (node_key pfx ustr i) (ver w (node_key pfx ustr i)) = Some x"
      by blast
    with val_at_decodes [OF h x] t show False by (auto simp: entry_of_def)
  qed
qed

text \<open>A snapshot key whose recorded revision lies between its last write and the snapshot.\<close>

lemma snap_val:
  assumes h: "hist_ok unm ustr pfx h" and snap: "snap_of h R kvs" and kv: "kv \<in> set kvs"
    and v: "kv_ModRevision kv \<le> ver w (kv_Key kv)"
    and le: "\<And>k v. versions w k = Some v \<Longrightarrow> v \<le> R"
  shows "val_at h (kv_Key kv) (ver w (kv_Key kv)) = val_at h (kv_Key kv) R"
proof -
  have mem: "(kv_ModRevision kv, kv_Key kv, Some (kv_Value kv)) \<in> set h"
    and R: "kv_ModRevision kv \<le> R"
    and last: "\<And>r x. (r, kv_Key kv, x) \<in> set h \<Longrightarrow> r \<le> R \<Longrightarrow> r \<le> kv_ModRevision kv"
    using snap kv unfolding snap_of_def by blast+
  have "0 < kv_ModRevision kv" using hist_ok_pos [OF h mem] .
  then have "ver w (kv_Key kv) \<le> R"
    using R le [of "kv_Key kv"] by (cases "versions w (kv_Key kv)") (simp_all add: ver_def)
  then show ?thesis using v by (intro val_at_between [OF last]) simp_all
qed

lemma resync_cleared:
  fixes R :: int
  assumes "keyPrefix (w_registry w) = pfx" and "nodes_wf w" and "\<forall>i. tracks_at unm ustr h w i"
  defines "w1 \<equiv> if R < maxRev w then w\<lparr>versions := Map.empty, maxRev := R\<rparr> else w"
  shows "keyPrefix (w_registry w1) = pfx" and "nodes_wf w1" and "\<forall>i. settled_at unm ustr h w1 i"
    and "R < maxRev w \<or> (\<forall>k v. versions w k = Some v \<longrightarrow> v \<le> R) \<Longrightarrow> versions w1 k = Some v \<Longrightarrow> v \<le> R"
  using assms by (auto simp: settled_at_def split: if_splits)

lemma resync_step:
  assumes u: "ustr_ok ustr" and h: "hist_ok unm ustr pfx h" and pfx: "keyPrefix (w_registry w) = pfx"
    and v: "visit_ok visit" and wf: "nodes_wf w"
    and tr: "\<forall>i. tracks_at unm ustr h w i" and snap: "snap_of h R kvs"
  obtains w' where "resync unm ustr reg ord visit (Inr (R, kvs)) w = Ok (w', None)"
    "keyPrefix (w_registry w') = pfx" "\<forall>i. tracks_at unm ustr h w' i"
    "R < maxRev w \<or> (\<forall>k v. versions w k = Some v \<longrightarrow> v \<le> R) \<Longrightarrow>
       \<forall>i. reg_allNodes (w_registry w') i = Option.bind (val_at h (node_key pfx ustr i) R) (entry_of unm)"
proof -
  define w1 where "w1 = (if R < maxRev w then w\<lparr>versions := Map.empty, maxRev := R\<rparr> else w)"
  note w1 = resync_cleared [OF pfx wf tr, of R, folded w1_def]
  have mem: "\<forall>kv \<in> set kvs. (kv_ModRevision kv, kv_Key kv, Some (kv_Value kv)) \<in> set h"
    using snap by (simp add: snap_of_def)
  obtain w2 where run2: "go_fold (\<lambda>kv. apply_event unm reg ord (put_event kv)) kvs w1 = Ok w2"
    and post: "put_post unm ustr pfx h kvs w1 w2"
    using put_loop [OF u h w1(1) mem w1(3), of reg ord] by blast
  have w2: "keyPrefix (w_registry w2) = pfx" "\<forall>i. settled_at unm ustr h w2 i"
    "\<And>i. node_key pfx ustr i \<in> kv_Key ` set kvs \<Longrightarrow> tracks_at unm ustr h w2 i"
    "\<And>kv. kv \<in> set kvs \<Longrightarrow> kv_ModRevision kv \<le> ver w2 (kv_Key kv)"
    using post by (simp_all add: put_post_def)
  have vers2: "versions w1 k = Some v \<or> (\<exists>kv \<in> set kvs. kv_Key kv = k \<and> v = kv_ModRevision kv)"
    if "versions w2 k = Some v" for k v
    using post that by (simp add: put_post_def)
  have wf2: "nodes_wf w2"
    by (rule go_fold_inv [where P = nodes_wf, OF _ w1(2) run2]) (rule nodes_wf_apply)
  let ?E = "kv_Key ` set kvs" and ?ks = "visit (reg_allNodes (w_registry w2))"
  define w' where "w' = removeStale ustr reg ord ?E R ?ks w2"
  note loop = removeStale_effect [OF u w2(1) v wf2, of reg ord ?E R, folded w'_def]
  have none: "val_at h k R = None" if "k \<notin> ?E" for k using snap that by (simp add: snap_of_def)
  have tracks': "tracks_at unm ustr h w' i" for i
  proof (cases "node_key pfx ustr i \<in> ?E")
    case True
    then show ?thesis using w2(1) w2(3) [of i] loop(1) loop(2,3) [of i] by (simp add: tracks_at_def ver_def)
  next
    case False
    have "val_at h (node_key pfx ustr i) (ver w' (node_key pfx ustr i)) = None"
      using tracks_None [OF h w2(1), of i] w2(2) loop(3) [of i] none [OF False] False
      by (cases "reg_allNodes (w_registry w2) i") (simp_all add: ver_def)
    then show ?thesis using False loop(1) loop(2) [of i] by (simp add: tracks_at_def)
  qed
  have exact: "reg_allNodes (w_registry w') i = Option.bind (val_at h (node_key pfx ustr i) R) (entry_of unm)"
    if le: "R < maxRev w \<or> (\<forall>k v. versions w k = Some v \<longrightarrow> v \<le> R)" for i
  proof (cases "node_key pfx ustr i \<in> ?E")
    case True
    then obtain kv where kv: "kv \<in> set kvs" "node_key pfx ustr i = kv_Key kv" by blast
    have "v \<le> R" if "versions w2 k = Some v" for k v
      using vers2 [OF that] w1(4) [OF le, of k v] snap by (auto simp: snap_of_def)
    then have "val_at h (kv_Key kv) (ver w2 (kv_Key kv)) = val_at h (kv_Key kv) R"
      using snap_val [OF h snap kv(1) w2(4) [OF kv(1)]] by blast
    moreover have "ver w' (node_key pfx ustr i) = ver w2 (node_key pfx ustr i)"
      using True loop(3) [of i] by (simp add: ver_def)
    ultimately show ?thesis using tracks' [of i] loop(1) kv(2) by (simp add: tracks_at_def)
  next
    case False
    then show ?thesis using none [OF False] loop(2) [of i] by simp
  qed
  have run: "resync unm ustr reg ord visit (Inr (R, kvs)) w = Ok (w', None)"
    using run2 by (simp add: resync_def w1_def w'_def Let_def)
  show thesis
    by (rule that [OF run loop(1)]) (simp_all add: tracks' exact)
qed

section \<open>Runs of the watcher\<close>

text \<open>
  Everything that can happen to the watcher: an event of the history is delivered (late,
  repeated or after others were missed), or a full synchronisation with a snapshot of any
  revision succeeds or fails.
\<close>

inductive watch_reach ::
  "(string \<Rightarrow> go_error + NodeEntry) \<Rightarrow> (ulid \<Rightarrow> string) \<Rightarrow> (string \<rightharpoonup> BalancerFactory) \<Rightarrow> string \<Rightarrow>
   etcd_hist \<Rightarrow> watcher \<Rightarrow> bool"
  for unm ustr reg pfx h where
  watch_new: "keyPrefix r = pfx \<Longrightarrow> reg_allNodes r = Map.empty \<Longrightarrow> reg_resolver r = newGRPCResolver \<Longrightarrow>
    watch_reach unm ustr reg pfx h
      \<lparr>w_registry = r, versions = Map.empty, maxRev = 0, w_events = []\<rparr>"
| watch_event: "watch_reach unm ustr reg pfx h w \<Longrightarrow> range_ok ord \<Longrightarrow> ev_ok h ev \<Longrightarrow>
    apply_event unm reg ord ev w = Ok w' \<Longrightarrow> watch_reach unm ustr reg pfx h w'"
| watch_resync: "watch_reach unm ustr reg pfx h w \<Longrightarrow> range_ok ord \<Longrightarrow> visit_ok visit \<Longrightarrow>
    resp = Inl err \<or> resp = Inr (R, kvs) \<and> snap_of h R kvs \<Longrightarrow>
    resync unm ustr reg ord visit resp w = Ok (w', e) \<Longrightarrow> watch_reach unm ustr reg pfx h w'"

definition watch_inv ::
  "(string \<Rightarrow> go_error + NodeEntry) \<Rightarrow> (ulid \<Rightarrow> string) \<Rightarrow> string \<Rightarrow> etcd_hist \<Rightarrow> watcher \<Rightarrow> bool" where
  "watch_inv unm ustr pfx h w \<longleftrightarrow>
     keyPrefix (w_registry w) = pfx \<and> nodes_wf w \<and> (\<forall>i. tracks_at unm ustr h w i)"

lemma watch_inv_tracks:
  assumes "watch_inv unm ustr pfx h w"
  shows "reg_allNodes (w_registry w) i =
    Option.bind (val_at h (node_key pfx ustr i) (ver w (node_key pfx ustr i))) (entry_of unm)"
  using assms by (auto simp: watch_inv_def tracks_at_def Let_def)

lemma nodes_wf_resync:
  assumes "nodes_wf w" and "resync unm ustr reg ord visit resp w = Ok (w', e)"
  shows "nodes_wf w'"
proof (cases resp)
  case (Inl err)
  then show ?thesis using assms by (simp add: resync_def)
next
  case (Inr p)
  obtain R kvs where p: "p = (R, kvs)" by (cases p)
  define w1 where "w1 = (if R < maxRev w then w\<lparr>versions := Map.empty, maxRev := R\<rparr> else w)"
  obtain w2 where w2: "go_fold (\<lambda>kv. apply_event unm reg ord (put_event kv)) kvs w1 = Ok w2"
    "w' = removeStale ustr reg ord (kv_Key ` set kvs) R (visit (reg_allNodes (w_registry w2))) w2"
    using assms(2) Inr p by (auto simp: resync_def w1_def Let_def go_bind_Ok_iff)
  have "nodes_wf w1" using assms(1) by (simp add: w1_def)
  then have "nodes_wf w2"
    by (rule go_fold_inv [where P = nodes_wf, rotated, OF _ w2(1)]) (rule nodes_wf_apply)
  then show ?thesis
    unfolding w2(2) removeStale_def
    by (intro map_range_inv [where P = nodes_wf])
      (simp_all add: staleEntry_def Let_def nodes_wf_removeNode)
qed

lemma watch_reach_inv:
  assumes u: "ustr_ok ustr" and h: "hist_ok unm ustr pfx h" and "watch_reach unm ustr reg pfx h w"
  shows "watch_inv unm ustr pfx h w"
  using assms(3)
proof (induction rule: watch_reach.induct)
  case (watch_new r)
  then show ?case
    using val_at_0 [OF h] by (simp add: watch_inv_def nodes_wf_def tracks_at_def ver_def)
next
  case (watch_event w ord ev w')
  then have pfx: "keyPrefix (w_registry w) = pfx" by (simp add: watch_inv_def)
  obtain w1 where "apply_event unm reg ord ev w = Ok w1" "keyPrefix (w_registry w1) = pfx"
    "\<And>i. tracks_at unm ustr h w i \<Longrightarrow> tracks_at unm ustr h w1 i"
    using apply_event_step [OF u h watch_event(3) pfx, of reg ord] by blast
  then show ?case
    using watch_event nodes_wf_apply [of w unm reg ord ev w'] by (simp add: watch_inv_def)
next
  case (watch_resync w ord visit resp err R kvs w' e)
  then have inv: "keyPrefix (w_registry w) = pfx" "nodes_wf w" "\<forall>i. tracks_at unm ustr h w i"
    by (simp_all add: watch_inv_def)
  from watch_resync(4) show ?case
  proof
    assume "resp = Inl err"
    then show ?thesis using watch_resync by (simp add: resync_def)
  next
    assume r: "resp = Inr (R, kvs) \<and> snap_of h R kvs"
    obtain w1 where "resync unm ustr reg ord visit (Inr (R, kvs)) w = Ok (w1, None)"
      "keyPrefix (w_registry w1) = pfx" "\<forall>i. tracks_at unm ustr h w1 i"
      using resync_step [OF u h inv(1) watch_resync(3) inv(2,3), of R kvs reg ord] r by blast
    then show ?thesis
      using watch_resync(5) nodes_wf_resync [OF inv(2) watch_resync(5)] r by (simp add: watch_inv_def)
  qed
qed

text \<open>The periodic synchronisation keeps the watcher among the states it can reach.\<close>

lemma resync_loop_reach:
  "watch_reach unm ustr reg pfx h w \<Longrightarrow> range_ok ord \<Longrightarrow> visit_ok visit \<Longrightarrow>
   (\<And>R kvs. ResyncTick (Inr (R, kvs)) \<in> set is \<Longrightarrow> snap_of h R kvs) \<Longrightarrow>
   resync_loop (resync unm ustr reg ord visit) is w = Ok w' \<Longrightarrow> watch_reach unm ustr reg pfx h w'"
proof (induction "resync unm ustr reg ord visit" "is" w rule: resync_loop.induct)
  case (3 resp "is" w)
  obtain w1 e where w1: "resync unm ustr reg ord visit resp w = Ok (w1, e)"
    "resync_loop (resync unm ustr reg ord visit) is w1 = Ok w'"
    using 3(6) by (auto simp: go_bind_Ok_iff)
  have "watch_reach unm ustr reg pfx h w1"
  proof (cases resp)
    case (Inl err)
    then show ?thesis using watch_resync [OF 3(2-4) _ w1(1)] by simp
  next
    case (Inr p)
    then obtain R kvs where "resp = Inr (R, kvs)" by (cases p) simp
    then show ?thesis using watch_resync [OF 3(2-4) _ w1(1), of EOF R kvs] 3(5) by simp
  qed
  then show ?case using 3(1) [OF _ 3(3,4) _ w1(2)] 3(5) by simp
qed simp_all

section \<open>What has been reported\<close>

text \<open>
  The revisions of a key that were reported to the watcher since it last found etcd rolled
  back: those of its events, those of its pairs in a snapshot, and the snapshot's own revision
  when it shows that a known node is gone.
\<close>

type_synonym reported = "string \<Rightarrow> int set"

definition told_event :: "etcd_Event \<Rightarrow> reported \<Rightarrow> reported" where
  "told_event ev told = told(kv_Key (ev_Kv ev) := insert (kv_ModRevision (ev_Kv ev)) (told (kv_Key (ev_Kv ev))))"

definition told_sync :: "(ulid \<Rightarrow> string) \<Rightarrow> string \<Rightarrow> int \<Rightarrow> KeyValue list \<Rightarrow> watcher \<Rightarrow> reported \<Rightarrow> reported" where
  "told_sync ustr pfx R kvs w told k =
     (if R < maxRev w then {} else told k) \<union> {kv_ModRevision kv | kv. kv \<in> set kvs \<and> kv_Key kv = k} \<union>
     {R | i. reg_allNodes (w_registry w) i \<noteq> None \<and> node_key pfx ustr i = k \<and> k \<notin> kv_Key ` set kvs}"

inductive watch_told ::
  "(string \<Rightarrow> go_error + NodeEntry) \<Rightarrow> (ulid \<Rightarrow> string) \<Rightarrow> (string \<rightharpoonup> BalancerFactory) \<Rightarrow> string \<Rightarrow>
   etcd_hist \<Rightarrow> reported \<Rightarrow> watcher \<Rightarrow> bool"
  for unm ustr reg pfx h where
  told_new: "keyPrefix r = pfx \<Longrightarrow> reg_allNodes r = Map.empty \<Longrightarrow> reg_resolver r = newGRPCResolver \<Longrightarrow>
    watch_told unm ustr reg pfx h (\<lambda>_. {}) \<lparr>w_registry = r, versions = Map.empty, maxRev = 0, w_events = []\<rparr>"
| told_hears: "watch_told unm ustr reg pfx h told w \<Longrightarrow> range_ok ord \<Longrightarrow> ev_ok h ev \<Longrightarrow>
    apply_event unm reg ord ev w = Ok w' \<Longrightarrow> watch_told unm ustr reg pfx h (told_event ev told) w'"
| told_syncs: "watch_told unm ustr reg pfx h told w \<Longrightarrow> range_ok ord \<Longrightarrow> visit_ok visit \<Longrightarrow> snap_of h R kvs \<Longrightarrow>
    resync unm ustr reg ord visit (Inr (R, kvs)) w = Ok (w', e) \<Longrightarrow>
    watch_told unm ustr reg pfx h (told_sync ustr pfx R kvs w told) w'"
| told_fails: "watch_told unm ustr reg pfx h told w \<Longrightarrow> range_ok ord \<Longrightarrow> visit_ok visit \<Longrightarrow>
    resync unm ustr reg ord visit (Inl err) w = Ok (w', e) \<Longrightarrow> watch_told unm ustr reg pfx h told w'"

lemma watch_told_reach: "watch_told unm ustr reg pfx h told w \<Longrightarrow> watch_reach unm ustr reg pfx h w"
  by (induction rule: watch_told.induct) (auto intro: watch_reach.intros)

text \<open>Of a known node, no revision is recorded that no event had.\<close>

definition known_le :: "(ulid \<Rightarrow> string) \<Rightarrow> string \<Rightarrow> watcher \<Rightarrow> bool" where
  "known_le ustr pfx w \<longleftrightarrow> (\<forall>i v. reg_allNodes (w_registry w) i \<noteq> None \<longrightarrow>
     versions w (node_key pfx ustr i) = Some v \<longrightarrow> v \<le> maxRev w)"

lemma apply_event_effect:
  assumes u: "ustr_ok ustr" and h: "hist_ok unm ustr pfx h" and ev: "ev_ok h ev"
    and run: "apply_event unm reg ord ev w = Ok w'"
  shows "maxRev w' = max (kv_ModRevision (ev_Kv ev)) (maxRev w)"
    and "node_key pfx ustr i \<noteq> kv_Key (ev_Kv ev) \<Longrightarrow> reg_allNodes (w_registry w') i = reg_allNodes (w_registry w) i"
    and "versions w' = (if stale w ev then versions w
      else (versions w)(kv_Key (ev_Kv ev) \<mapsto> kv_ModRevision (ev_Kv ev)))"
    and "stale w ev \<Longrightarrow> reg_allNodes (w_registry w') = reg_allNodes (w_registry w)"
proof -
  have "maxRev w' = max (kv_ModRevision (ev_Kv ev)) (maxRev w) \<and>
    (node_key pfx ustr i \<noteq> kv_Key (ev_Kv ev) \<longrightarrow> reg_allNodes (w_registry w') i = reg_allNodes (w_registry w) i) \<and>
    versions w' = (if stale w ev then versions w else (versions w)(kv_Key (ev_Kv ev) \<mapsto> kv_ModRevision (ev_Kv ev))) \<and>
    (stale w ev \<longrightarrow> reg_allNodes (w_registry w') = reg_allNodes (w_registry w))"
  proof (cases "stale w ev")
    case True
    then show ?thesis using run by (auto simp: apply_event_stale)
  next
    case False
    show ?thesis
      by (cases rule: apply_event_fresh [OF False ev h, of reg ord]) (use run False in auto)
  qed
  then show "maxRev w' = max (kv_ModRevision (ev_Kv ev)) (maxRev w)"
    "node_key pfx ustr i \<noteq> kv_Key (ev_Kv ev) \<Longrightarrow> reg_allNodes (w_registry w') i = reg_allNodes (w_registry w) i"
    "versions w' = (if stale w ev then versions w else (versions w)(kv_Key (ev_Kv ev) \<mapsto> kv_ModRevision (ev_Kv ev)))"
    "stale w ev \<Longrightarrow> reg_allNodes (w_registry w') = reg_allNodes (w_registry w)"
    by blast+
qed

lemma known_le_apply:
  assumes "ustr_ok ustr" and "hist_ok unm ustr pfx h" and "ev_ok h ev"
    and "known_le ustr pfx w" and "apply_event unm reg ord ev w = Ok w'"
  shows "known_le ustr pfx w'"
  unfolding known_le_def
proof (intro allI impI)
  fix i v
  note eff = apply_event_effect [OF assms(1-3,5)]
  assume n: "reg_allNodes (w_registry w') i \<noteq> None" and v: "versions w' (node_key pfx ustr i) = Some v"
  show "v \<le> maxRev w'"
  proof (cases "\<not> stale w ev \<and> node_key pfx ustr i = kv_Key (ev_Kv ev)")
    case True
    then show ?thesis using v eff(1,3) by simp
  next
    case False
    then have "reg_allNodes (w_registry w) i \<noteq> None" "versions w (node_key pfx ustr i) = Some v"
      using n v eff(2) [of i] eff(3,4) by (metis fun_upd_apply)+
    then have "v \<le> maxRev w" using assms(4) by (simp add: known_le_def)
    then show ?thesis using eff(1) by simp
  qed
qed

lemma removeStale_maxRev: "maxRev (removeStale ustr reg ord ex R ks w) = maxRev w"
  unfolding removeStale_def by (rule map_range_inv [where P = "\<lambda>s. maxRev s = maxRev w"]) (simp_all add: staleEntry_def Let_def)

text \<open>The first loop of \<open>resync\<close> lowers no recorded revision and concerns the nodes of its pairs only.\<close>

lemma put_post_grows:
  assumes h: "hist_ok unm ustr pfx h" and post: "put_post unm ustr pfx h kvs w w'"
    and mem: "\<forall>kv \<in> set kvs. (kv_ModRevision kv, kv_Key kv, Some (kv_Value kv)) \<in> set h"
  shows "ver w k \<le> ver w' k"
proof (cases "versions w k")
  case None
  show ?thesis
  proof (cases "versions w' k")
    case (Some v)
    then have "versions w k = Some v \<or> (\<exists>kv \<in> set kvs. kv_Key kv = k \<and> v = kv_ModRevision kv)"
      using post by (simp add: put_post_def)
    then obtain kv where "kv \<in> set kvs" "v = kv_ModRevision kv" using None by auto
    then have "0 < v" using mem hist_ok_pos [OF h] by blast
    then show ?thesis using Some None by (simp add: ver_def)
  qed (use None in \<open>simp add: ver_def\<close>)
next
  case (Some v)
  then show ?thesis using post by (simp add: put_post_def)
qed

lemma put_fold_effect:
  assumes u: "ustr_ok ustr" and h: "hist_ok unm ustr pfx h"
    and ok: "\<And>kv. kv \<in> set kvs \<Longrightarrow> ev_ok h (put_event kv)"
    and run: "go_fold (\<lambda>kv. apply_event unm reg ord (put_event kv)) kvs w = Ok w'"
  shows "known_le ustr pfx w \<Longrightarrow> known_le ustr pfx w'" and "nodes_wf w \<Longrightarrow> nodes_wf w'"
    and "node_key pfx ustr i \<notin> kv_Key ` set kvs \<Longrightarrow> reg_allNodes (w_registry w') i = reg_allNodes (w_registry w) i"
proof -
  show "known_le ustr pfx w'" if "known_le ustr pfx w"
    by (rule go_fold_inv [where P = "known_le ustr pfx", OF _ that run]) (rule known_le_apply [OF u h ok])
  show "nodes_wf w'" if "nodes_wf w"
    by (rule go_fold_inv [where P = nodes_wf, OF _ that run]) (rule nodes_wf_apply)
  assume i: "node_key pfx ustr i \<notin> kv_Key ` set kvs"
  show "reg_allNodes (w_registry w') i = reg_allNodes (w_registry w) i"
  proof (rule go_fold_inv [where P = "\<lambda>s. reg_allNodes (w_registry s) i = reg_allNodes (w_registry w) i", OF _ _ run])
    fix kv s s'
    assume "kv \<in> set kvs" "reg_allNodes (w_registry s) i = reg_allNodes (w_registry w) i" "apply_event unm reg ord (put_event kv) s = Ok s'"
    then show "reg_allNodes (w_registry s') i = reg_allNodes (w_registry w) i"
      using apply_event_effect(2) [OF u h ok, of kv reg ord s s' i] i by auto
  qed simp
qed

lemma told_sync_source:
  assumes "ustr_ok ustr" and "r \<in> told_sync ustr pfx R kvs w told (node_key pfx ustr i)"
  obtains "\<not> R < maxRev w" "r \<in> told (node_key pfx ustr i)"
    | kv where "kv \<in> set kvs" "kv_Key kv = node_key pfx ustr i" "r = kv_ModRevision kv"
    | "r = R" "reg_allNodes (w_registry w) i \<noteq> None" "node_key pfx ustr i \<notin> kv_Key ` set kvs"
  using assms(2) node_key_inj [OF assms(1), of pfx] by (auto simp: told_sync_def split: if_splits)

text \<open>A full synchronisation records what it reports and forgets nothing, unless it finds a rollback.\<close>

lemma resync_reports:
  assumes u: "ustr_ok ustr" and h: "hist_ok unm ustr pfx h" and inv: "watch_inv unm ustr pfx h w" and le: "known_le ustr pfx w"
    and v: "visit_ok visit" and snap: "snap_of h R kvs" and run: "resync unm ustr reg ord visit (Inr (R, kvs)) w = Ok (w', e)"
    and told: "\<And>i r. r \<in> told (node_key pfx ustr i) \<Longrightarrow> r \<le> ver w (node_key pfx ustr i)"
  shows "known_le ustr pfx w'" and "r \<in> told_sync ustr pfx R kvs w told (node_key pfx ustr i) \<Longrightarrow> r \<le> ver w' (node_key pfx ustr i)"
proof -
  let ?E = "kv_Key ` set kvs" and ?k = "node_key pfx ustr i"
  have pfx: "keyPrefix (w_registry w) = pfx" "nodes_wf w" "\<forall>i. tracks_at unm ustr h w i"
    using inv by (simp_all add: watch_inv_def)
  define w1 where "w1 = (if R < maxRev w then w\<lparr>versions := Map.empty, maxRev := R\<rparr> else w)"
  note w1 = resync_cleared [OF pfx, of R, folded w1_def]
  have mem: "\<forall>kv \<in> set kvs. (kv_ModRevision kv, kv_Key kv, Some (kv_Value kv)) \<in> set h"
    using snap by (simp add: snap_of_def)
  obtain w2 where run2: "go_fold (\<lambda>kv. apply_event unm reg ord (put_event kv)) kvs w1 = Ok w2"
    and post: "put_post unm ustr pfx h kvs w1 w2"
    using put_loop [OF u h w1(1) mem w1(3), of reg ord] by blast
  have "ev_ok h (put_event kv)" if "kv \<in> set kvs" for kv using mem that by simp
  note fold = put_fold_effect [OF u h this run2]
  have le2: "known_le ustr pfx w2" using fold(1) le by (simp add: known_le_def w1_def)
  have same: "reg_allNodes (w_registry w2) i = reg_allNodes (w_registry w) i" if "?k \<notin> ?E"
    using fold(3) [OF _ that] by (simp add: w1_def)
  have pfx2: "keyPrefix (w_registry w2) = pfx" using post by (simp add: put_post_def)
  have w': "w' = removeStale ustr reg ord ?E R (visit (reg_allNodes (w_registry w2))) w2"
    using run run2 by (simp add: resync_def w1_def Let_def)
  note eff = removeStale_effect [OF u pfx2 v fold(2) [OF _ w1(2)], of reg ord ?E R, folded w']
  show "known_le ustr pfx w'"
    using le2 eff(2,3) removeStale_maxRev [of ustr reg ord ?E R "visit (reg_allNodes (w_registry w2))" w2, folded w']
    by (auto simp: known_le_def split: if_splits)
  have gone: "ver w' ?k = R" if "reg_allNodes (w_registry w) i \<noteq> None" "?k \<notin> ?E"
    using that same eff(3) [of i] by (simp add: ver_def)
  have kept: "ver w' ?k = ver w2 ?k" if "reg_allNodes (w_registry w) i = None \<or> ?k \<in> ?E"
    using that same eff(3) [of i] by (auto simp: ver_def)
  have old: "ver w ?k \<le> ver w' ?k" if "\<not> R < maxRev w"
  proof (cases "reg_allNodes (w_registry w) i = None \<or> ?k \<in> ?E")
    case True
    then show ?thesis using kept put_post_grows [OF h post mem, of ?k] that by (simp add: w1_def)
  next
    case False
    then have "versions w ?k \<noteq> None"
      using watch_inv_tracks [OF inv, of i] val_at_0 [OF h] by (cases "versions w ?k") (auto simp: ver_def)
    then have "ver w ?k \<le> maxRev w" using le False by (auto simp: known_le_def ver_def)
    then show ?thesis using gone False that by simp
  qed
  assume r: "r \<in> told_sync ustr pfx R kvs w told ?k"
  from u r show "r \<le> ver w' ?k"
  proof (cases rule: told_sync_source)
    case 1
    then show ?thesis using told [of r i] old by simp
  next
    case (2 kv)
    then have "?k \<in> ?E" by (metis image_eqI)
    then show ?thesis using 2 kept post by (auto simp: put_post_def)
  next
    case 3
    then show ?thesis using gone by simp
  qed
qed

lemma watch_told_inv:
  assumes u: "ustr_ok ustr" and h: "hist_ok unm ustr pfx h" and "watch_told unm ustr reg pfx h told w"
  shows "known_le ustr pfx w \<and> (\<forall>i. \<forall>r \<in> told (node_key pfx ustr i). r \<le> ver w (node_key pfx ustr i))"
  using assms(3)
proof (induction rule: watch_told.induct)
  case (told_new r)
  then show ?case by (simp add: known_le_def)
next
  case (told_hears told w ord ev w')
  note eff = apply_event_effect [OF u h told_hears(3,4)]
  have "known_le ustr pfx w'" using known_le_apply [OF u h told_hears(3) _ told_hears(4)] told_hears(5) by blast
  moreover have "r \<le> ver w' (node_key pfx ustr i)" if r: "r \<in> told_event ev told (node_key pfx ustr i)" for i r
  proof -
    have "0 < kv_ModRevision (ev_Kv ev)"
      using told_hears(3) hist_ok_pos [OF h] by (auto simp: ev_ok_def split: event_type.splits)
    then have new: "kv_ModRevision (ev_Kv ev) \<le> ver w' (kv_Key (ev_Kv ev))" and mono: "ver w k \<le> ver w' k" for k
      using eff(3) by (auto simp: ver_def stale_def split: option.splits)
    have "r \<in> told (node_key pfx ustr i) \<or> r = kv_ModRevision (ev_Kv ev) \<and> node_key pfx ustr i = kv_Key (ev_Kv ev)"
      using r by (auto simp: told_event_def split: if_splits)
    then show ?thesis using told_hears(5) new order_trans [OF _ mono] by auto
  qed
  ultimately show ?case by blast
next
  case (told_syncs told w ord visit R kvs w' e)
  note inv = watch_reach_inv [OF u h watch_told_reach [OF told_syncs(1)]]
  show ?case
    using resync_reports [OF u h inv _ told_syncs(3,4,5)] told_syncs(6) by blast
next
  case (told_fails told w ord visit err w' e)
  then show ?case by (simp add: resync_def)
qed

section \<open>The resolver follows the registry\<close>

text \<open>A node offers the same services in every entry it writes.\<close>

definition svc_hist ::
  "(ulid \<Rightarrow> int set) \<Rightarrow> (string \<Rightarrow> go_error + NodeEntry) \<Rightarrow> etcd_hist \<Rightarrow> bool" where
  "svc_hist svc unm h \<longleftrightarrow>
     (\<forall>r k x e. (r, k, Some x) \<in> set h \<longrightarrow> unm x = Inr e \<longrightarrow> codes_of e = svc (ID e))"

definition with_services :: "NodeEntry option \<Rightarrow> NodeEntry option" where
  "with_services n = (case n of None \<Rightarrow> None | Some e \<Rightarrow> if Services (GRPC e) = [] then None else Some e)"

definition linked :: "(ulid \<Rightarrow> int set) \<Rightarrow> (string \<rightharpoonup> BalancerFactory) \<Rightarrow> watcher \<Rightarrow> bool" where
  "linked svc reg w \<longleftrightarrow>
     resolver_reach reg (reg_resolver (w_registry w)) \<and>
     (\<forall>i. allNodes (reg_resolver (w_registry w)) i = with_services (reg_allNodes (w_registry w) i)) \<and>
     (\<forall>i e. reg_allNodes (w_registry w) i = Some e \<longrightarrow> codes_of e = svc i)"

lemma resolver_Update_allNodes:
  "allNodes (resolver_Update reg ord e r) =
     (if Services (GRPC e) = [] then allNodes r else (allNodes r)(ID e \<mapsto> e))"
  by (simp add: resolver_Update_def Let_def)

lemma resolver_Remove_allNodes:
  "allNodes (resolver_Remove reg ord e r) =
     (if Services (GRPC e) = [] then allNodes r else (allNodes r)(ID e := None))"
  by (simp add: resolver_Remove_def Let_def)

lemma codes_of_empty: "codes_of e = {} \<longleftrightarrow> Services (GRPC e) = []"
  by (simp add: codes_of_def)

lemma linked_keeps:
  assumes "linked svc reg w" and "codes_of e = svc (ID e)"
  shows "keeps_codes (reg_resolver (w_registry w)) e"
  using assms by (auto simp: linked_def keeps_codes_def with_services_def split: option.splits if_splits)

lemma linked_empty:
  assumes "linked svc reg w" and "codes_of e = svc (ID e)" and "Services (GRPC e) = []"
  shows "allNodes (reg_resolver (w_registry w)) (ID e) = None"
proof (cases "reg_allNodes (w_registry w) (ID e)")
  case None
  then show ?thesis using assms(1) by (simp add: linked_def with_services_def)
next
  case (Some e')
  then have "codes_of e' = {}" using assms codes_of_empty [of e] by (simp add: linked_def)
  then show ?thesis using Some assms(1) by (simp add: linked_def with_services_def codes_of_empty)
qed

lemma linked_putNode:
  assumes "range_ok ord" and "linked svc reg w" and "codes_of e = svc (ID e)"
  shows "linked svc reg (putNode reg ord e w)"
proof -
  have "resolver_reach reg (resolver_Update reg ord e (reg_resolver (w_registry w)))"
    using assms(1,2) linked_keeps [OF assms(2,3)] by (intro reach_Update) (simp_all add: linked_def)
  then show ?thesis
    using assms linked_empty [OF assms(2,3)]
    by (auto simp: linked_def resolver_Update_allNodes with_services_def)
qed

lemma linked_removeNode:
  assumes "range_ok ord" and "linked svc reg w" and "codes_of e = svc (ID e)"
  shows "linked svc reg (removeNode reg ord e w)"
proof -
  have "resolver_reach reg (resolver_Remove reg ord e (reg_resolver (w_registry w)))"
    using assms(1,2) linked_keeps [OF assms(2,3)] by (intro reach_Remove) (simp_all add: linked_def)
  then show ?thesis
    using assms linked_empty [OF assms(2,3)]
    by (auto simp: linked_def resolver_Remove_allNodes with_services_def)
qed

lemma linked_simps [simp]:
  "linked svc reg (w\<lparr>versions := v\<rparr>) = linked svc reg w" "linked svc reg (w\<lparr>maxRev := r\<rparr>) = linked svc reg w"
  "linked svc reg (bump w r) = linked svc reg w"
  by (simp_all add: linked_def)

lemma linked_apply:
  assumes "hist_ok unm ustr pfx h" and "svc_hist svc unm h" and "range_ok ord" and "ev_ok h ev"
    and "linked svc reg w" and "apply_event unm reg ord ev w = Ok w'"
  shows "linked svc reg w'"
proof -
  have put: "codes_of e = svc (ID e)"
    if "ev_Type ev = PUT" "unm (kv_Value (ev_Kv ev)) = Inr e" for e
    using that assms(2,4) by (auto simp: ev_ok_def svc_hist_def)
  have del: "codes_of e = svc (ID e)"
    if "ev_Type ev = DELETE" "ev_PrevKv ev = Some kv" "unm (kv_Value kv) = Inr e" for e kv
    using that assms(2,4) by (auto simp: ev_ok_def svc_hist_def)
  show ?thesis
    using assms(3,5,6) put del unfolding apply_event_def Let_def bump_def [symmetric]
    by (auto simp: linked_putNode linked_removeNode
        split: if_splits option.splits sum.splits event_type.splits)
qed

lemma linked_removeStale:
  assumes "range_ok ord" and "linked svc reg w" and "nodes_wf w"
  shows "linked svc reg (removeStale ustr reg ord existing R ks w)"
  unfolding removeStale_def
proof (rule map_range_inv [where P = "linked svc reg"])
  fix i e s
  assume "reg_allNodes (w_registry w) i = Some e" and s: "linked svc reg s"
  then have "codes_of e = svc (ID e)" using assms(2,3) by (auto simp: linked_def nodes_wf_def)
  then show "linked svc reg (fst (staleEntry ustr reg ord existing R e s, True))"
    using assms(1) s by (simp add: staleEntry_def Let_def linked_removeNode)
qed (rule assms(2))

lemma linked_resync:
  assumes h: "hist_ok unm ustr pfx h" and svc: "svc_hist svc unm h" and ord: "range_ok ord"
    and snap: "snap_of h R kvs" and w: "linked svc reg w" "nodes_wf w"
    and run: "resync unm ustr reg ord visit (Inr (R, kvs)) w = Ok (w', e)"
  shows "linked svc reg w'"
proof -
  define w1 where "w1 = (if R < maxRev w then w\<lparr>versions := Map.empty, maxRev := R\<rparr> else w)"
  obtain w2 where w2: "go_fold (\<lambda>kv. apply_event unm reg ord (put_event kv)) kvs w1 = Ok w2"
    "w' = removeStale ustr reg ord (kv_Key ` set kvs) R (visit (reg_allNodes (w_registry w2))) w2"
    using run by (auto simp: resync_def w1_def Let_def go_bind_Ok_iff)
  have "linked svc reg w1 \<and> nodes_wf w1" using w by (simp add: w1_def)
  then have "linked svc reg w2 \<and> nodes_wf w2"
  proof (rule go_fold_inv [where P = "\<lambda>w. linked svc reg w \<and> nodes_wf w", rotated, OF _ w2(1)])
    fix kv s s'
    assume kv: "kv \<in> set kvs" and s: "linked svc reg s \<and> nodes_wf s"
      and step: "apply_event unm reg ord (put_event kv) s = Ok s'"
    have "ev_ok h (put_event kv)" using snap kv by (simp add: snap_of_def)
    then show "linked svc reg s' \<and> nodes_wf s'"
      using linked_apply [OF h svc ord _ _ step] nodes_wf_apply [OF _ step] s by blast
  qed
  then show ?thesis unfolding w2(2) using ord by (intro linked_removeStale) simp_all
qed

lemma watch_reach_linked:
  assumes u: "ustr_ok ustr" and h: "hist_ok unm ustr pfx h" and svc: "svc_hist svc unm h"
    and "watch_reach unm ustr reg pfx h w"
  shows "linked svc reg w"
  using assms(4)
proof (induction rule: watch_reach.induct)
  case (watch_new r)
  then show ?case by (simp add: linked_def with_services_def reach_new) (simp add: newGRPCResolver_def)
next
  case (watch_event w ord ev w')
  then show ?case using linked_apply [OF h svc] by blast
next
  case (watch_resync w ord visit resp err R kvs w' e)
  have wf: "nodes_wf w" using watch_reach_inv [OF u h watch_resync(1)] by (simp add: watch_inv_def)
  show ?case
    using watch_resync linked_resync [OF h svc watch_resync(2) _ _ wf] by (auto simp: resync_def)
qed

section \<open>The watch loop\<close>

definition is_failure :: "watch_input \<Rightarrow> bool" where
  "is_failure i \<longleftrightarrow> (\<exists>err. watch_error i = Some err \<and> \<not> errors_Is err CtxCanceled)"

lemma watch_loop_panic:
  assumes keep: "\<And>evs c w w'. handle evs c w = Ok w' \<Longrightarrow>
      watchRetryMax (w_registry w') = watchRetryMax (w_registry w)"
    and noerr: "\<And>evs c w e. handle evs c w \<noteq> Error e"
    and "watch_loop handle n is w = (w', WatchPanic e)" and "0 \<le> n" and "n \<le> watchRetryMax (w_registry w)"
  shows "\<exists>pre fs post. is = pre @ fs @ post \<and> (\<forall>i \<in> set fs. is_failure i) \<and>
    (int (length fs) = watchRetryMax (w_registry w) + 1 \<or>
     pre = [] \<and> n + int (length fs) = watchRetryMax (w_registry w) + 1)"
  using assms(3-5)
proof (induction "is" arbitrary: n w)
  case (Cons i "is")
  show ?case
  proof (cases "watch_error i")
    case None
    then obtain c evs where i: "i = WatchResp c evs"
      by (cases i) (auto simp: watch_error_def)
    then obtain w1 where w1: "handle evs c w = Ok w1" "watch_loop handle 0 is w1 = (w', WatchPanic e)"
      using Cons.prems(1) None noerr by (auto split: go.splits)
    have "0 \<le> watchRetryMax (w_registry w1)" using Cons.prems(2,3) keep [OF w1(1)] by simp
    from Cons.IH [OF w1(2) _ this] obtain pre fs post where
      "is = pre @ fs @ post" "\<forall>i \<in> set fs. is_failure i"
      "int (length fs) = watchRetryMax (w_registry w) + 1"
      using keep [OF w1(1)] by auto
    then show ?thesis by (intro exI [of _ "i # pre"] exI [of _ fs] exI [of _ post]) simp
  next
    case (Some err)
    then have nc: "\<not> errors_Is err CtxCanceled"
      using Cons.prems(1) by (auto simp: watch_failed_def)
    then have fi: "is_failure i" using Some by (simp add: is_failure_def)
    show ?thesis
    proof (cases "n \<ge> watchRetryMax (w_registry w)")
      case True
      then show ?thesis
        using fi Cons.prems(3) by (intro exI [of _ "[]"] exI [of _ "[i]"] exI [of _ "is"]) simp
    next
      case False
      then have "watch_loop handle (n + 1) is w = (w', WatchPanic e)"
        using Some nc Cons.prems(1) by (simp add: watch_failed_def)
      from Cons.IH [OF this] Cons.prems(2) False obtain pre fs post where
        *: "is = pre @ fs @ post" "\<forall>i \<in> set fs. is_failure i"
        "int (length fs) = watchRetryMax (w_registry w) + 1 \<or>
          pre = [] \<and> n + 1 + int (length fs) = watchRetryMax (w_registry w) + 1"
        by auto
      from *(3) show ?thesis
      proof
        assume "int (length fs) = watchRetryMax (w_registry w) + 1"
        then show ?thesis using * by (intro exI [of _ "i # pre"] exI [of _ fs] exI [of _ post]) simp
      next
        assume "pre = [] \<and> n + 1 + int (length fs) = watchRetryMax (w_registry w) + 1"
        then show ?thesis using * fi by (intro exI [of _ "[]"] exI [of _ "i # fs"] exI [of _ post]) simp
      qed
    qed
  qed
qed simp

section \<open>Properties\<close>

subsection \<open>A concrete cluster\<close>

text \<open>An injective text for ids, one node that was put at revision 5, and its watcher.\<close>

definition demo_ustr :: "ulid \<Rightarrow> string" where
  "demo_ustr i = replicate (unat (ulid_Time i)) (CHR ''0'') @ CHR ''-'' # replicate (unat (ulid_Entropy i)) (CHR ''0'')"

lemma demo_ustr_ok: "ustr_ok demo_ustr"
proof -
  have tw: "takeWhile (\<lambda>c. c \<noteq> CHR ''-'') (demo_ustr i) = replicate (unat (ulid_Time i)) (CHR ''0'')" for i
    unfolding demo_ustr_def by (subst takeWhile_append2) auto
  have len: "length (demo_ustr i) = unat (ulid_Time i) + 1 + unat (ulid_Entropy i)" for i
    by (simp add: demo_ustr_def)
  have "i = j" if "demo_ustr i = demo_ustr j" for i j
  proof -
    have "unat (ulid_Time i) = unat (ulid_Time j)" using tw [of i] tw [of j] that by (metis length_replicate)
    moreover from this have "unat (ulid_Entropy i) = unat (ulid_Entropy j)"
      using len [of i] len [of j] that by simp
    ultimately show ?thesis by (cases i; cases j) (simp add: word_unat_eq_iff)
  qed
  moreover have "CHR ''-'' \<in> set (demo_ustr i)" for i by (simp add: demo_ustr_def)
  then have ne: "demo_ustr i \<noteq> s" if "CHR ''-'' \<notin> set s" for i s using that by auto
  have "demo_ustr i \<noteq> [] \<and> demo_ustr i \<noteq> ''.'' \<and> demo_ustr i \<noteq> ''..''" for i
    by (intro conjI ne) simp_all
  ultimately show ?thesis by (auto simp: ustr_ok_def inj_def demo_ustr_def)
qed

definition demo_unm :: "string \<Rightarrow> go_error + NodeEntry" where
  "demo_unm x = (if x = ''n1'' then Inr (demo_node 1 0 ''random'') else Inl (ErrNew ''invalid json''))"

definition demo_key :: string where
  "demo_key = node_key ''/nodehub/node'' demo_ustr (ULID 1 0)"

definition demo_hist :: etcd_hist where
  "demo_hist = [(5, demo_key, Some ''n1'')]"

lemma demo_hist_ok: "hist_ok demo_unm demo_ustr ''/nodehub/node'' demo_hist"
  by (simp add: hist_ok_def demo_hist_def demo_unm_def demo_key_def)

lemma demo_svc: "svc_hist (\<lambda>_. {7}) demo_unm demo_hist"
  by (auto simp: svc_hist_def demo_hist_def demo_unm_def codes_of_def demo_node_def)

definition demo_kv :: KeyValue where
  "demo_kv = \<lparr>kv_Key = demo_key, kv_Value = ''n1'', kv_ModRevision = 5\<rparr>"

definition demo_w0 :: watcher where
  "demo_w0 = \<lparr>w_registry = default_Registry, versions = Map.empty, maxRev = 0, w_events = []\<rparr>"

definition demo_w1 :: watcher where
  "demo_w1 = putNode registeredBalancer ord_sorted (demo_node 1 0 ''random'')
     (demo_w0\<lparr>maxRev := 5, versions := [demo_key \<mapsto> 5]\<rparr>)"

lemma demo_w0_reach: "watch_reach demo_unm demo_ustr registeredBalancer ''/nodehub/node'' h demo_w0"
  unfolding demo_w0_def by (rule watch_new) (simp_all add: default_Registry_def)

lemma demo_apply:
  "apply_event demo_unm registeredBalancer ord_sorted (put_event demo_kv) demo_w0 = Ok demo_w1"
  by (simp add: apply_event_def put_event_def demo_w0_def demo_w1_def demo_kv_def demo_unm_def)

lemma demo_w1_reach: "watch_reach demo_unm demo_ustr registeredBalancer ''/nodehub/node'' demo_hist demo_w1"
  by (rule watch_event [OF demo_w0_reach ord_sorted_ok _ demo_apply])
    (simp add: demo_kv_def demo_hist_def)

lemma demo_w1_resolver: "reg_resolver (w_registry demo_w1) = demo_resolver"
  by (simp add: demo_w1_def demo_w0_def default_Registry_def demo_resolver_def)

lemma demo_told: "watch_told demo_unm demo_ustr registeredBalancer ''/nodehub/node'' demo_hist (told_event (put_event demo_kv) (\<lambda>_. {})) demo_w1"
  by (rule told_hears [OF _ ord_sorted_ok _ demo_apply])
    (simp_all add: demo_kv_def demo_hist_def demo_w0_def told_new default_Registry_def)

subsection \<open>Following etcd\<close>

text \<open>
  C2. The watcher holds the truth of some revision, and never of an older one than it has been
  told: however events are delayed, repeated, reordered or lost, and whenever full
  synchronisations run, a node is known exactly as its key stood in etcd at the revision
  recorded for the key, and that revision is not older than any that was reported for the
  key since the last rollback of etcd was found. So a late event undoes no newer update that
  was reported and does not bring back a node whose deletion was reported or that a
  synchronisation removed.
\<close>

theorem watcher_tracks_etcd:
  assumes "ustr_ok ustr" and "hist_ok unm ustr pfx h" and "watch_told unm ustr reg pfx h told w"
  shows "reg_allNodes (w_registry w) i =
      Option.bind (val_at h (node_key pfx ustr i) (ver w (node_key pfx ustr i))) (entry_of unm) \<and>
    (\<forall>r \<in> told (node_key pfx ustr i). r \<le> ver w (node_key pfx ustr i))"
  using watch_inv_tracks [OF watch_reach_inv [OF assms(1,2) watch_told_reach [OF assms(3)]]] watch_told_inv [OF assms] by blast

theorem watcher_tracks_etcd_witness:
  "reg_allNodes (w_registry demo_w1) (ULID 1 0) =
   Option.bind (val_at demo_hist demo_key (ver demo_w1 demo_key)) (entry_of demo_unm) \<and> 5 \<le> ver demo_w1 demo_key"
  using watcher_tracks_etcd [OF demo_ustr_ok demo_hist_ok demo_told, of "ULID 1 0"]
  by (simp add: demo_key_def told_event_def demo_kv_def)

text \<open>
  C19. A full synchronisation with the snapshot of revision \<open>R\<close> succeeds and makes the table
  of nodes equal to that snapshot: every live entry is there and every other node is gone.
  This holds whenever no newer revision was recorded for a key, and after a detected
  rollback of etcd, when the recorded revisions are discarded.
\<close>

theorem resync_exact:
  assumes "ustr_ok ustr" and "hist_ok unm ustr pfx h" and "watch_reach unm ustr reg pfx h w"
    and "visit_ok visit" and "snap_of h R kvs"
    and "R < maxRev w \<or> (\<forall>k v. versions w k = Some v \<longrightarrow> v \<le> R)"
  shows "\<exists>w'. resync unm ustr reg ord visit (Inr (R, kvs)) w = Ok (w', None) \<and>
    (\<forall>i. reg_allNodes (w_registry w') i = Option.bind (val_at h (node_key pfx ustr i) R) (entry_of unm))"
proof -
  have inv: "keyPrefix (w_registry w) = pfx" "nodes_wf w" "\<forall>i. tracks_at unm ustr h w i"
    using watch_reach_inv [OF assms(1-3)] by (simp_all add: watch_inv_def)
  from resync_step [OF assms(1,2) inv(1) assms(4) inv(2,3) assms(5), of reg ord] obtain w' where
    "resync unm ustr reg ord visit (Inr (R, kvs)) w = Ok (w', None)"
    "\<forall>i. reg_allNodes (w_registry w') i = Option.bind (val_at h (node_key pfx ustr i) R) (entry_of unm)"
    using assms(6) by metis
  then show ?thesis by blast
qed

theorem resync_exact_witness:
  "\<exists>w'. resync demo_unm demo_ustr registeredBalancer ord_sorted (\<lambda>m. sorted_list_of_set (dom m))
      (Inr (9, [demo_kv])) demo_w0 = Ok (w', None) \<and>
    reg_allNodes (w_registry w') (ULID 1 0) = Some (demo_node 1 0 ''random'')"
proof -
  have "snap_of demo_hist 9 [demo_kv]"
    by (auto simp: snap_of_def demo_hist_def demo_kv_def val_at_def ops_upto_def)
  moreover have "visit_ok (\<lambda>m. sorted_list_of_set (dom m))"
    by (simp add: visit_ok_def enumerates_def)
  ultimately obtain w' where "resync demo_unm demo_ustr registeredBalancer ord_sorted
      (\<lambda>m. sorted_list_of_set (dom m)) (Inr (9, [demo_kv])) demo_w0 = Ok (w', None)"
    "reg_allNodes (w_registry w') (ULID 1 0) =
      Option.bind (val_at demo_hist demo_key 9) (entry_of demo_unm)"
    using resync_exact [OF demo_ustr_ok demo_hist_ok demo_w0_reach,
        of "\<lambda>m. sorted_list_of_set (dom m)" 9 "[demo_kv]" ord_sorted]
    by (auto simp: demo_w0_def demo_key_def)
  then show ?thesis
    by (auto simp: val_at_def ops_upto_def demo_hist_def entry_of_def demo_unm_def)
qed

text \<open>
  C20. Routing follows etcd, where every node offers the same services in all the entries it
  writes: a node allocated for a public service with a positive code is, at the revision
  recorded for its key, registered in etcd with an entry in state \<open>ok\<close> that offers the service.
\<close>

theorem alloc_follows_etcd:
  assumes "ustr_ok ustr" and "hist_ok unm ustr pfx h" and "svc_hist svc unm h" and "registry_ok reg"
    and "watch_reach unm ustr reg pfx h w" and "0 < c" and "rand_ok rnd"
    and "GetGRPCDesc (w_registry w) c = Some d" and "Public d"
    and "AllocGRPCNode xxhash rnd (w_registry w) c sess = Ok i"
  shows "\<exists>x e. val_at h (node_key pfx ustr i) (ver w (node_key pfx ustr i)) = Some x \<and>
    unm x = Inr e \<and> ID e = i \<and> State e = NodeOK \<and> c \<in> codes_of e"
proof -
  have link: "linked svc reg w" by (rule watch_reach_linked [OF assms(1-3,5)])
  then have inv: "resolver_inv reg (reg_resolver (w_registry w))"
    using resolver_reach_inv [OF assms(4)] by (simp add: linked_def)
  obtain e where e: "e \<in> ok_set (reg_resolver (w_registry w)) c" "ID e = i"
    using AllocNode_member [OF assms(4) inv assms(6,7) _ assms(9), of xxhash sess i] assms(8,10)
    by (auto simp: GetGRPCDesc_def GetDesc_def AllocGRPCNode_def)
  have "ids_ok (reg_resolver (w_registry w))" using inv by (simp add: resolver_inv_def)
  from ok_set_node [OF this e(1)] have n: "allNodes (reg_resolver (w_registry w)) i = Some e"
    "State e = NodeOK" "c \<in> codes_of e"
    using e(2) by simp_all
  then have reg: "reg_allNodes (w_registry w) i = Some e"
    using link by (auto simp: linked_def with_services_def split: option.splits if_splits)
  have "watch_inv unm ustr pfx h w" by (rule watch_reach_inv [OF assms(1,2,5)])
  then have "Option.bind (val_at h (node_key pfx ustr i) (ver w (node_key pfx ustr i))) (entry_of unm) = Some e"
    using reg watch_inv_tracks [of unm ustr pfx h w i] by simp
  then obtain x where "val_at h (node_key pfx ustr i) (ver w (node_key pfx ustr i)) = Some x"
    "entry_of unm x = Some e"
    by (cases "val_at h (node_key pfx ustr i) (ver w (node_key pfx ustr i))") auto
  then show ?thesis using n e(2) by (auto simp: entry_of_def split: sum.splits)
qed

theorem alloc_follows_etcd_witness:
  "\<exists>x e. val_at demo_hist demo_key (ver demo_w1 demo_key) = Some x \<and>
    demo_unm x = Inr e \<and> ID e = ULID 1 0 \<and> State e = NodeOK \<and> 7 \<in> codes_of e"
proof -
  obtain d where "services demo_resolver 7 = Some d" "Public d" using demo_resolver_eq(4) by blast
  then show ?thesis
    unfolding demo_key_def
    by (intro alloc_follows_etcd [OF demo_ustr_ok demo_hist_ok demo_svc registeredBalancer_ok demo_w1_reach,
          where rnd = "\<lambda>_. 0" and xxhash = "\<lambda>_. 0" and sess = "\<lparr>view_ID = [], view_RemoteAddr = []\<rparr>" and d = d])
      (simp_all add: rand_ok_def GetGRPCDesc_def GetDesc_def AllocGRPCNode_def AllocNode_def
        demo_w1_resolver demo_resolver_eq)
qed

lemma apply_event_retryMax:
  "apply_event unm reg ord ev w = Ok w' \<Longrightarrow> watchRetryMax (w_registry w') = watchRetryMax (w_registry w)"
  unfolding apply_event_def Let_def bump_def [symmetric]
  by (auto split: if_splits option.splits sum.splits event_type.splits)

lemma apply_event_not_Error: "apply_event unm reg ord ev w \<noteq> Error e"
  by (simp add: apply_event_def Let_def split: option.splits sum.splits event_type.splits)

lemma staleEntry_retryMax:
  "watchRetryMax (w_registry (staleEntry ustr reg ord ex R e w)) = watchRetryMax (w_registry w)"
  by (simp add: staleEntry_def Let_def)

lemma go_fold_not_Error: "(\<And>x s e. f x s \<noteq> Error e) \<Longrightarrow> go_fold f xs s \<noteq> Error e"
proof (induction xs arbitrary: s)
  case (Cons x xs)
  then show ?case by (cases "f x s") auto
qed simp

lemma resync_retryMax:
  assumes "resync unm ustr reg ord visit resp w = Ok (w', e)"
  shows "watchRetryMax (w_registry w') = watchRetryMax (w_registry w)"
proof (cases resp)
  case (Inl err)
  then show ?thesis using assms by (simp add: resync_def)
next
  case (Inr p)
  obtain R kvs where p: "p = (R, kvs)" by (cases p)
  define w1 where "w1 = (if R < maxRev w then w\<lparr>versions := Map.empty, maxRev := R\<rparr> else w)"
  let ?P = "\<lambda>v. watchRetryMax (w_registry v) = watchRetryMax (w_registry w)"
  obtain w2 where w2: "go_fold (\<lambda>kv. apply_event unm reg ord (put_event kv)) kvs w1 = Ok w2"
    "w' = removeStale ustr reg ord (kv_Key ` set kvs) R (visit (reg_allNodes (w_registry w2))) w2"
    using assms Inr p by (auto simp: resync_def w1_def Let_def go_bind_Ok_iff)
  have "?P w1" by (simp add: w1_def)
  then have "?P w2"
    by (rule go_fold_inv [where P = ?P, rotated, OF _ w2(1)]) (use apply_event_retryMax in metis)
  then show ?thesis
    unfolding w2(2) removeStale_def
    by (rule map_range_inv [where P = ?P, rotated]) (simp add: staleEntry_retryMax)
qed

lemma resync_not_Error: "resync unm ustr reg ord visit resp w \<noteq> Error e"
proof -
  have "go_fold (\<lambda>kv. apply_event unm reg ord (put_event kv)) kvs v \<noteq> Error e" for kvs v
    by (rule go_fold_not_Error) (rule apply_event_not_Error)
  then have "go_bind (go_fold (\<lambda>kv. apply_event unm reg ord (put_event kv)) kvs v) (\<lambda>w. Ok (f w)) \<noteq> Error e"
    for kvs v and f :: "watcher \<Rightarrow> watcher \<times> go_error option"
    by (cases "go_fold (\<lambda>kv. apply_event unm reg ord (put_event kv)) kvs v") auto
  then show ?thesis by (simp add: resync_def Let_def split: sum.splits prod.splits)
qed

lemma handle_resp_keep:
  assumes "handle_resp unm ustr reg ord visit c evs w = Ok w'"
  shows "watchRetryMax (w_registry w') = watchRetryMax (w_registry w)"
proof -
  let ?P = "\<lambda>v. watchRetryMax (w_registry v) = watchRetryMax (w_registry w)"
  obtain w1 where w1: "?P w1" "go_fold (handle_event unm reg ord) evs w1 = Ok w'"
    using assms resync_retryMax by (fastforce simp: handle_resp_def go_bind_Ok_iff split: option.splits)
  show ?thesis
    by (rule go_fold_inv [where P = ?P, OF _ w1])
      (use apply_event_retryMax in \<open>fastforce simp: handle_event_def split: event_type.splits\<close>)
qed

lemma handle_resp_not_Error: "handle_resp unm ustr reg ord visit c evs w \<noteq> Error e"
proof -
  have loop: "go_fold (handle_event unm reg ord) evs v \<noteq> Error e" for v
    by (rule go_fold_not_Error)
      (simp add: handle_event_def apply_event_not_Error split: event_type.splits)
  show ?thesis
  proof (cases c)
    case None
    then show ?thesis using loop by (simp add: handle_resp_def)
  next
    case (Some resp)
    then show ?thesis
      using loop resync_not_Error [of unm ustr reg ord visit resp w e]
      by (cases "resync unm ustr reg ord visit resp w") (auto simp: handle_resp_def)
  qed
qed

text \<open>
  A deletion whose previous value etcd no longer has (\<open>PrevKv\<close> is nil after a
  compaction) crashes the watcher with a nil dereference; nothing else in \<open>apply\<close>
  panics.
\<close>

theorem apply_panics_iff:
  "(\<exists>p. apply_event unm reg ord ev w = Panic p) \<longleftrightarrow>
   ev_Type ev = DELETE \<and> ev_PrevKv ev = None \<and> \<not> stale w ev"
proof (cases "stale w ev")
  case True
  then show ?thesis by (simp add: apply_event_stale)
next
  case False
  then have "(case versions w (kv_Key (ev_Kv ev)) of Some v \<Rightarrow> v \<ge> kv_ModRevision (ev_Kv ev) | None \<Rightarrow> False) = False"
    by (auto simp: stale_def split: option.splits)
  then show ?thesis
    using False unfolding apply_event_def Let_def bump_def [symmetric] bump_simps
    by (auto split: option.splits sum.splits event_type.splits)
qed

lemma resync_not_Panic: "resync unm ustr reg ord visit resp w \<noteq> Panic p"
proof -
  have "apply_event unm reg ord (put_event kv) s \<noteq> Panic q" for kv s q
    using apply_panics_iff [of unm reg ord "put_event kv" s] by (auto simp: put_event_def)
  then have "go_fold (\<lambda>kv. apply_event unm reg ord (put_event kv)) kvs v \<noteq> Panic q" for kvs v q
  proof (induction kvs arbitrary: v)
    case (Cons kv kvs)
    then show ?case by (cases "apply_event unm reg ord (put_event kv) v") auto
  qed simp
  then have "go_bind (go_fold (\<lambda>kv. apply_event unm reg ord (put_event kv)) kvs v) (\<lambda>w. Ok (f w)) \<noteq> Panic p"
    for kvs v and f :: "watcher \<Rightarrow> watcher \<times> go_error option"
    by (cases "go_fold (\<lambda>kv. apply_event unm reg ord (put_event kv)) kvs v") auto
  then show ?thesis by (simp add: resync_def Let_def split: sum.splits prod.splits)
qed

definition lacks_prev :: "etcd_Event \<Rightarrow> bool" where
  "lacks_prev ev \<longleftrightarrow> ev_Type ev = DELETE \<and> ev_PrevKv ev = None"

lemma events_panic:
  "go_fold (handle_event unm reg ord) evs w = Panic p \<Longrightarrow> \<exists>ev \<in> set evs. lacks_prev ev"
proof (induction evs arbitrary: w)
  case (Cons ev evs)
  show ?case
  proof (cases "handle_event unm reg ord ev w")
    case (Ok w')
    then show ?thesis using Cons by auto
  next
    case (Error e)
    then show ?thesis using Cons.prems by simp
  next
    case (Panic q)
    then have "\<exists>p. apply_event unm reg ord ev w = Panic p" by (auto simp: handle_event_def split: event_type.splits)
    then show ?thesis unfolding apply_panics_iff by (simp add: lacks_prev_def)
  qed
qed simp

lemma handle_resp_panic:
  assumes "handle_resp unm ustr reg ord visit c evs w = Panic p"
  shows "\<exists>ev \<in> set evs. lacks_prev ev"
proof -
  obtain w1 where "go_fold (handle_event unm reg ord) evs w1 = Panic p"
  proof (cases c)
    case None
    then show thesis using that assms by (simp add: handle_resp_def)
  next
    case (Some resp)
    then show thesis
      using that assms resync_not_Panic [of unm ustr reg ord visit resp w] resync_not_Error [of unm ustr reg ord visit resp w]
      by (cases "resync unm ustr reg ord visit resp w") (auto simp: handle_resp_def)
  qed
  then show ?thesis by (rule events_panic)
qed

lemma watch_loop_nil:
  assumes "\<And>evs c w q. handle evs c w = Panic q \<Longrightarrow> \<exists>ev \<in> set evs. lacks_prev ev"
  shows "watch_loop handle n is w = (w', ApplyPanic p) \<Longrightarrow> \<exists>c evs. WatchResp c evs \<in> set is \<and> (\<exists>ev \<in> set evs. lacks_prev ev)"
proof (induction "is" arbitrary: n w)
  case (Cons i "is")
  show ?case
  proof (cases "watch_error i")
    case None
    then obtain c evs where i: "i = WatchResp c evs" by (cases i) (auto simp: watch_error_def)
    show ?thesis
    proof (cases "handle evs c w")
      case (Ok w1)
      then show ?thesis using Cons.IH [of 0 w1] Cons.prems i None by auto
    next
      case (Error e)
      then show ?thesis using Cons.prems i None by simp
    next
      case (Panic q)
      then show ?thesis using assms [OF Panic] i by (meson list.set_intros(1))
    qed
  next
    case (Some err)
    then have "watch_loop handle (n + 1) is w = (w', ApplyPanic p)"
      using Cons.prems by (auto simp: watch_failed_def split: if_splits)
    then show ?thesis using Cons.IH by (meson list.set_intros(2))
  qed
qed simp

lemma watch_loop_not_erroring:
  assumes "\<forall>i \<in> set fs. is_failure i" and "watchRetryMax (w_registry w) < n + int (length fs)" and "n \<le> watchRetryMax (w_registry w)"
  shows "\<exists>w' e. watch_loop handle n (fs @ post) w = (w', WatchPanic e)"
  using assms
proof (induction fs arbitrary: n)
  case (Cons f fs)
  obtain err where err: "watch_error f = Some err" "\<not> errors_Is err CtxCanceled" using Cons.prems(1) by (auto simp: is_failure_def)
  show ?case
  proof (cases "watchRetryMax (w_registry w) \<le> n")
    case True
    then show ?thesis using err by (simp add: watch_failed_def)
  next
    case False
    then show ?thesis using Cons.IH [of "n + 1"] Cons.prems err by (simp add: watch_failed_def)
  qed
qed simp

lemma watch_loop_stops:
  assumes keep: "\<And>evs c w w'. handle evs c w = Ok w' \<Longrightarrow> watchRetryMax (w_registry w') = watchRetryMax (w_registry w)"
    and fs: "\<forall>i \<in> set fs. is_failure i" "watchRetryMax (w_registry w) < int (length fs)"
    and n: "0 \<le> n" "n \<le> watchRetryMax (w_registry w)"
  shows "snd (watch_loop handle n (pre @ fs @ post) w) \<noteq> Watching m"
  using fs n
proof (induction pre arbitrary: n w)
  case Nil
  have "watchRetryMax (w_registry w) < n + int (length fs)" using Nil by linarith
  then show ?case using watch_loop_not_erroring [OF Nil(1), of w n handle post] Nil by auto
next
  case (Cons i pre)
  show ?case
  proof (cases "watch_error i")
    case None
    then obtain c evs where i: "i = WatchResp c evs" by (cases i) (auto simp: watch_error_def)
    then show ?thesis using Cons keep [of evs c w] None by (cases "handle evs c w") auto
  next
    case (Some err)
    then show ?thesis using Cons by (auto simp: watch_failed_def)
  qed
qed

text \<open>
  C38. The watcher stops only as designed or on a deletion without its previous value: when it
  panics because etcd cannot be watched, the inputs contain one more than \<open>watchRetryMax\<close>
  consecutive failures, without a single response in between; when it panics while applying
  what it received, a response carried a deletion whose \<open>PrevKv\<close> is nil; and after more than
  \<open>watchRetryMax\<close> consecutive failures it does not watch any longer.
\<close>

theorem watch_gives_up:
  assumes "watch_loop (\<lambda>evs c. handle_resp unm ustr reg ord visit c evs) 0 inputs w = (w', out)"
    and "0 \<le> watchRetryMax (w_registry w)"
  shows "(\<forall>e. out = WatchPanic e \<longrightarrow> (\<exists>pre fs post. inputs = pre @ fs @ post \<and> (\<forall>i \<in> set fs. is_failure i) \<and>
      int (length fs) = watchRetryMax (w_registry w) + 1)) \<and>
    (\<forall>p. out = ApplyPanic p \<longrightarrow> (\<exists>c evs. WatchResp c evs \<in> set inputs \<and>
      (\<exists>ev \<in> set evs. ev_Type ev = DELETE \<and> ev_PrevKv ev = None))) \<and>
    (\<forall>pre fs post n. inputs = pre @ fs @ post \<longrightarrow> (\<forall>i \<in> set fs. is_failure i) \<longrightarrow>
      watchRetryMax (w_registry w) < int (length fs) \<longrightarrow> out \<noteq> Watching n)"
proof (intro conjI allI impI)
  fix e assume "out = WatchPanic e"
  then have "\<exists>pre fs post. inputs = pre @ fs @ post \<and> (\<forall>i \<in> set fs. is_failure i) \<and>
    (int (length fs) = watchRetryMax (w_registry w) + 1 \<or>
     pre = [] \<and> 0 + int (length fs) = watchRetryMax (w_registry w) + 1)"
    using assms by (intro watch_loop_panic [where handle = "\<lambda>evs c. handle_resp unm ustr reg ord visit c evs"])
      (auto simp: handle_resp_keep handle_resp_not_Error)
  then show "\<exists>pre fs post. inputs = pre @ fs @ post \<and> (\<forall>i \<in> set fs. is_failure i) \<and>
      int (length fs) = watchRetryMax (w_registry w) + 1" by auto
next
  fix p assume "out = ApplyPanic p"
  then show "\<exists>c evs. WatchResp c evs \<in> set inputs \<and> (\<exists>ev \<in> set evs. ev_Type ev = DELETE \<and> ev_PrevKv ev = None)"
    using watch_loop_nil [OF handle_resp_panic] assms(1) by (fastforce simp: lacks_prev_def)
next
  fix pre fs post n
  assume i: "inputs = pre @ fs @ post" "\<forall>i \<in> set fs. is_failure i" "watchRetryMax (w_registry w) < int (length fs)"
  show "out \<noteq> Watching n"
  proof -
    have "snd (watch_loop (\<lambda>evs c. handle_resp unm ustr reg ord visit c evs) 0 (pre @ fs @ post) w) \<noteq> Watching n"
      by (rule watch_loop_stops [OF handle_resp_keep]) (use i assms(2) in auto)
    then show ?thesis using assms(1) i(1) by simp
  qed
qed

theorem watch_gives_up_witness:
  "\<exists>w' e. watch_loop (\<lambda>evs c. handle_resp demo_unm demo_ustr registeredBalancer ord_sorted
       (\<lambda>m. sorted_list_of_set (dom m)) c evs) 0 (WatchResp None [] # replicate 3 ChanClosed)
       (demo_w0\<lparr>w_registry := WithWatchRetry 2 0 default_Registry\<rparr>) = (w', WatchPanic e) \<and>
     (\<exists>pre fs post. WatchResp None [] # replicate 3 ChanClosed = pre @ fs @ post \<and> (\<forall>i \<in> set fs. is_failure i) \<and> length fs = 3)"
proof -
  define w where "w = demo_w0\<lparr>w_registry := WithWatchRetry 2 0 default_Registry\<rparr>"
  have m: "watchRetryMax (w_registry w) = 2" by (simp add: w_def WithWatchRetry_def)
  obtain w' e where run: "watch_loop (\<lambda>evs c. handle_resp demo_unm demo_ustr registeredBalancer ord_sorted
      (\<lambda>m. sorted_list_of_set (dom m)) c evs) 0 (WatchResp None [] # replicate 3 ChanClosed) w = (w', WatchPanic e)"
    by (simp add: numeral_3_eq_3 watch_error_def watch_failed_def handle_resp_def m)
  from watch_gives_up [OF run] m obtain pre fs post where
    "WatchResp None [] # replicate 3 ChanClosed = pre @ fs @ post" "\<forall>i \<in> set fs. is_failure i" "int (length fs) = 3"
    by (auto simp del: replicate.simps)
  then show ?thesis using run by (auto simp: w_def)
qed

subsection \<open>Registering\<close>

text \<open>
  \<open>Put\<close> writes only valid entries, under the node's own key and under a lease: when it
  succeeds the entry passed validation, exactly one write is sent, its lease is the
  registry's lease, and a second \<open>Put\<close> reuses that lease instead of asking for another.
\<close>

theorem Put_under_lease:
  assumes "registry_Put uh marshal ustr grant ka put entry r = (r', reqs, None)"
    and "\<And>ttl l. grant ttl = Inr l \<Longrightarrow> l \<noteq> NoLease"
  shows "entry_Validate uh entry = None \<and> leaseID r' \<noteq> NoLease \<and>
    (\<exists>value. marshal entry = Inr value \<and> last reqs = ReqPut (node_key (keyPrefix r) ustr (ID entry)) value (leaseID r') \<and>
      (\<forall>k v l. ReqPut k v l \<in> set (butlast reqs) \<longrightarrow> False)) \<and>
    (\<forall>entry' v' marshal'. entry_Validate uh entry' = None \<longrightarrow> marshal' entry' = Inr v' \<longrightarrow>
      fst (snd (registry_Put uh marshal' ustr grant' ka' put entry' r')) =
        [ReqPut (node_key (keyPrefix r) ustr (ID entry')) v' (leaseID r')])"
proof -
  obtain x where v: "entry_Validate uh entry = None" "marshal entry = Inr x"
    using assms(1) by (auto simp: registry_Put_def split: option.splits sum.splits)
  obtain reqs1 where l: "initLease grant ka r = (r', reqs1, None)"
      "reqs = reqs1 @ [ReqPut (path_Join (keyPrefix r') (ustr (ID entry))) x (leaseID r')]"
    using assms(1) v by (auto simp: registry_Put_def Let_def split: prod.splits option.splits)
  then have i: "leaseID r' \<noteq> NoLease" "keyPrefix r' = keyPrefix r" "\<forall>k v l. ReqPut k v l \<notin> set reqs1"
    using assms(2) by (auto simp: initLease_def split: if_splits sum.splits option.splits)
  then show ?thesis
    using v l by (simp add: node_key_def registry_Put_def initLease_def Let_def)
qed

theorem Put_under_lease_witness:
  "last (fst (snd (registry_Put (\<lambda>_. Inr ''h'') (\<lambda>_. Inr ''n1'') demo_ustr (\<lambda>_. Inr 77) (\<lambda>_. None)
     (\<lambda>_ _ _. None) (demo_node 1 0 ''random'') default_Registry))) = ReqPut demo_key ''n1'' 77"
proof -
  have valid: "entry_Validate (\<lambda>_. Inr ''h'') (demo_node 1 0 ''random'') = None"
    by (simp add: entry_Validate_def grpc_Validate_def desc_Validate_def entrance_Validate_def
        demo_node_def state_defs)
  obtain r' reqs where run: "registry_Put (\<lambda>_. Inr ''h'') (\<lambda>_. Inr ''n1'') demo_ustr (\<lambda>_. Inr 77) (\<lambda>_. None)
     (\<lambda>_ _ _. None) (demo_node 1 0 ''random'') default_Registry = (r', reqs, None)" "leaseID r' = 77"
    using valid by (simp add: registry_Put_def initLease_def default_Registry_def NoLease_def Let_def)
  from Put_under_lease [OF run(1)] show ?thesis
    using run by (simp add: NoLease_def demo_key_def default_Registry_def)
qed

text \<open>
  A rollback of etcd can go unnoticed: \<open>resync\<close> records the snapshot's revision for a
  removed key but not in \<open>maxRev\<close>. Here node 1 is removed by a synchronisation at revision
  100 while \<open>maxRev\<close> is 5; etcd is then restored to an older state and the node writes its
  entry again at revision 60. The synchronisation at revision 60 sees no rollback, skips
  the entry as older than 100, and the live node stays unknown.
\<close>

theorem rollback_unnoticed:
  "\<exists>w2 w3. resync demo_unm demo_ustr registeredBalancer ord_sorted (\<lambda>m. sorted_list_of_set (dom m))
       (Inr (100, [])) demo_w1 = Ok (w2, None) \<and>
     resync demo_unm demo_ustr registeredBalancer ord_sorted (\<lambda>m. sorted_list_of_set (dom m))
       (Inr (60, [demo_kv\<lparr>kv_ModRevision := 60\<rparr>])) w2 = Ok (w3, None) \<and>
     reg_allNodes (w_registry w3) (ULID 1 0) = None"
proof -
  have w1: "reg_allNodes (w_registry demo_w1) = [ULID 1 0 \<mapsto> demo_node 1 0 ''random'']"
    "keyPrefix (w_registry demo_w1) = ''/nodehub/node''" "maxRev demo_w1 = 5"
    by (simp_all add: demo_w1_def demo_w0_def default_Registry_def)
  define w2 where "w2 = removeNode registeredBalancer ord_sorted (demo_node 1 0 ''random'')
    (demo_w1\<lparr>versions := (versions demo_w1)(demo_key \<mapsto> 100)\<rparr>)"
  have r2: "resync demo_unm demo_ustr registeredBalancer ord_sorted (\<lambda>m. sorted_list_of_set (dom m))
       (Inr (100, [])) demo_w1 = Ok (w2, None)"
    by (simp add: resync_def w1 removeStale_def staleEntry_def w2_def demo_key_def node_key_def)
  have "stale w2 (put_event (demo_kv\<lparr>kv_ModRevision := 60\<rparr>))"
    by (simp add: stale_def w2_def demo_kv_def)
  moreover have "reg_allNodes (w_registry w2) = Map.empty" "maxRev w2 = 5"
    by (simp_all add: w2_def w1)
  ultimately have "\<exists>w3. resync demo_unm demo_ustr registeredBalancer ord_sorted (\<lambda>m. sorted_list_of_set (dom m))
       (Inr (60, [demo_kv\<lparr>kv_ModRevision := 60\<rparr>])) w2 = Ok (w3, None) \<and>
     reg_allNodes (w_registry w3) (ULID 1 0) = None"
    by (simp add: resync_def apply_event_stale removeStale_def)
  with r2 show ?thesis by blast
qed

end
