(* ===== verification/Codec_Message.thy ===== *)
theory Codec_Message
  imports Nh_Prelude
begin

text \<open>
  The wire format between clients and gateways (\<open>src/internal/codec/message.go\<close>): a
  big-endian \<open>uint32\<close> length followed by the data, an empty frame being a ping. The
  \<open>io.Reader\<close> is the bytes it still delivers and the error it then returns; the backing
  array of a message's slice is the list \<open>msg_data\<close> whose length is its capacity, and
  \<open>growcap s\<close> is the capacity \<open>append\<close> chooses when it needs at least \<open>s\<close> bytes.
\<close>

unbundle bit_operations_syntax

type_synonym byte = "8 word"

section \<open>Frames\<close>

definition SizeLen :: nat where "SizeLen = 4"

definition MaxMessageSize :: int where "MaxMessageSize = 64 * 1024"

definition PutUint32 :: "32 word \<Rightarrow> byte list" where
  "PutUint32 v = [ucast (drop_bit 24 v), ucast (drop_bit 16 v), ucast (drop_bit 8 v), ucast v]"

fun Uint32 :: "byte list \<Rightarrow> 32 word" where
  "Uint32 (b0 # b1 # b2 # b3 # bs) =
     ucast b3 OR push_bit 8 (ucast b2) OR push_bit 16 (ucast b1) OR push_bit 24 (ucast b0)"
| "Uint32 _ = 0"

definition SendBytes :: "byte list \<Rightarrow> (byte list \<Rightarrow> go_error option) \<Rightarrow> go_error option" where
  "SendBytes data sender =
     (let buf = PutUint32 (of_nat (length data));
          buf' = (if length data > 0 then buf @ data else buf)
      in sender buf')"

definition SendReply ::
  "('r \<Rightarrow> go_error + byte list) \<Rightarrow> 'r \<Rightarrow> (byte list \<Rightarrow> go_error option) \<Rightarrow> go_error option" where
  "SendReply marshal reply sender =
     (case marshal reply of
        Inl err \<Rightarrow> Some (ErrWrap ''marshal reply'' err)
      | Inr data \<Rightarrow> SendBytes data sender)"

section \<open>Reading\<close>

record io_Reader =
  rd_bytes :: "byte list"
  rd_err :: go_error

text \<open>\<open>io.ReadFull\<close> of \<open>n\<close> bytes: the bytes, or the error of a short read.\<close>

definition ReadFull :: "nat \<Rightarrow> io_Reader \<Rightarrow> io_Reader \<times> (go_error + byte list)" where
  "ReadFull n r =
     (if n \<le> length (rd_bytes r)
      then (r\<lparr>rd_bytes := drop n (rd_bytes r)\<rparr>, Inr (take n (rd_bytes r)))
      else (r\<lparr>rd_bytes := []\<rparr>,
            Inl (if rd_err r = EOF \<and> rd_bytes r \<noteq> [] then ErrUnexpectedEOF else rd_err r)))"

record Message =
  msg_data :: "byte list"
  msg_size :: nat

definition msg_Bytes :: "Message \<Rightarrow> byte list go" where
  "msg_Bytes msg =
     (if msg_size msg \<le> length (msg_data msg) then Ok (take (msg_size msg) (msg_data msg))
      else Panic ''slice bounds out of range'')"

definition msg_Len :: "Message \<Rightarrow> nat" where
  "msg_Len msg = msg_size msg"

definition msg_Reset :: "Message \<Rightarrow> Message" where
  "msg_Reset msg = msg\<lparr>msg_size := 0\<rparr>"

text \<open>Writing the bytes that were read at the front of the backing array.\<close>

definition overwrite :: "byte list \<Rightarrow> byte list \<Rightarrow> byte list" where
  "overwrite bs data = bs @ drop (length bs) data"

text \<open>
  The limit is a package variable, which \<open>SetMaxMessageSize\<close> of the gateway may change;
  \<open>ReadMessage\<close> is the reader with its default value.
\<close>

record codec_vars =
  cv_MaxMessageSize :: int

definition codec_defaults :: codec_vars where
  "codec_defaults = \<lparr>cv_MaxMessageSize = MaxMessageSize\<rparr>"

definition ReadMessage_with ::
  "codec_vars \<Rightarrow> (nat \<Rightarrow> nat) \<Rightarrow> io_Reader \<Rightarrow> Message \<Rightarrow> (io_Reader \<times> Message \<times> go_error option) go" where
  "ReadMessage_with vars growcap r msg =
     (if length (msg_data msg) < SizeLen then Panic ''slice bounds out of range''
      else case ReadFull SizeLen r of
        (r1, Inl err) \<Rightarrow> Ok (r1, msg, Some (ErrWrap ''read size frame'' err))
      | (r1, Inr hdr) \<Rightarrow>
          let data1 = overwrite hdr (msg_data msg);
              size = unat (Uint32 (take SizeLen data1));
              msg1 = msg\<lparr>msg_data := data1, msg_size := size\<rparr>
          in if size = 0 then Ok (r1, msg1, None)
             else if int size > cv_MaxMessageSize vars
             then Ok (r1, msg1, Some (ErrNew (''message size exceeds the limit, '' @ itoa (int size))))
             else
               let c = length data1;
                   data2 = (if size > c then data1 @ replicate (growcap size - c) 0 else data1)
               in case ReadFull size r1 of
                    (r2, Inl err) \<Rightarrow> Ok (r2, msg1\<lparr>msg_data := data2\<rparr>, Some (ErrWrap ''read data frame'' err))
                  | (r2, Inr body) \<Rightarrow> Ok (r2, msg1\<lparr>msg_data := overwrite body data2\<rparr>, None))"

definition ReadMessage ::
  "(nat \<Rightarrow> nat) \<Rightarrow> io_Reader \<Rightarrow> Message \<Rightarrow> (io_Reader \<times> Message \<times> go_error option) go" where
  ReadMessage_eq: "ReadMessage = ReadMessage_with codec_defaults"

lemma ReadMessage_def:
  "ReadMessage growcap r msg =
     (if length (msg_data msg) < SizeLen then Panic ''slice bounds out of range''
      else case ReadFull SizeLen r of
        (r1, Inl err) \<Rightarrow> Ok (r1, msg, Some (ErrWrap ''read size frame'' err))
      | (r1, Inr hdr) \<Rightarrow>
          let data1 = overwrite hdr (msg_data msg);
              size = unat (Uint32 (take SizeLen data1));
              msg1 = msg\<lparr>msg_data := data1, msg_size := size\<rparr>
          in if size = 0 then Ok (r1, msg1, None)
             else if int size > MaxMessageSize
             then Ok (r1, msg1, Some (ErrNew (''message size exceeds the limit, '' @ itoa (int size))))
             else
               let c = length data1;
                   data2 = (if size > c then data1 @ replicate (growcap size - c) 0 else data1)
               in case ReadFull size r1 of
                    (r2, Inl err) \<Rightarrow> Ok (r2, msg1\<lparr>msg_data := data2\<rparr>, Some (ErrWrap ''read data frame'' err))
                  | (r2, Inr body) \<Rightarrow> Ok (r2, msg1\<lparr>msg_data := overwrite body data2\<rparr>, None))"
  unfolding ReadMessage_eq ReadMessage_with_def codec_defaults_def codec_vars.simps by (rule refl)

section \<open>The pool of messages\<close>

text \<open>The pool is a channel of capacity 1024, a queue of returned messages.\<close>

type_synonym messagePool = "Message list"

definition pool_cap :: nat where "pool_cap = 1024"

definition pool_Get :: "messagePool \<Rightarrow> messagePool \<times> Message" where
  "pool_Get p =
     (case p of
        msg # rest \<Rightarrow> (rest, msg_Reset msg)
      | [] \<Rightarrow> ([], \<lparr>msg_data = replicate (4 * 1024) 0, msg_size = 0\<rparr>))"

definition pool_Put :: "Message \<Rightarrow> messagePool \<Rightarrow> messagePool" where
  "pool_Put msg p = (if length p < pool_cap then p @ [msg] else p)"

section \<open>Lemmas\<close>

definition frame :: "byte list \<Rightarrow> byte list" where
  "frame data = PutUint32 (of_nat (length data)) @ data"

lemma Uint32_PutUint32 [simp]: "Uint32 (PutUint32 v) = v"
  unfolding PutUint32_def Uint32.simps
proof (rule bit_word_eqI)
  fix n
  assume "n < LENGTH(32)"
  then consider "n < 8" | "8 \<le> n" "n < 16" | "16 \<le> n" "n < 24" | "24 \<le> n" "n < 32"
    by fastforce
  then show "bit (ucast (ucast v :: byte) OR push_bit 8 (ucast (ucast (drop_bit 8 v) :: byte)) OR
      push_bit 16 (ucast (ucast (drop_bit 16 v) :: byte)) OR
      push_bit 24 (ucast (ucast (drop_bit 24 v) :: byte)) :: 32 word) n \<longleftrightarrow> bit v n"
    by cases (auto simp: bit_simps)
qed

lemma Uint32_append [simp]: "length h = 4 \<Longrightarrow> Uint32 (h @ bs) = Uint32 h"
  by (auto simp: numeral_eq_Suc length_Suc_conv)

lemma length_PutUint32 [simp]: "length (PutUint32 v) = 4"
  by (simp add: PutUint32_def)

lemma SendBytes_frame: "SendBytes data sender = sender (frame data)"
  by (cases data) (simp_all add: SendBytes_def frame_def Let_def)

lemma length_overwrite: "length bs \<le> length data \<Longrightarrow> length (overwrite bs data) = length data"
  by (simp add: overwrite_def)

lemma take_overwrite [simp]: "take (length bs) (overwrite bs data) = bs"
  by (simp add: overwrite_def)

lemma ReadFull_append:
  "rd_bytes r = bs @ rest \<Longrightarrow> ReadFull (length bs) r = (r\<lparr>rd_bytes := rest\<rparr>, Inr bs)"
  by (simp add: ReadFull_def)

lemma ReadFull_header:
  "rd_bytes r = PutUint32 v @ rest \<Longrightarrow> ReadFull SizeLen r = (r\<lparr>rd_bytes := rest\<rparr>, Inr (PutUint32 v))"
  using ReadFull_append [of r "PutUint32 v" rest] by (simp add: SizeLen_def)

text \<open>A message whose buffer can hold the length frame; every pooled message is one.\<close>

definition msg_ok :: "Message \<Rightarrow> bool" where
  "msg_ok msg \<longleftrightarrow> SizeLen \<le> length (msg_data msg)"

lemma ReadMessage_frame:
  assumes "msg_ok msg" and "rd_bytes r = frame data @ rest" and "int (length data) \<le> MaxMessageSize"
    and "\<And>s. s \<le> growcap s"
  shows "\<exists>msg'. ReadMessage growcap r msg = Ok (r\<lparr>rd_bytes := rest\<rparr>, msg', None) \<and>
    msg_ok msg' \<and> msg_Bytes msg' = Ok data"
proof -
  define data1 where "data1 = overwrite (PutUint32 (of_nat (length data))) (msg_data msg)"
  have h: "ReadFull SizeLen r = (r\<lparr>rd_bytes := data @ rest\<rparr>, Inr (PutUint32 (of_nat (length data))))"
    using assms(2) by (intro ReadFull_header) (simp add: frame_def)
  have "take SizeLen data1 = PutUint32 (of_nat (length data))"
    using take_overwrite [of "PutUint32 (of_nat (length data))" "msg_data msg"]
    by (simp add: data1_def SizeLen_def)
  moreover have "length data < 2 ^ 32" using assms(3) by (simp add: MaxMessageSize_def)
  ultimately have size: "unat (Uint32 (take SizeLen data1)) = length data"
    by (simp add: unat_of_nat)
  have len1: "SizeLen \<le> length (msg_data msg)" "length data1 = length (msg_data msg)"
    using assms(1) by (simp_all add: msg_ok_def data1_def SizeLen_def length_overwrite)
  define data2 where "data2 =
    (if length data > length data1 then data1 @ replicate (growcap (length data) - length data1) 0 else data1)"
  have len2: "length data \<le> length data2" "SizeLen \<le> length data2"
    using assms(4) [of "length data"] len1 by (auto simp: data2_def)
  have b: "ReadFull (length data) (r\<lparr>rd_bytes := data @ rest\<rparr>) = (r\<lparr>rd_bytes := rest\<rparr>, Inr data)"
    by (simp add: ReadFull_def)
  have "ReadMessage growcap r msg =
      (if length data = 0 then Ok (r\<lparr>rd_bytes := data @ rest\<rparr>, msg\<lparr>msg_data := data1, msg_size := 0\<rparr>, None)
       else Ok (r\<lparr>rd_bytes := rest\<rparr>, msg\<lparr>msg_data := overwrite data data2, msg_size := length data\<rparr>, None))"
    unfolding ReadMessage_def h prod.case sum.case Let_def data1_def [symmetric] size data2_def [symmetric] b
    using len1 assms(3) by simp
  then show ?thesis
    using len1 len2 by (auto simp: msg_ok_def msg_Bytes_def length_overwrite)
qed

text \<open>Reading one message after another into the same buffer.\<close>

fun read_msgs :: "(nat \<Rightarrow> nat) \<Rightarrow> nat \<Rightarrow> io_Reader \<Rightarrow> Message \<Rightarrow> (io_Reader \<times> byte list list) option" where
  "read_msgs growcap 0 r msg = Some (r, [])"
| "read_msgs growcap (Suc n) r msg =
     (case ReadMessage growcap r msg of
        Ok (r', msg', None) \<Rightarrow>
          (case msg_Bytes msg' of
             Ok bs \<Rightarrow> map_option (\<lambda>(r'', bss). (r'', bs # bss)) (read_msgs growcap n r' msg')
           | _ \<Rightarrow> None)
      | _ \<Rightarrow> None)"

lemma ReadFull_length: "ReadFull n r = (r', Inr bs) \<Longrightarrow> length bs = n"
  by (auto simp: ReadFull_def split: if_splits)

text \<open>
  A decoder without buffer and pool: the rest of the stream, and the payload or the error.
\<close>

definition decode_frame :: "codec_vars \<Rightarrow> io_Reader \<Rightarrow> io_Reader \<times> (go_error + byte list)" where
  "decode_frame vars r =
     (case ReadFull SizeLen r of
        (r1, Inl err) \<Rightarrow> (r1, Inl (ErrWrap ''read size frame'' err))
      | (r1, Inr hdr) \<Rightarrow>
          let size = unat (Uint32 hdr)
          in if size \<noteq> 0 \<and> int size > cv_MaxMessageSize vars
             then (r1, Inl (ErrNew (''message size exceeds the limit, '' @ itoa (int size))))
             else (case ReadFull size r1 of
                     (r2, Inl err) \<Rightarrow> (r2, Inl (ErrWrap ''read data frame'' err))
                   | (r2, Inr body) \<Rightarrow> (r2, Inr body)))"

lemma ReadMessage_decode:
  assumes "msg_ok msg" and grow: "\<And>s. s \<le> growcap s"
  shows "\<exists>msg'. msg_ok msg' \<and> (case decode_frame vars r of
      (r', Inl err) \<Rightarrow> ReadMessage_with vars growcap r msg = Ok (r', msg', Some err)
    | (r', Inr bs) \<Rightarrow> ReadMessage_with vars growcap r msg = Ok (r', msg', None) \<and> msg_Bytes msg' = Ok bs)"
proof (cases "ReadFull SizeLen r")
  case (Pair r1 x)
  have len: "SizeLen \<le> length (msg_data msg)" using assms(1) by (simp add: msg_ok_def)
  show ?thesis
  proof (cases x)
    case (Inl e)
    then show ?thesis using Pair len assms(1) by (auto simp: ReadMessage_with_def decode_frame_def)
  next
    case (Inr hdr)
    have hl: "length hdr = SizeLen" using Pair Inr by (simp add: ReadFull_length)
    define data1 where "data1 = overwrite hdr (msg_data msg)"
    define size where "size = unat (Uint32 hdr)"
    define data2 where "data2 = (if size > length data1 then data1 @ replicate (growcap size - length data1) 0 else data1)"
    have t: "take SizeLen data1 = hdr" unfolding data1_def hl [symmetric] by simp
    have l1: "SizeLen \<le> length data1" using len hl by (simp add: data1_def length_overwrite)
    have l2: "size \<le> length data2" "SizeLen \<le> length data2" using l1 grow [of size] by (auto simp: data2_def)
    have eq: "ReadMessage_with vars growcap r msg =
      (if size = 0 then Ok (r1, msg\<lparr>msg_data := data1, msg_size := size\<rparr>, None)
       else if int size > cv_MaxMessageSize vars
       then Ok (r1, msg\<lparr>msg_data := data1, msg_size := size\<rparr>,
         Some (ErrNew (''message size exceeds the limit, '' @ itoa (int size))))
       else case ReadFull size r1 of
         (r2, Inl err) \<Rightarrow> Ok (r2, msg\<lparr>msg_data := data1, msg_size := size\<rparr>\<lparr>msg_data := data2\<rparr>,
           Some (ErrWrap ''read data frame'' err))
       | (r2, Inr body) \<Rightarrow> Ok (r2, msg\<lparr>msg_data := data1, msg_size := size\<rparr>\<lparr>msg_data := overwrite body data2\<rparr>, None))"
      unfolding ReadMessage_with_def Pair Inr prod.case sum.case Let_def data1_def [symmetric] t
        size_def [symmetric] data2_def [symmetric] using len by simp
    have dec: "decode_frame vars r =
      (if size \<noteq> 0 \<and> int size > cv_MaxMessageSize vars
       then (r1, Inl (ErrNew (''message size exceeds the limit, '' @ itoa (int size))))
       else (case ReadFull size r1 of
               (r2, Inl err) \<Rightarrow> (r2, Inl (ErrWrap ''read data frame'' err)) | (r2, Inr body) \<Rightarrow> (r2, Inr body)))"
      unfolding decode_frame_def Pair Inr prod.case sum.case Let_def size_def [symmetric] ..
    have ok1: "msg_ok (msg\<lparr>msg_data := data1, msg_size := n\<rparr>)" for n using l1 by (simp add: msg_ok_def)
    obtain r2 y where rf: "ReadFull size r1 = (r2, y)" by (cases "ReadFull size r1")
    consider "size = 0" | "size \<noteq> 0" "int size > cv_MaxMessageSize vars" | "size \<noteq> 0" "\<not> int size > cv_MaxMessageSize vars" by blast
    then show ?thesis
    proof cases
      case 1
      moreover have "ReadFull 0 r1 = (r1, Inr [])" by (simp add: ReadFull_def)
      ultimately show ?thesis using eq dec ok1 [of 0] by (auto simp: msg_Bytes_def)
    next
      case 2
      then show ?thesis using eq dec ok1 by auto
    next
      case 3
      have "length body = size" if "y = Inr body" for body using rf that ReadFull_length by blast
      with 3 show ?thesis
        using eq dec rf l2 by (cases y) (auto simp: msg_ok_def msg_Bytes_def length_overwrite)
    qed
  qed
qed

lemma ReadMessage_cases:
  assumes "msg_ok msg" and "\<And>s. s \<le> growcap s"
  obtains r' msg' err where "ReadMessage_with vars growcap r msg = Ok (r', msg', err)" "msg_ok msg'"
    "err = None \<longrightarrow> (\<exists>bs. msg_Bytes msg' = Ok bs)"
proof -
  obtain r' res where d: "decode_frame vars r = (r', res)" by (cases "decode_frame vars r")
  obtain msg' where ok: "msg_ok msg'" and run: "case res of
      Inl err \<Rightarrow> ReadMessage_with vars growcap r msg = Ok (r', msg', Some err)
    | Inr bs \<Rightarrow> ReadMessage_with vars growcap r msg = Ok (r', msg', None) \<and> msg_Bytes msg' = Ok bs"
    using ReadMessage_decode [OF assms, of vars r] unfolding d prod.case by blast
  show thesis
    using run by (cases res) (auto intro: that [OF _ ok])
qed

lemma frames_read_back:
  assumes "\<forall>m \<in> set msgs. int (length m) \<le> MaxMessageSize" and "msg_ok msg" and "\<And>s. s \<le> growcap s"
    and "rd_bytes r = concat (map frame msgs) @ rest"
  shows "read_msgs growcap (length msgs) r msg = Some (r\<lparr>rd_bytes := rest\<rparr>, msgs)"
  using assms(1,2,4)
proof (induction msgs arbitrary: r msg)
  case (Cons m msgs)
  have "rd_bytes r = frame m @ (concat (map frame msgs) @ rest)" using Cons.prems(3) by simp
  then obtain msg' where "ReadMessage growcap r msg = Ok (r\<lparr>rd_bytes := concat (map frame msgs) @ rest\<rparr>, msg', None)"
    "msg_ok msg'" "msg_Bytes msg' = Ok m"
    using ReadMessage_frame [OF Cons.prems(2) _ _ assms(3)] Cons.prems(1) by fastforce
  then show ?case using Cons.IH [of msg'] Cons.prems(1) by simp
qed simp

section \<open>Properties\<close>

text \<open>
  C13. Framing is a round trip on a whole stream: what \<open>SendBytes\<close> wrote for a sequence of
  messages within the size limit (empty ones, the pings, included) is read back by
  \<open>ReadMessage\<close> as exactly that sequence, and reading stops right after the last frame.
\<close>

theorem frames_roundtrip:
  assumes "\<forall>m \<in> set msgs. int (length m) \<le> MaxMessageSize" and "msg_ok msg" and "\<And>s. s \<le> growcap s"
    and "rd_bytes r = concat (map frame msgs) @ rest"
  shows "read_msgs growcap (length msgs) r msg = Some (r\<lparr>rd_bytes := rest\<rparr>, msgs) \<and>
    (\<forall>m \<in> set msgs. SendBytes m sender = sender (frame m))"
  using frames_read_back [OF assms] by (simp add: SendBytes_frame)

definition pool_msg :: Message where
  "pool_msg = \<lparr>msg_data = replicate (4 * 1024) 0, msg_size = 0\<rparr>"

lemma pool_msg_ok [simp]: "msg_ok pool_msg"
  by (simp add: pool_msg_def msg_ok_def SizeLen_def)

theorem frames_roundtrip_witness:
  "read_msgs id 2 \<lparr>rd_bytes = frame [1, 2] @ frame [] @ [9], rd_err = EOF\<rparr> pool_msg =
   Some (\<lparr>rd_bytes = [9], rd_err = EOF\<rparr>, [[1, 2], []])"
  using frames_roundtrip [of "[[1, 2], []]" pool_msg id "\<lparr>rd_bytes = frame [1, 2] @ frame [] @ [9], rd_err = EOF\<rparr>" "[9]"]
  by (simp add: MaxMessageSize_def numeral_2_eq_2 del: read_msgs.simps)

text \<open>
  C36. Reusing buffers is invisible: into whatever pooled message it reads, with whatever growth
  of its buffer and whatever limit, \<open>ReadMessage\<close> behaves as the decoder that has no buffer, in the payload
  that \<open>Bytes\<close> then returns, in its errors and in what it consumes of the stream.
\<close>

theorem ReadMessage_decodes:
  assumes "msg_ok msg" and "\<And>s. s \<le> growcap s"
  shows "\<exists>msg'. msg_ok msg' \<and> (case decode_frame vars r of
      (r', Inl err) \<Rightarrow> ReadMessage_with vars growcap r msg = Ok (r', msg', Some err)
    | (r', Inr bs) \<Rightarrow> ReadMessage_with vars growcap r msg = Ok (r', msg', None) \<and> msg_Bytes msg' = Ok bs)"
  by (rule ReadMessage_decode [OF assms])

theorem ReadMessage_decodes_witness:
  "\<exists>msg'. ReadMessage_with codec_defaults id \<lparr>rd_bytes = [0, 0, 0, 1, 7], rd_err = EOF\<rparr>
      \<lparr>msg_data = [9, 9, 9, 9, 9, 9], msg_size = 5\<rparr> =
    Ok (\<lparr>rd_bytes = [], rd_err = EOF\<rparr>, msg', None) \<and> msg_Bytes msg' = Ok [7]"
proof -
  have d: "decode_frame codec_defaults \<lparr>rd_bytes = [0, 0, 0, 1, 7], rd_err = EOF\<rparr> = (\<lparr>rd_bytes = [], rd_err = EOF\<rparr>, Inr [7])"
    by code_simp
  have "\<exists>msg'. msg_ok msg' \<and> (case decode_frame codec_defaults \<lparr>rd_bytes = [0, 0, 0, 1, 7], rd_err = EOF\<rparr> of
      (r', Inl err) \<Rightarrow> ReadMessage_with codec_defaults id \<lparr>rd_bytes = [0, 0, 0, 1, 7], rd_err = EOF\<rparr>
        \<lparr>msg_data = [9, 9, 9, 9, 9, 9], msg_size = 5\<rparr> = Ok (r', msg', Some err)
    | (r', Inr bs) \<Rightarrow> ReadMessage_with codec_defaults id \<lparr>rd_bytes = [0, 0, 0, 1, 7], rd_err = EOF\<rparr>
        \<lparr>msg_data = [9, 9, 9, 9, 9, 9], msg_size = 5\<rparr> = Ok (r', msg', None) \<and> msg_Bytes msg' = Ok bs)"
    by (rule ReadMessage_decodes) (simp_all add: msg_ok_def SizeLen_def)
  then show ?thesis unfolding d by auto
qed

text \<open>
  A frame that arrives incomplete is never taken for a message: on every strict prefix
  of a frame within the limit, \<open>ReadMessage\<close> reports an error.
\<close>

theorem truncated_frame_error:
  assumes "msg_ok msg" and "rd_bytes r = take n (frame data)" and "n < length (frame data)"
    and "int (length data) \<le> MaxMessageSize"
  shows "\<exists>r' msg' e. ReadMessage growcap r msg = Ok (r', msg', Some e)"
proof (cases "n < SizeLen")
  case True
  then have "length (rd_bytes r) < SizeLen" using assms(2) by simp
  then show ?thesis using assms(1) by (simp add: ReadMessage_def ReadFull_def msg_ok_def)
next
  case False
  let ?h = "PutUint32 (of_nat (length data))"
  have bytes: "rd_bytes r = ?h @ take (n - 4) data"
    using assms(2) False by (simp add: frame_def SizeLen_def)
  have short: "length (take (n - 4) data) < length data"
    using assms(3) False by (simp add: frame_def SizeLen_def min_def)
  have h: "ReadFull SizeLen r = (r\<lparr>rd_bytes := take (n - 4) data\<rparr>, Inr ?h)"
    using bytes by (rule ReadFull_header)
  have "take SizeLen (overwrite ?h (msg_data msg)) = ?h"
    using take_overwrite [of ?h "msg_data msg"] by (simp add: SizeLen_def)
  moreover have "length data < 2 ^ 32" using assms(4) by (simp add: MaxMessageSize_def)
  ultimately have size: "unat (Uint32 (take SizeLen (overwrite ?h (msg_data msg)))) = length data"
    by (simp add: unat_of_nat)
  have b: "\<exists>e. ReadFull (length data) (r\<lparr>rd_bytes := take (n - 4) data\<rparr>) = (r\<lparr>rd_bytes := []\<rparr>, Inl e)"
    using short by (simp add: ReadFull_def)
  have "data \<noteq> []" using short by auto
  then show ?thesis
    using b assms(1,4) unfolding ReadMessage_def h prod.case sum.case Let_def size
    by (auto simp: msg_ok_def)
qed

theorem truncated_frame_error_witness:
  "\<exists>r' msg' e. ReadMessage id \<lparr>rd_bytes = take 5 (frame [1, 2]), rd_err = EOF\<rparr> pool_msg = Ok (r', msg', Some e)"
  by (rule truncated_frame_error [where n = 5 and data = "[1, 2]"])
    (simp_all add: frame_def MaxMessageSize_def)

text \<open>
  C35. A peer can neither crash the reader nor make it buffer more than the limit, whatever
  \<open>SetMaxMessageSize\<close> made of it: whatever bytes arrive, \<open>ReadMessage\<close> into a pooled message does not panic and leaves a usable
  buffer, \<open>Bytes\<close> of a message read without error does not panic, and a length above
  \<open>MaxMessageSize\<close> is refused before the buffer grows.
\<close>

theorem ReadMessage_safe:
  assumes "msg_ok msg" and "\<And>s. s \<le> growcap s"
  shows "\<exists>r' msg' err. ReadMessage_with vars growcap r msg = Ok (r', msg', err) \<and> msg_ok msg' \<and>
    (err = None \<longrightarrow> (\<exists>bs. msg_Bytes msg' = Ok bs)) \<and>
    (\<forall>v rest. rd_bytes r = PutUint32 v @ rest \<longrightarrow> v \<noteq> 0 \<longrightarrow> cv_MaxMessageSize vars < int (unat v) \<longrightarrow>
       err \<noteq> None \<and> length (msg_data msg') = length (msg_data msg) \<and> rd_bytes r' = rest)"
proof -
  obtain r' msg' err where run: "ReadMessage_with vars growcap r msg = Ok (r', msg', err)" "msg_ok msg'"
    "err = None \<longrightarrow> (\<exists>bs. msg_Bytes msg' = Ok bs)"
    by (rule ReadMessage_cases [OF assms])
  have "err \<noteq> None \<and> length (msg_data msg') = length (msg_data msg) \<and> rd_bytes r' = rest"
    if "rd_bytes r = PutUint32 v @ rest" "cv_MaxMessageSize vars < int (unat v)" "v \<noteq> 0" for v rest
  proof -
    have h: "ReadFull SizeLen r = (r\<lparr>rd_bytes := rest\<rparr>, Inr (PutUint32 v))"
      using that(1) by (rule ReadFull_header)
    have t: "take SizeLen (overwrite (PutUint32 v) (msg_data msg)) = PutUint32 v"
      using take_overwrite [of "PutUint32 v" "msg_data msg"] by (simp add: SizeLen_def)
    have nz: "unat v \<noteq> 0" using that(3) by (simp add: unat_eq_0)
    have "ReadMessage_with vars growcap r msg = Ok (r\<lparr>rd_bytes := rest\<rparr>,
        msg\<lparr>msg_data := overwrite (PutUint32 v) (msg_data msg), msg_size := unat v\<rparr>,
        Some (ErrNew (''message size exceeds the limit, '' @ itoa (int (unat v)))))"
      unfolding ReadMessage_with_def h prod.case sum.case Let_def t Uint32_PutUint32
      using assms(1) that(2) nz by (simp add: msg_ok_def)
    then show ?thesis
      using run(1) assms(1) by (auto simp: msg_ok_def SizeLen_def length_overwrite)
  qed
  then show ?thesis using run by blast
qed

theorem ReadMessage_safe_witness:
  "\<exists>r' msg' err. ReadMessage_with codec_defaults id \<lparr>rd_bytes = [255, 255, 255, 255], rd_err = EOF\<rparr> pool_msg =
     Ok (r', msg', err) \<and> msg_ok msg'"
  using ReadMessage_safe [of pool_msg id codec_defaults "\<lparr>rd_bytes = [255, 255, 255, 255], rd_err = EOF\<rparr>"] by auto

text \<open>
  The pool hands out clean, usable messages and stays bounded: starting from an empty
  pool of usable messages, \<open>Get\<close> returns a message of size 0 that can be read into, and
  \<open>Put\<close> never lets the pool exceed its capacity.
\<close>

theorem pool_invariant:
  assumes "\<forall>m \<in> set p. msg_ok m" and "length p \<le> pool_cap" and "msg_ok m"
  shows "msg_ok (snd (pool_Get p)) \<and> msg_Bytes (snd (pool_Get p)) = Ok [] \<and>
    length (fst (pool_Get p)) \<le> pool_cap \<and> (\<forall>m \<in> set (fst (pool_Get p)). msg_ok m) \<and>
    length (pool_Put m p) \<le> pool_cap \<and> (\<forall>m' \<in> set (pool_Put m p). msg_ok m')"
  using assms
  by (cases p) (auto simp: pool_Get_def pool_Put_def msg_Reset_def msg_ok_def msg_Bytes_def
      SizeLen_def pool_cap_def)

theorem pool_invariant_witness:
  "msg_Bytes (snd (pool_Get (pool_Put pool_msg []))) = Ok []"
  using pool_invariant [of "pool_Put pool_msg []" pool_msg] by (simp add: pool_Put_def pool_cap_def)

text \<open>
  The messages in use: a reader takes one from the pool, reads into it as often as it likes,
  under whatever limit is set at the time, and puts it back. \<open>used\<close> are those taken.
\<close>

inductive pool_run :: "(nat \<Rightarrow> nat) \<Rightarrow> messagePool \<Rightarrow> Message list \<Rightarrow> bool" for growcap where
  pool_start: "pool_run growcap [] []"
| pool_gets: "pool_run growcap p used \<Longrightarrow> pool_Get p = (p', m) \<Longrightarrow> pool_run growcap p' (m # used)"
| pool_reads: "pool_run growcap p (us @ m # vs) \<Longrightarrow> ReadMessage_with vars growcap r m = Ok (r', m', err) \<Longrightarrow>
    pool_run growcap p (us @ m' # vs)"
| pool_puts: "pool_run growcap p (us @ m # vs) \<Longrightarrow> pool_run growcap (pool_Put m p) (us @ vs)"

lemma pool_run_ok:
  "pool_run growcap p used \<Longrightarrow> (\<And>s. s \<le> growcap s) \<Longrightarrow>
   length p \<le> pool_cap \<and> (\<forall>m \<in> set p \<union> set used. msg_ok m)"
proof (induction rule: pool_run.induct)
  case (pool_gets p used p' m)
  then show ?case by (cases p) (auto simp: pool_Get_def msg_Reset_def msg_ok_def SizeLen_def)
next
  case (pool_reads p us m vs vars r r' m' err)
  then have "msg_ok m" by simp
  then have "msg_ok m'"
    using pool_reads by (auto intro: ReadMessage_cases [where vars = vars and growcap = growcap and r = r and msg = m])
  then show ?case using pool_reads by auto
next
  case (pool_puts p us m vs)
  then show ?case by (auto simp: pool_Put_def)
qed (simp add: pool_cap_def)

text \<open>
  C37. Messages stay well formed: however readers take messages from the pool, read into them and
  put them back, every message in the pool or in use has a buffer that holds a size frame,
  so reading into it never panics, and the pool never exceeds its capacity.
\<close>

theorem messages_well_formed:
  assumes "pool_run growcap p used" and "\<And>s. s \<le> growcap s"
  shows "length p \<le> pool_cap \<and> (\<forall>m \<in> set p \<union> set used. msg_ok m \<and>
    (\<forall>vars r. \<exists>r' m' err. ReadMessage_with vars growcap r m = Ok (r', m', err)))"
proof -
  have "\<exists>r' m' err. ReadMessage_with vars growcap r m = Ok (r', m', err)" if "msg_ok m" for m vars r
    using assms(2) by (rule ReadMessage_cases [OF that]) blast
  then show ?thesis using pool_run_ok [OF assms] by blast
qed

theorem messages_well_formed_witness:
  "\<exists>p m. pool_run id p [m] \<and> msg_ok m \<and> (\<exists>r' m' err. ReadMessage_with codec_defaults id \<lparr>rd_bytes = [9], rd_err = EOF\<rparr> m = Ok (r', m', err))"
proof -
  have run: "pool_run id [] [pool_msg]"
    by (rule pool_gets [OF pool_start]) (simp add: pool_Get_def pool_msg_def)
  from messages_well_formed [OF this] have "msg_ok pool_msg \<and>
    (\<exists>r' m' err. ReadMessage_with codec_defaults id \<lparr>rd_bytes = [9], rd_err = EOF\<rparr> pool_msg = Ok (r', m', err))" by simp
  with run show ?thesis by blast
qed

end
