(* ===== verification/Nh_Messages.thy ===== *)
theory Nh_Messages
  imports Codec_Message
begin

text \<open>
  The protocol messages of the framework (the structs of \<open>src/proto/nh/client.pb.go\<close> and
  \<open>gateway.pb.go\<close>) and their helpers (\<open>src/proto/nh/helper.go\<close>, \<open>enum.go\<close>). A message
  is the record of its fields. \<open>proto.Marshal\<close> and \<open>proto.Unmarshal\<close> are arguments; a
  registered Go type is the decoder for it.
\<close>

section \<open>Messages\<close>

record Request =
  req_Id :: "32 word"
  req_ServiceCode :: int
  req_Method :: string
  req_Data :: "byte list"
  req_NodeId :: string
  req_NoReply :: bool
  req_Stream :: string

record Reply =
  rep_RequestId :: "32 word"
  rep_ServiceCode :: int
  rep_Code :: int
  rep_Data :: "byte list"

record Status =
  st_Code :: grpc_code
  st_Message :: string

record RPCError =
  re_RequestService :: int
  re_RequestMethod :: string
  re_Status :: Status

record Multicast =
  mc_Receiver :: "string list"
  mc_Time :: int
  mc_Content :: Reply
  mc_Stream :: string
  mc_ToEveryone :: bool

definition empty_Request :: Request where
  "empty_Request = \<lparr>req_Id = 0, req_ServiceCode = 0, req_Method = [], req_Data = [],
     req_NodeId = [], req_NoReply = False, req_Stream = []\<rparr>"

definition empty_Reply :: Reply where
  "empty_Reply = \<lparr>rep_RequestId = 0, rep_ServiceCode = 0, rep_Code = 0, rep_Data = []\<rparr>"

definition ReplyCode_UNSPECIFIED :: int where "ReplyCode_UNSPECIFIED = 0"
definition ReplyCode_RPC_ERROR :: int where "ReplyCode_RPC_ERROR = 1"

definition NodeServiceCode :: int where "NodeServiceCode = -1"
definition GatewayServiceCode :: int where "GatewayServiceCode = -2"

section \<open>Helpers\<close>

text \<open>The registry of reply types: a decoder for each pair of service code and reply code.\<close>

type_synonym 'm reply_types = "int \<times> int \<rightharpoonup> (byte list \<Rightarrow> go_error + 'm)"

definition RegisterReplyType ::
  "int \<Rightarrow> int \<Rightarrow> (byte list \<Rightarrow> go_error + 'm) \<Rightarrow> 'm reply_types \<Rightarrow> 'm reply_types" where
  "RegisterReplyType serviceCode code decoder types = types((serviceCode, code) \<mapsto> decoder)"

definition initReplyTypes :: "(byte list \<Rightarrow> go_error + 'm) \<Rightarrow> 'm reply_types" where
  "initReplyTypes rpcErrorDecoder = RegisterReplyType 0 ReplyCode_RPC_ERROR rpcErrorDecoder Map.empty"

definition GetReplyType :: "int \<Rightarrow> int \<Rightarrow> 'm reply_types \<Rightarrow> (byte list \<Rightarrow> go_error + 'm) option" where
  "GetReplyType serviceCode code types = types (serviceCode, code)"

text \<open>\<open>UnpackReply\<close>: \<open>None\<close> when no type is registered (\<open>ok\<close> is false).\<close>

definition UnpackReply :: "'m reply_types \<Rightarrow> Reply \<Rightarrow> (go_error + 'm) option" where
  "UnpackReply types reply =
     (case GetReplyType (rep_ServiceCode reply) (rep_Code reply) types of
        None \<Rightarrow> None
      | Some decoder \<Rightarrow> Some (decoder (rep_Data reply)))"

definition NewReply :: "('m \<Rightarrow> go_error + byte list) \<Rightarrow> int \<Rightarrow> 'm \<Rightarrow> go_error + Reply" where
  "NewReply marshal code msg =
     (case marshal msg of
        Inl err \<Rightarrow> Inl err
      | Inr data \<Rightarrow> Inr (empty_Reply\<lparr>rep_Code := code, rep_Data := data\<rparr>))"

definition NewMulticast :: "int \<Rightarrow> string list \<Rightarrow> Reply \<Rightarrow> Multicast" where
  "NewMulticast now receiver content =
     \<lparr>mc_Receiver = receiver, mc_Time = now, mc_Content = content, mc_Stream = [], mc_ToEveryone = False\<rparr>"

text \<open>The log attributes of requests and replies.\<close>

datatype log_value = LogInt int | LogString string | LogBool bool

definition request_LogValue :: "Request \<Rightarrow> (string \<times> log_value) list" where
  "request_LogValue x =
     [(''id'', LogInt (uint (req_Id x))), (''service'', LogInt (req_ServiceCode x)),
      (''method'', LogString (req_Method x))]
     @ (if req_NodeId x \<noteq> [] then [(''nodeID'', LogString (req_NodeId x))] else [])
     @ (if req_NoReply x then [(''noReply'', LogBool True)] else [])
     @ (if req_Stream x \<noteq> [] then [(''stream'', LogString (req_Stream x))] else [])"

definition reply_LogValue :: "Reply \<Rightarrow> (string \<times> log_value) list" where
  "reply_LogValue x =
     [(''reqID'', LogInt (uint (rep_RequestId x))), (''service'', LogInt (rep_ServiceCode x)),
      (''code'', LogInt (rep_Code x))]"

section \<open>Properties\<close>

text \<open>
  Packing and unpacking are inverse: a reply built by \<open>NewReply\<close> from a message, with
  the service it is sent for, unpacks to that message when its type is registered for the
  service and code and the decoder undoes the encoder.
\<close>

theorem NewReply_UnpackReply:
  assumes "marshal m = Inr data" and "decoder data = Inr m"
  shows "\<exists>reply. NewReply marshal code m = Inr reply \<and>
    UnpackReply (RegisterReplyType c code decoder types) (reply\<lparr>rep_ServiceCode := c\<rparr>) = Some (Inr m) \<and>
    (\<forall>c' code'. (c', code') \<noteq> (c, code) \<longrightarrow>
       GetReplyType c' code' (RegisterReplyType c code decoder types) = GetReplyType c' code' types)"
  using assms by (simp add: NewReply_def UnpackReply_def GetReplyType_def RegisterReplyType_def)

theorem NewReply_UnpackReply_witness:
  "\<exists>reply. NewReply (\<lambda>m. Inr [m]) 3 (7 :: byte) = Inr reply \<and>
    UnpackReply (RegisterReplyType 2 3 (\<lambda>d. Inr (hd d)) Map.empty) (reply\<lparr>rep_ServiceCode := 2\<rparr>) = Some (Inr 7)"
  using NewReply_UnpackReply [of "\<lambda>m. Inr [m]" "7 :: byte" "[7]" "\<lambda>d. Inr (hd d)" 3 2 Map.empty] by auto

end
