(* ===== verification/Gateway_State.thy ===== *)
theory Gateway_State
  imports Nh_Messages
begin

text \<open>
  The table of stateful routes of a gateway (\<open>src/component/gateway/state.go\<close>): which node
  serves a session for a stateful service. The nested concurrent map is a map of maps. A
  range visits the sessions in the order \<open>sessions\<close>, and the services of the session
  \<open>s\<close> in the order \<open>inner s m\<close>.
\<close>

section \<open>Operations\<close>

type_synonym stateTable = "string \<rightharpoonup> (int \<rightharpoonup> ulid)"

definition newStateTable :: stateTable where
  "newStateTable = Map.empty"

definition st_Find :: "stateTable \<Rightarrow> string \<Rightarrow> int \<Rightarrow> ulid option" where
  "st_Find st sessID serviceCode =
     (case st sessID of Some nodes \<Rightarrow> nodes serviceCode | None \<Rightarrow> None)"

definition st_Store :: "string \<Rightarrow> int \<Rightarrow> ulid \<Rightarrow> stateTable \<Rightarrow> stateTable" where
  "st_Store sessID serviceCode nodeID st =
     (let nodes = (case st sessID of Some nodes \<Rightarrow> nodes | None \<Rightarrow> Map.empty)
      in st(sessID \<mapsto> nodes(serviceCode \<mapsto> nodeID)))"

definition st_Remove :: "string \<Rightarrow> int \<Rightarrow> stateTable \<Rightarrow> stateTable" where
  "st_Remove sessID serviceCode st =
     (case st sessID of
        Some nodes \<Rightarrow> st(sessID \<mapsto> nodes(serviceCode := None))
      | None \<Rightarrow> st)"

type_synonym inner_order = "string \<Rightarrow> (int \<rightharpoonup> ulid) \<Rightarrow> int list"

text \<open>The callback of \<open>CleanNode\<close> stops the inner range at the first service of the node.\<close>

definition cleanSessionNodes :: "ulid \<Rightarrow> int list \<Rightarrow> (int \<rightharpoonup> ulid) \<Rightarrow> (int \<rightharpoonup> ulid)" where
  "cleanSessionNodes nodeID order nodes =
     map_range (\<lambda>serviceCode id ns.
       if nodeID = id then (ns(serviceCode := None), False) else (ns, True)) order nodes nodes"

definition CleanNode :: "ulid \<Rightarrow> string list \<Rightarrow> inner_order \<Rightarrow> stateTable \<Rightarrow> stateTable" where
  "CleanNode nodeID sessions inner st =
     map_range (\<lambda>sessID nodes s.
       (s(sessID \<mapsto> cleanSessionNodes nodeID (inner sessID nodes) nodes), True)) sessions st st"

definition replaceSessionNodes :: "ulid \<Rightarrow> ulid \<Rightarrow> int list \<Rightarrow> (int \<rightharpoonup> ulid) \<Rightarrow> (int \<rightharpoonup> ulid)" where
  "replaceSessionNodes oldID newID order nodes =
     map_range (\<lambda>serviceCode nodeID ns.
       if nodeID = oldID then (ns(serviceCode \<mapsto> newID), False) else (ns, True)) order nodes nodes"

definition ReplaceNode :: "ulid \<Rightarrow> ulid \<Rightarrow> string list \<Rightarrow> inner_order \<Rightarrow> stateTable \<Rightarrow> stateTable" where
  "ReplaceNode oldID newID sessions inner st =
     map_range (\<lambda>sessID nodes s.
       (s(sessID \<mapsto> replaceSessionNodes oldID newID (inner sessID nodes) nodes), True)) sessions st st"

definition CleanSession :: "string \<Rightarrow> stateTable \<Rightarrow> stateTable" where
  "CleanSession sessID st = st(sessID := None)"

section \<open>The route table as a map\<close>

text \<open>
  What the proxy and the management service rely on: a table of routes keyed by session and
  service.
\<close>

locale route_table =
  fixes empty :: 't
    and find :: "'t \<Rightarrow> string \<Rightarrow> int \<Rightarrow> ulid option"
    and store :: "string \<Rightarrow> int \<Rightarrow> ulid \<Rightarrow> 't \<Rightarrow> 't"
    and remove :: "string \<Rightarrow> int \<Rightarrow> 't \<Rightarrow> 't"
    and clean_session :: "string \<Rightarrow> 't \<Rightarrow> 't"
  assumes find_empty: "find empty s c = None"
    and find_store: "find (store s c n t) s' c' = (if s' = s \<and> c' = c then Some n else find t s' c')"
    and find_remove: "find (remove s c t) s' c' = (if s' = s \<and> c' = c then None else find t s' c')"
    and find_clean_session: "find (clean_session s t) s' c' = (if s' = s then None else find t s' c')"
begin

lemma store_isolated: "s' \<noteq> s \<Longrightarrow> find (store s c n t) s' = find t s'"
  by (rule ext) (simp add: find_store)

lemma store_remove: "find (remove s c (store s c n t)) s' c' = find (remove s c t) s' c'"
  by (simp add: find_store find_remove)

lemma clean_after_stores:
  "find (clean_session s (fold (\<lambda>(c, n). store s c n) rs t)) s' c' = (if s' = s then None else find t s' c')"
proof -
  have "s' \<noteq> s \<Longrightarrow> find (fold (\<lambda>(c, n). store s c n) rs t) s' c' = find t s' c'"
    by (induction rs arbitrary: t) (auto simp: find_store)
  then show ?thesis by (simp add: find_clean_session)
qed

end

interpretation st: route_table newStateTable st_Find st_Store st_Remove CleanSession
  by unfold_locales
    (auto simp: newStateTable_def st_Find_def st_Store_def st_Remove_def CleanSession_def Let_def
      split: option.splits)

section \<open>Ranges over the routes of a node\<close>

text \<open>
  The first service, in visiting order, that is routed to the node: the only one the inner
  range changes.
\<close>

definition first_route :: "ulid \<Rightarrow> int list \<Rightarrow> (int \<rightharpoonup> ulid) \<Rightarrow> int option" where
  "first_route nodeID order nodes = List.find (\<lambda>c. nodes c = Some nodeID) order"

lemma inner_range:
  "map_range (\<lambda>c id ns. if id = n then (ns(c := v), False) else (ns, True)) order nodes ns =
   (case first_route n order nodes of None \<Rightarrow> ns | Some c \<Rightarrow> ns(c := v))"
  by (induction order arbitrary: ns) (auto simp: first_route_def split: option.splits)

lemma cleanSessionNodes_eq:
  "cleanSessionNodes n order nodes =
     (case first_route n order nodes of None \<Rightarrow> nodes | Some c \<Rightarrow> nodes(c := None))"
  unfolding cleanSessionNodes_def by (subst inner_range [symmetric]) (simp add: eq_commute)

lemma replaceSessionNodes_eq:
  "replaceSessionNodes n m order nodes =
     (case first_route n order nodes of None \<Rightarrow> nodes | Some c \<Rightarrow> nodes(c \<mapsto> m))"
  unfolding replaceSessionNodes_def by (rule inner_range)

lemma outer_range:
  assumes "distinct ss"
  shows "map_range (\<lambda>s nodes t. (t(s \<mapsto> f s nodes), True)) ss m t x =
    (if x \<in> set ss \<and> m x \<noteq> None then map_option (f x) (m x) else t x)"
  using assms by (induction ss arbitrary: t) (auto split: option.splits)

lemma outer_range_all:
  assumes "enumerates ss m"
  shows "map_range (\<lambda>s nodes t. (t(s \<mapsto> f s nodes), True)) ss m m = (\<lambda>x. map_option (f x) (m x))"
  using assms by (intro ext) (auto simp: outer_range enumerates_def)

lemma first_route_Some:
  "first_route n order nodes = Some c \<Longrightarrow> nodes c = Some n \<and> c \<in> set order"
  unfolding first_route_def by (metis (mono_tags, lifting) find_Some_iff nth_mem)

lemma first_route_None:
  "enumerates order nodes \<Longrightarrow> first_route n order nodes = None \<longleftrightarrow> (\<forall>c. nodes c \<noteq> Some n)"
proof -
  assume "enumerates order nodes"
  then have "nodes c = Some n \<Longrightarrow> c \<in> set order" for c by (auto simp: enumerates_def)
  then show ?thesis unfolding first_route_def find_None_iff by blast
qed

section \<open>Properties\<close>

text \<open>
  The route table behaves as a map from session and service to node: a stored route is
  found until it is overwritten or removed, other sessions and services are not affected,
  and cleaning a session drops exactly the routes of that session, whatever was stored for
  it.
\<close>

theorem route_table_laws:
  "st_Find newStateTable s c = None \<and>
   st_Find (st_Store s c n t) s' c' = (if s' = s \<and> c' = c then Some n else st_Find t s' c') \<and>
   st_Find (st_Remove s c t) s' c' = (if s' = s \<and> c' = c then None else st_Find t s' c') \<and>
   st_Find (CleanSession s (fold (\<lambda>(c, n). st_Store s c n) rs t)) s' c' =
     (if s' = s then None else st_Find t s' c')"
  by (simp only: st.find_empty st.find_store st.find_remove st.clean_after_stores simp_thms)

text \<open>
  What \<open>CleanNode\<close> and \<open>ReplaceNode\<close> really do: for every session that has a route to
  the node, exactly one such route is dropped or rewritten, the first one visited; a
  session without a route to the node is not affected.
\<close>

theorem CleanNode_ReplaceNode_exact:
  assumes "enumerates sessions t"
  shows "st_Find (CleanNode n sessions inner t) s c =
      (if \<exists>nodes. t s = Some nodes \<and> first_route n (inner s nodes) nodes = Some c
       then None else st_Find t s c) \<and>
    st_Find (ReplaceNode n m sessions inner t) s c =
      (if \<exists>nodes. t s = Some nodes \<and> first_route n (inner s nodes) nodes = Some c
       then Some m else st_Find t s c)"
  unfolding CleanNode_def ReplaceNode_def outer_range_all [OF assms]
  by (auto simp: st_Find_def cleanSessionNodes_eq replaceSessionNodes_eq split: option.splits)

theorem CleanNode_ReplaceNode_exact_witness:
  "st_Find (CleanNode (ULID 1 0) [''u1''] (\<lambda>_ _. [7]) [''u1'' \<mapsto> [7 \<mapsto> ULID 1 0]]) ''u1'' 7 = None"
  using CleanNode_ReplaceNode_exact [of "[''u1'']" "[''u1'' \<mapsto> [7 \<mapsto> ULID 1 0]]" "ULID 1 0" "\<lambda>_ _. [7]" "''u1''" 7]
  by (simp add: enumerates_def first_route_def)

text \<open>
  C39. When a node is deleted, \<open>CleanNode\<close> removes every route to it exactly when no session
  has two services on that node; if one has, a route to the dead node survives.
\<close>

theorem CleanNode_complete_iff:
  assumes "enumerates sessions t" and "\<And>s nodes. t s = Some nodes \<Longrightarrow> enumerates (inner s nodes) nodes"
  shows "(\<forall>s c. st_Find (CleanNode n sessions inner t) s c \<noteq> Some n) \<longleftrightarrow>
    (\<forall>s c c'. st_Find t s c = Some n \<longrightarrow> st_Find t s c' = Some n \<longrightarrow> c = c')"
proof -
  have clean: "st_Find (CleanNode n sessions inner t) s c =
      (case t s of None \<Rightarrow> None | Some nodes \<Rightarrow> cleanSessionNodes n (inner s nodes) nodes c)" for s c
    unfolding CleanNode_def outer_range_all [OF assms(1)] by (auto simp: st_Find_def split: option.splits)
  have one: "(\<forall>c. cleanSessionNodes n (inner s nodes) nodes c \<noteq> Some n) \<longleftrightarrow>
      (\<forall>c c'. nodes c = Some n \<longrightarrow> nodes c' = Some n \<longrightarrow> c = c')" if "t s = Some nodes" for s nodes
  proof (cases "first_route n (inner s nodes) nodes")
    case None
    then show ?thesis
      using first_route_None [OF assms(2) [OF that], of n] by (simp add: cleanSessionNodes_eq)
  next
    case (Some d)
    have "nodes d = Some n" using first_route_Some [OF Some] by simp
    then show ?thesis
      unfolding cleanSessionNodes_eq Some option.case by (metis fun_upd_apply option.distinct(1))
  qed
  have "(\<forall>c. st_Find (CleanNode n sessions inner t) s c \<noteq> Some n) \<longleftrightarrow>
      (\<forall>c c'. st_Find t s c = Some n \<longrightarrow> st_Find t s c' = Some n \<longrightarrow> c = c')" for s
  proof (cases "t s")
    case None
    then show ?thesis using clean by (simp add: st_Find_def)
  next
    case (Some nodes)
    then show ?thesis using one [OF Some] clean by (simp add: st_Find_def)
  qed
  then show ?thesis by blast
qed

theorem CleanNode_complete_iff_witness:
  "\<exists>s c. st_Find (CleanNode (ULID 1 0) [''u1''] (\<lambda>_ _. [7, 8])
     [''u1'' \<mapsto> [7 \<mapsto> ULID 1 0, 8 \<mapsto> ULID 1 0]]) s c = Some (ULID 1 0)"
proof -
  let ?t = "[''u1'' \<mapsto> [7 \<mapsto> ULID 1 0, 8 \<mapsto> ULID 1 0]] :: stateTable"
  have "enumerates [''u1''] ?t" "\<And>s nodes. ?t s = Some nodes \<Longrightarrow> enumerates [7, 8] nodes"
    by (auto simp: enumerates_def split: if_splits)
  then have iff: "(\<forall>s c. st_Find (CleanNode (ULID 1 0) [''u1''] (\<lambda>_ _. [7, 8]) ?t) s c \<noteq> Some (ULID 1 0)) \<longleftrightarrow>
    (\<forall>s c c'. st_Find ?t s c = Some (ULID 1 0) \<longrightarrow> st_Find ?t s c' = Some (ULID 1 0) \<longrightarrow> c = c')"
    by (rule CleanNode_complete_iff)
  have "st_Find ?t ''u1'' 7 = Some (ULID 1 0)" "st_Find ?t ''u1'' 8 = Some (ULID 1 0)"
    by (simp_all add: st_Find_def)
  then have "\<not> (\<forall>s c c'. st_Find ?t s c = Some (ULID 1 0) \<longrightarrow> st_Find ?t s c' = Some (ULID 1 0) \<longrightarrow> c = c')"
    by (metis numeral_eq_iff semiring_norm(85) semiring_norm(88) semiring_norm(89) semiring_norm(90))
  with iff show ?thesis by blast
qed

end
