(* ===== verification/Gateway_Session.thy ===== *)
theory Gateway_Session
  imports Nh_Messages Cluster_Entry
begin

text \<open>
  The three transports of a gateway and their sessions (\<open>src/component/gateway/tcp.go\<close>,
  \<open>websocket.go\<close>, \<open>quic.go\<close>). The network is an argument or part of the session: a TCP
  connection is the bytes it delivers and the bytes that were written; a websocket
  connection delivers messages; a QUIC session receives the messages of its streams over a
  channel. \<open>now\<close> is the current time, \<open>unmarshal\<close> and \<open>marshal\<close> stand for
  \<open>proto.Unmarshal\<close> and \<open>proto.Marshal\<close>, and \<open>new_id\<close> for the fresh ULID text.
\<close>

type_synonym metadata = "string \<rightharpoonup> string list"

section \<open>TCP\<close>

record tcpServer =
  tcp_listenAddr :: string
  tcp_listener :: "nat option"

definition NewTCPServer :: "string \<Rightarrow> tcpServer" where
  "NewTCPServer listenAddr = \<lparr>tcp_listenAddr = listenAddr, tcp_listener = None\<rparr>"

definition BindTCPServer :: "string \<Rightarrow> nat \<Rightarrow> tcpServer" where
  "BindTCPServer addr listener = \<lparr>tcp_listenAddr = addr, tcp_listener = Some listener\<rparr>"

definition tcp_CompleteNodeEntry :: "tcpServer \<Rightarrow> NodeEntry \<Rightarrow> NodeEntry" where
  "tcp_CompleteNodeEntry ts entry = entry\<lparr>Entrance := ''tcp://'' @ tcp_listenAddr ts\<rparr>"

text \<open>
  \<open>Serve\<close> listens unless a listener was bound; its goroutine turns accepted connections
  into sessions until the context is done or the listener is closed, and skips other
  accept errors.
\<close>

definition tcp_Listen :: "(string \<Rightarrow> go_error + nat) \<Rightarrow> tcpServer \<Rightarrow> tcpServer go" where
  "tcp_Listen listen ts =
     (case tcp_listener ts of
        Some _ \<Rightarrow> Ok ts
      | None \<Rightarrow>
          (case listen (tcp_listenAddr ts) of
             Inl err \<Rightarrow> Error (ErrWrap ''listen'' err)
           | Inr l \<Rightarrow> Ok (ts\<lparr>tcp_listener := Some l\<rparr>)))"

datatype 'c accept_event = AcceptCtxDone | AcceptErr go_error | Accepted 'c

fun accept_loop :: "('c \<Rightarrow> 's) \<Rightarrow> 'c accept_event list \<Rightarrow> 's list" where
  "accept_loop newSession [] = []"
| "accept_loop newSession (AcceptCtxDone # evs) = []"
| "accept_loop newSession (AcceptErr err # evs) =
     (if errors_Is err ErrClosed then [] else accept_loop newSession evs)"
| "accept_loop newSession (Accepted conn # evs) = newSession conn # accept_loop newSession evs"

record tcpSession =
  ts_id :: string
  ts_md :: metadata
  ts_lastRWTime :: int
  ts_closed :: bool
  ts_r :: io_Reader
  ts_written :: "byte list"
  ts_localAddr :: string
  ts_remoteAddr :: string

definition newTCPSession :: "string \<Rightarrow> int \<Rightarrow> io_Reader \<Rightarrow> string \<Rightarrow> string \<Rightarrow> tcpSession" where
  "newTCPSession new_id now conn local remote =
     \<lparr>ts_id = new_id, ts_md = Map.empty, ts_lastRWTime = now, ts_closed = False, ts_r = conn,
      ts_written = [], ts_localAddr = local, ts_remoteAddr = remote\<rparr>"

lemma ReadMessage_consumes:
  assumes "ReadMessage growcap r msg = Ok (r', msg', None)"
  shows "length (rd_bytes r') < length (rd_bytes r)"
proof -
  obtain r1 hdr where h: "ReadFull SizeLen r = (r1, Inr hdr)"
    using assms by (auto simp: ReadMessage_def Let_def split: if_splits prod.splits sum.splits)
  then have "length (rd_bytes r1) < length (rd_bytes r)"
    by (auto simp: ReadFull_def SizeLen_def split: if_splits)
  moreover have "length (rd_bytes r') \<le> length (rd_bytes r1)"
    using assms h by (auto simp: ReadMessage_def ReadFull_def Let_def split: if_splits prod.splits sum.splits)
  ultimately show ?thesis by simp
qed

text \<open>The loop of \<open>Recv\<close>: empty frames are pings and are skipped.\<close>

function tcp_recv_loop ::
  "(nat \<Rightarrow> nat) \<Rightarrow> int \<Rightarrow> tcpSession \<Rightarrow> Message \<Rightarrow> (tcpSession \<times> Message \<times> go_error option) go" where
  "tcp_recv_loop growcap now ts msg =
     (case ReadMessage growcap (ts_r ts) msg of
        Ok (r', msg', Some err) \<Rightarrow> Ok (ts\<lparr>ts_r := r'\<rparr>, msg', Some (ErrWrap ''read message'' err))
      | Ok (r', msg', None) \<Rightarrow>
          let ts' = ts\<lparr>ts_r := r', ts_lastRWTime := now\<rparr>
          in if msg_Len msg' > 0 then Ok (ts', msg', None) else tcp_recv_loop growcap now ts' msg'
      | Error e \<Rightarrow> Error e
      | Panic p \<Rightarrow> Panic p)"
  by pat_completeness auto

termination
  by (relation "measure (\<lambda>(growcap, now, ts, msg). length (rd_bytes (ts_r ts)))")
    (auto dest: ReadMessage_consumes)

declare tcp_recv_loop.simps [simp del]

definition tcp_Recv ::
  "(nat \<Rightarrow> nat) \<Rightarrow> (byte list \<Rightarrow> go_error + Request) \<Rightarrow> int \<Rightarrow> tcpSession \<Rightarrow> Message \<Rightarrow>
   (tcpSession \<times> (go_error + Request)) go" where
  "tcp_Recv growcap unmarshal now ts msg =
     go_bind (tcp_recv_loop growcap now ts msg) (\<lambda>(ts', msg', err).
       case err of
         Some e \<Rightarrow> Ok (ts', Inl (if errors_Is e ErrClosed then EOF else e))
       | None \<Rightarrow>
           go_bind (msg_Bytes msg') (\<lambda>data.
             case unmarshal data of
               Inl e \<Rightarrow>
                 let e' = ErrWrap ''unmarshal request'' e
                 in Ok (ts', Inl (if errors_Is e' ErrClosed then EOF else e'))
             | Inr req \<Rightarrow> Ok (ts', Inr req)))"

text \<open>\<open>write\<close> is the outcome of \<open>conn.Write\<close>; on success the bytes are on the wire.\<close>

definition tcp_Send ::
  "(Reply \<Rightarrow> go_error + byte list) \<Rightarrow> (byte list \<Rightarrow> go_error option) \<Rightarrow> int \<Rightarrow> Reply \<Rightarrow> tcpSession \<Rightarrow>
   tcpSession \<times> go_error option" where
  "tcp_Send marshal write now reply ts =
     (case SendReply marshal reply write of
        Some e \<Rightarrow> (ts, Some e)
      | None \<Rightarrow>
          (case marshal reply of
             Inr data \<Rightarrow> (ts\<lparr>ts_lastRWTime := now, ts_written := ts_written ts @ frame data\<rparr>, None)
           | Inl e \<Rightarrow> (ts, Some e)))"

definition tcp_Close :: "go_error option \<Rightarrow> tcpSession \<Rightarrow> tcpSession \<times> go_error option" where
  "tcp_Close connClose ts = (if ts_closed ts then (ts, None) else (ts\<lparr>ts_closed := True\<rparr>, connClose))"

definition tcp_SetID :: "string \<Rightarrow> tcpSession \<Rightarrow> tcpSession" where
  "tcp_SetID sessID ts = ts\<lparr>ts_id := sessID\<rparr>"

definition tcp_SetMetadata :: "metadata \<Rightarrow> tcpSession \<Rightarrow> tcpSession" where
  "tcp_SetMetadata md ts = ts\<lparr>ts_md := md\<rparr>"

section \<open>Websocket\<close>

record wsSession =
  ws_id :: string
  ws_md :: metadata
  ws_lastRWTime :: int
  ws_done :: bool
  ws_remote :: string
  ws_connRemote :: string
  ws_out :: "byte list list"

definition BinaryMessage :: int where "BinaryMessage = 2"

definition newWsSession :: "string \<Rightarrow> int \<Rightarrow> string \<Rightarrow> string \<Rightarrow> wsSession" where
  "newWsSession new_id now remoteAddr connRemote =
     \<lparr>ws_id = new_id, ws_md = Map.empty, ws_lastRWTime = now, ws_done = False,
      ws_remote = remoteAddr, ws_connRemote = connRemote, ws_out = []\<rparr>"

text \<open>The remote address of a connection behind a proxy comes from the header \<open>x-remote-addr\<close>.\<close>

definition ws_newSession ::
  "go_error option \<Rightarrow> string \<Rightarrow> string \<Rightarrow> string \<Rightarrow> int \<Rightarrow> string \<Rightarrow> wsSession go" where
  "ws_newSession upgradeErr httpRemote header new_id now connRemote =
     (case upgradeErr of
        Some err \<Rightarrow> Error (ErrWrap ''upgrade websocket'' err)
      | None \<Rightarrow>
          let remoteAddr = (if header \<noteq> [] then header else httpRemote)
          in Ok (newWsSession new_id now remoteAddr connRemote))"

definition ws_pingPong :: "int \<Rightarrow> wsSession \<Rightarrow> wsSession" where
  "ws_pingPong now ws = ws\<lparr>ws_lastRWTime := now\<rparr>"

text \<open>
  \<open>received\<close> is the result of \<open>conn.ReadMessage\<close>; \<open>isClose\<close> tells whether an error is
  one of the three expected close errors of the websocket library.
\<close>

definition ws_Recv ::
  "(go_error \<Rightarrow> bool) \<Rightarrow> (byte list \<Rightarrow> go_error + Request) \<Rightarrow> int \<Rightarrow> go_error + int \<times> byte list \<Rightarrow>
   wsSession \<Rightarrow> wsSession \<times> (go_error + Request)" where
  "ws_Recv isClose unmarshal now received ws =
     (if ws_done ws then (ws, Inl EOF)
      else case received of
        Inl err \<Rightarrow> if isClose err \<or> errors_Is err ErrClosed then (ws, Inl EOF) else (ws, Inl err)
      | Inr (messageType, message) \<Rightarrow>
          if messageType \<noteq> BinaryMessage
          then (ws, Inl (ErrNew (''unexpected message type: '' @ itoa messageType)))
          else let ws' = ws\<lparr>ws_lastRWTime := now\<rparr>
               in case unmarshal message of
                    Inl err \<Rightarrow> (ws', Inl (ErrWrap ''unmarshal request'' err))
                  | Inr req \<Rightarrow> (ws', Inr req))"

definition ws_Send ::
  "(Reply \<Rightarrow> go_error + byte list) \<Rightarrow> (byte list \<Rightarrow> go_error option) \<Rightarrow> int \<Rightarrow> Reply \<Rightarrow> wsSession \<Rightarrow>
   wsSession \<times> go_error option" where
  "ws_Send marshal write now reply ws =
     (case marshal reply of
        Inl err \<Rightarrow> (ws, Some (ErrWrap ''marshal response'' err))
      | Inr data \<Rightarrow>
          (case write data of
             None \<Rightarrow> (ws\<lparr>ws_lastRWTime := now, ws_out := ws_out ws @ [data]\<rparr>, None)
           | Some err \<Rightarrow> (ws, Some err)))"

definition ws_RemoteAddr :: "wsSession \<Rightarrow> string" where
  "ws_RemoteAddr ws = (if ws_remote ws \<noteq> [] then ws_remote ws else ws_connRemote ws)"

definition ws_Close :: "wsSession \<Rightarrow> wsSession" where
  "ws_Close ws = ws\<lparr>ws_done := True\<rparr>"

section \<open>QUIC\<close>

text \<open>A stream is its \<open>StreamID\<close>.\<close>

type_synonym quicStreams = "int list"

definition newQuicStreams :: quicStreams where
  "newQuicStreams = []"

definition qs_Len :: "quicStreams \<Rightarrow> nat" where
  "qs_Len ss = length ss"

definition qs_Append :: "int \<Rightarrow> quicStreams \<Rightarrow> quicStreams" where
  "qs_Append s ss = ss @ [s]"

definition qs_Remove :: "int \<Rightarrow> quicStreams \<Rightarrow> quicStreams" where
  "qs_Remove s ss = filter (\<lambda>v. \<not> s = v) ss"

definition qs_Pick :: "int \<Rightarrow> quicStreams \<Rightarrow> int option go" where
  "qs_Pick serviceCode ss =
     (let l = length ss in
      if l = 0 then Ok None
      else if l = 1 then Ok (Some (ss ! 0))
      else go_bind (go_index ss (go_rem serviceCode (int l))) (\<lambda>s. Ok (Some s)))"

text \<open>\<open>CloseAll\<close> closes one stream after the other, dropping the errors; \<open>closed\<close> are those closed so far.\<close>

definition qs_CloseAll :: "quicStreams \<Rightarrow> int list \<Rightarrow> int list" where
  "qs_CloseAll ss closed = fold (\<lambda>s closed. closed @ [s]) ss closed"

record quicSession =
  q_id :: string
  q_md :: metadata
  q_lastRWTime :: int
  q_done :: bool
  q_streams :: quicStreams
  q_closedStreams :: "int list"
  q_out :: "(int \<times> byte list) list"

definition newQuicSession :: "string \<Rightarrow> int \<Rightarrow> quicSession" where
  "newQuicSession new_id now =
     \<lparr>q_id = new_id, q_md = Map.empty, q_lastRWTime = now, q_done = False, q_streams = newQuicStreams,
      q_closedStreams = [], q_out = []\<rparr>"

definition q_Close :: "quicSession \<Rightarrow> quicSession" where
  "q_Close q = (if q_done q then q
     else q\<lparr>q_done := True, q_closedStreams := qs_CloseAll (q_streams q) (q_closedStreams q)\<rparr>)"

text \<open>
  The goroutines of the session: a stream is accepted, accepting fails, or the reader of a
  stream ends, which closes the session with its last stream.
\<close>

definition q_acceptStream :: "int \<Rightarrow> quicSession \<Rightarrow> quicSession" where
  "q_acceptStream s q = q\<lparr>q_streams := qs_Append s (q_streams q)\<rparr>"

definition q_acceptFailed :: "quicSession \<Rightarrow> quicSession" where
  "q_acceptFailed q = q_Close q"

definition q_streamEnded :: "int \<Rightarrow> quicSession \<Rightarrow> quicSession" where
  "q_streamEnded s q =
     (let q' = q\<lparr>q_streams := qs_Remove s (q_streams q)\<rparr>
      in if qs_Len (q_streams q') = 0 then q_Close q' else q')"

text \<open>
  \<open>Recv\<close> over what its select sees: the session is done (\<open>None\<close>), or a message; empty
  messages are pings. It waits when nothing is left (\<open>None\<close> as the result).
\<close>

fun q_Recv ::
  "(byte list \<Rightarrow> go_error + Request) \<Rightarrow> byte list option list \<Rightarrow> (byte list option list \<times> (go_error + Request)) option"
where
  "q_Recv unmarshal [] = None"
| "q_Recv unmarshal (None # ins) = Some (ins, Inl EOF)"
| "q_Recv unmarshal (Some msg # ins) =
     (if length msg = 0 then q_Recv unmarshal ins
      else case unmarshal msg of
        Inl err \<Rightarrow> Some (ins, Inl (ErrWrap ''unmarshal request'' err))
      | Inr req \<Rightarrow> Some (ins, Inr req))"

definition q_Send ::
  "(Reply \<Rightarrow> go_error + byte list) \<Rightarrow> (byte list \<Rightarrow> go_error option) \<Rightarrow> int \<Rightarrow> Reply \<Rightarrow> quicSession \<Rightarrow>
   (quicSession \<times> go_error option) go" where
  "q_Send marshal write now reply q =
     go_bind (qs_Pick (rep_ServiceCode reply) (q_streams q)) (\<lambda>picked.
       case picked of
         None \<Rightarrow> Ok (q, Some (ErrNew ''no available stream''))
       | Some s \<Rightarrow>
           (case marshal reply of
              Inl err \<Rightarrow> Ok (q, Some (ErrWrap ''marshal reply'' err))
            | Inr data \<Rightarrow>
                (case write (frame data) of
                   Some err \<Rightarrow> Ok (q, Some err)
                 | None \<Rightarrow> Ok (q\<lparr>q_lastRWTime := now, q_out := q_out q @ [(s, frame data)]\<rparr>, None))))"

text \<open>
  Which errors of the QUIC library are worth a log line; \<open>appCode\<close> is the code of an
  application error and \<open>idle\<close> tells an idle timeout.
\<close>

definition isUnexpectedQUICError :: "(go_error \<Rightarrow> int option) \<Rightarrow> (go_error \<Rightarrow> bool) \<Rightarrow> go_error option \<Rightarrow> bool" where
  "isUnexpectedQUICError appCode idle err =
     (case err of
        None \<Rightarrow> False
      | Some e \<Rightarrow> (case appCode e of Some code \<Rightarrow> code > 0 | None \<Rightarrow> \<not> idle e))"

definition quic_CompleteNodeEntry :: "string \<Rightarrow> NodeEntry \<Rightarrow> NodeEntry" where
  "quic_CompleteNodeEntry listenAddr entry = entry\<lparr>Entrance := ''quic://'' @ listenAddr\<rparr>"

declare newQuicStreams_def [simp]

lemma qs_CloseAll_append [simp]: "qs_CloseAll ss closed = closed @ ss"
  by (induction ss arbitrary: closed) (simp_all add: qs_CloseAll_def)

section \<open>Properties\<close>

lemma tcp_recv_pings:
  assumes "msg_ok msg" and "\<And>s. s \<le> growcap s" and "data \<noteq> []" and "int (length data) \<le> MaxMessageSize"
    and "rd_bytes (ts_r ts) = concat (replicate k (frame [])) @ frame data @ rest"
  shows "\<exists>msg'. tcp_recv_loop growcap now ts msg =
      Ok (ts\<lparr>ts_r := (ts_r ts)\<lparr>rd_bytes := rest\<rparr>, ts_lastRWTime := now\<rparr>, msg', None) \<and>
    msg_ok msg' \<and> msg_Bytes msg' = Ok data"
  using assms(1,5)
proof (induction k arbitrary: ts msg)
  case 0
  then obtain msg' where m: "ReadMessage growcap (ts_r ts) msg = Ok ((ts_r ts)\<lparr>rd_bytes := rest\<rparr>, msg', None)"
    "msg_ok msg'" "msg_Bytes msg' = Ok data"
    using ReadMessage_frame [OF 0(1) _ assms(4,2)] by fastforce
  have "msg_Len msg' > 0" using m(3) assms(3) by (auto simp: msg_Bytes_def msg_Len_def split: if_splits)
  then show ?case using m by (subst tcp_recv_loop.simps) (simp add: Let_def)
next
  case (Suc k)
  let ?rest = "concat (replicate k (frame [])) @ frame data @ rest"
  have "rd_bytes (ts_r ts) = frame [] @ ?rest" using Suc.prems(2) by simp
  then obtain msg' where m: "ReadMessage growcap (ts_r ts) msg = Ok ((ts_r ts)\<lparr>rd_bytes := ?rest\<rparr>, msg', None)"
    "msg_ok msg'" "msg_Bytes msg' = Ok []"
    using ReadMessage_frame [OF Suc.prems(1) _ _ assms(2), of "ts_r ts" "[]" ?rest] by (auto simp: MaxMessageSize_def)
  define ts' where "ts' = ts\<lparr>ts_r := (ts_r ts)\<lparr>rd_bytes := ?rest\<rparr>, ts_lastRWTime := now\<rparr>"
  have "\<not> msg_Len msg' > 0"
  proof -
    have "take (msg_size msg') (msg_data msg') = []" "msg_size msg' \<le> length (msg_data msg')"
      using m(3) by (auto simp: msg_Bytes_def split: if_splits)
    then show ?thesis by (cases "msg_data msg'") (auto simp: msg_Len_def)
  qed
  then have "tcp_recv_loop growcap now ts msg = tcp_recv_loop growcap now ts' msg'"
    using m(1) by (subst tcp_recv_loop.simps) (simp add: Let_def ts'_def)
  then show ?case using Suc.IH [OF m(2), of ts'] by (simp add: ts'_def)
qed

lemma tcp_Recv_frame:
  assumes "msg_ok msg" and "\<And>s. s \<le> growcap s" and "data \<noteq> []" and "int (length data) \<le> MaxMessageSize"
    and "rd_bytes (ts_r ts) = concat (replicate k (frame [])) @ frame data @ rest"
    and "unmarshal data = Inr req"
  shows "tcp_Recv growcap unmarshal now ts msg =
    Ok (ts\<lparr>ts_r := (ts_r ts)\<lparr>rd_bytes := rest\<rparr>, ts_lastRWTime := now\<rparr>, Inr req)"
  using tcp_recv_pings [OF assms(1-5), of now] assms(6) by (auto simp: tcp_Recv_def)

text \<open>
  A TCP session skips any number of pings and then delivers the next request: on a
  stream of empty frames followed by the frame of a request, \<open>Recv\<close> consumes exactly these
  frames, marks the session as active and returns what \<open>proto.Unmarshal\<close> makes of the
  request's bytes.
\<close>

theorem tcp_Recv_next:
  assumes "msg_ok msg" and "\<And>s. s \<le> growcap s" and "data \<noteq> []" and "int (length data) \<le> MaxMessageSize"
    and "rd_bytes (ts_r ts) = concat (replicate k (frame [])) @ frame data @ rest"
    and "unmarshal data = Inr req"
  shows "tcp_Recv growcap unmarshal now ts msg =
    Ok (ts\<lparr>ts_r := (ts_r ts)\<lparr>rd_bytes := rest\<rparr>, ts_lastRWTime := now\<rparr>, Inr req)"
  using tcp_Recv_frame [of msg growcap data ts k rest unmarshal req now] assms by blast

definition demo_tcp :: tcpSession where
  "demo_tcp = newTCPSession ''s1'' 0 \<lparr>rd_bytes = frame [] @ frame [] @ frame [8, 1] @ [0], rd_err = EOF\<rparr>
     ''127.0.0.1:9000'' ''10.0.0.9:4000''"

theorem tcp_Recv_next_witness:
  "tcp_Recv id (\<lambda>d. Inr (empty_Request\<lparr>req_Data := d\<rparr>)) 5 demo_tcp pool_msg =
   Ok (demo_tcp\<lparr>ts_r := \<lparr>rd_bytes = [0], rd_err = EOF\<rparr>, ts_lastRWTime := 5\<rparr>,
     Inr (empty_Request\<lparr>req_Data := [8, 1]\<rparr>))"
  using tcp_Recv_next [of pool_msg id "[8, 1]" demo_tcp 2 "[0]" "\<lambda>d. Inr (empty_Request\<lparr>req_Data := d\<rparr>)"
      "empty_Request\<lparr>req_Data := [8, 1]\<rparr>" 5]
  by (simp add: MaxMessageSize_def demo_tcp_def newTCPSession_def numeral_2_eq_2)

fun tcp_sends ::
  "(Reply \<Rightarrow> go_error + byte list) \<Rightarrow> int \<Rightarrow> Reply list \<Rightarrow> tcpSession \<Rightarrow> tcpSession" where
  "tcp_sends marshal now [] ts = ts"
| "tcp_sends marshal now (r # rs) ts = tcp_sends marshal now rs (fst (tcp_Send marshal (\<lambda>_. None) now r ts))"

lemma tcp_sends_written:
  assumes "\<forall>r \<in> set rs. marshal r = Inr (enc r)"
  shows "ts_written (tcp_sends marshal now rs ts) = ts_written ts @ concat (map (frame \<circ> enc) rs)"
  using assms
  by (induction rs arbitrary: ts) (simp_all add: tcp_Send_def SendReply_def SendBytes_frame)

text \<open>
  What a TCP session sends, the peer reads: after replies were sent over a fresh
  connection, a peer that reads the written bytes with \<open>ReadMessage\<close> gets the encoded
  replies, in order and nothing else.
\<close>

theorem tcp_replies_arrive:
  assumes "\<forall>r \<in> set rs. marshal r = Inr (enc r) \<and> int (length (enc r)) \<le> MaxMessageSize"
    and "ts_written ts = []" and "msg_ok msg" and "\<And>s. s \<le> growcap s"
  shows "read_msgs growcap (length rs)
      \<lparr>rd_bytes = ts_written (tcp_sends marshal now rs ts), rd_err = EOF\<rparr> msg =
    Some (\<lparr>rd_bytes = [], rd_err = EOF\<rparr>, map enc rs)"
proof -
  let ?r = "\<lparr>rd_bytes = ts_written (tcp_sends marshal now rs ts), rd_err = EOF\<rparr>"
  have w: "ts_written (tcp_sends marshal now rs ts) = concat (map frame (map enc rs)) @ []"
    using assms(1,2) tcp_sends_written [of rs marshal enc now ts] by (simp add: comp_def)
  have "\<forall>m \<in> set (map enc rs). int (length m) \<le> MaxMessageSize" using assms(1) by simp
  from frames_read_back [OF this assms(3,4), of ?r "[]"] show ?thesis
    using w by simp
qed

theorem tcp_replies_arrive_witness:
  "read_msgs id 1 \<lparr>rd_bytes = ts_written (tcp_sends (\<lambda>r. Inr (rep_Data r)) 3
      [empty_Reply\<lparr>rep_Data := [1, 2]\<rparr>] demo_tcp), rd_err = EOF\<rparr> pool_msg =
   Some (\<lparr>rd_bytes = [], rd_err = EOF\<rparr>, [[1, 2]])"
  using tcp_replies_arrive [of "[empty_Reply\<lparr>rep_Data := [1, 2]\<rparr>]" "\<lambda>r. Inr (rep_Data r)" rep_Data
      demo_tcp pool_msg id 3]
  by (simp add: MaxMessageSize_def demo_tcp_def newTCPSession_def del: read_msgs.simps)

text \<open>
  A QUIC session sends all replies of a service over one stream while its streams stay
  the same, but a negative service code can crash it: \<open>Pick\<close> panics exactly when there are
  at least two streams and the code is negative and not divisible by their number.
\<close>

theorem quic_Pick_cases:
  "(\<exists>p. qs_Pick c ss = Panic p) \<longleftrightarrow> 2 \<le> length ss \<and> c < 0 \<and> \<not> int (length ss) dvd c"
proof -
  have "(\<exists>p. qs_Pick c ss = Panic p) \<longleftrightarrow> 2 \<le> length ss \<and> \<not> (\<exists>s. go_index ss (go_rem c (int (length ss))) = Ok s)"
  proof -
    have "2 \<le> length ss \<longleftrightarrow> length ss \<noteq> 0 \<and> length ss \<noteq> 1" by linarith
    then show ?thesis
      by (cases "go_index ss (go_rem c (int (length ss)))") (simp_all add: qs_Pick_def Let_def)
  qed
  also have "\<dots> \<longleftrightarrow> 2 \<le> length ss \<and> \<not> (0 \<le> c \<or> int (length ss) dvd c)"
    using go_rem_index [of ss c] by (cases "0 < length ss") auto
  finally show ?thesis by auto
qed

text \<open>
  A closed session stays closed and a dead one closes itself: \<open>Close\<close> is idempotent and
  closes every stream once; when the last stream ends the QUIC session is closed; and after
  \<open>Close\<close> a websocket session reports the end of the stream whatever still arrives.
\<close>

theorem session_close_final:
  "q_Close (q_Close q) = q_Close q \<and>
   (qs_Remove s (q_streams q) = [] \<longrightarrow> q_done (q_streamEnded s q)) \<and>
   (\<not> q_done q \<longrightarrow> q_closedStreams (q_Close q) = q_closedStreams q @ q_streams q) \<and>
   ws_Recv isClose unmarshal now received (ws_Close ws) = (ws_Close ws, Inl EOF) \<and>
   tcp_Close e (fst (tcp_Close e' ts)) = (fst (tcp_Close e' ts), None)"
  by (simp add: q_Close_def q_streamEnded_def qs_Len_def ws_Recv_def ws_Close_def tcp_Close_def Let_def)

theorem session_close_final_witness:
  "q_done (q_streamEnded 4 (q_acceptStream 4 (newQuicSession ''s'' 0)))"
  using session_close_final [of "q_acceptStream 4 (newQuicSession ''s'' 0)" 4]
  by (simp add: q_acceptStream_def newQuicSession_def qs_Append_def qs_Remove_def)

end
