(* ===== verification/Gateway_Proxy.thy ===== *)
theory Gateway_Proxy
  imports Cluster_Registry Gateway_State Gateway_Session
begin

text \<open>
  Request handling of the gateway (\<open>src/component/gateway/proxy.go\<close>, \<open>options.go\<close>): the
  options, choosing the upstream node of a request, forwarding it and answering the client,
  and delivering multicast messages.

  What lies outside the program is collected in the record \<open>gw_env\<close>: \<open>status.FromError\<close>
  (the status an error carries, if it carries one), \<open>ulid.Parse\<close>, the hash and random source
  of the balancers, dialling, the remote call, the protobuf codec and the fresh transaction
  id. A reply handed to \<open>sess.Send\<close> is in the list \<open>hr_sent\<close>; an error of \<open>Send\<close> is only
  logged.
\<close>

text \<open>The session as the request path sees it.\<close>

record sess_info =
  si_ID :: string
  si_RemoteAddr :: string
  si_md :: metadata

section \<open>Options\<close>

text \<open>
  The interceptors: a request is passed or not, or fails; a connect is refused by an error.
  What a disconnect interceptor does lies outside the gateway.
\<close>

type_synonym RequestInterceptor = "sess_info \<Rightarrow> Request \<Rightarrow> go_error + bool"
type_synonym ConnectInterceptor = "sess_info \<Rightarrow> go_error option"
type_synonym DisconnectInterceptor = "sess_info \<Rightarrow> unit"

record Options =
  opt_Transporter :: bool
  opt_Initializer :: bool
  opt_Registry :: bool
  opt_EventBus :: bool
  opt_Multicast :: bool
  opt_KeepaliveInterval :: int
  opt_RequstTimeout :: int
  opt_RequestLogger :: bool
  opt_GoPool :: bool
  opt_RequestInterceptor :: RequestInterceptor
  opt_ConnectInterceptor :: ConnectInterceptor
  opt_DisconnectInterceptor :: DisconnectInterceptor

text \<open>A component that must not be nil is represented by whether it was set.\<close>

definition defaultRequestInterceptor :: RequestInterceptor where
  "defaultRequestInterceptor sess req = Inr True"

definition defaultConnectInterceptor :: ConnectInterceptor where
  "defaultConnectInterceptor sess = None"

definition defaultDisconnectInterceptor :: DisconnectInterceptor where
  "defaultDisconnectInterceptor sess = ()"

definition newOptions :: Options where
  "newOptions = \<lparr>opt_Transporter = False, opt_Initializer = False, opt_Registry = False,
     opt_EventBus = False, opt_Multicast = False, opt_KeepaliveInterval = 60000000000,
     opt_RequstTimeout = 5000000000, opt_RequestLogger = False, opt_GoPool = False,
     opt_RequestInterceptor = defaultRequestInterceptor, opt_ConnectInterceptor = defaultConnectInterceptor,
     opt_DisconnectInterceptor = defaultDisconnectInterceptor\<rparr>"

definition options_Validate :: "Options \<Rightarrow> go_error option" where
  "options_Validate opt =
     (if \<not> opt_Registry opt then Some (ErrNew ''registry is nil'')
      else if \<not> opt_Transporter opt then Some (ErrNew ''transporter is nil'')
      else if \<not> opt_Initializer opt then Some (ErrNew ''initializer is nil'')
      else if \<not> opt_EventBus opt then Some (ErrNew ''eventBus is nil'')
      else if \<not> opt_Multicast opt then Some (ErrNew ''multicast subscriber is nil'')
      else None)"

text \<open>\<open>Duration.Abs\<close> maps the least duration to the greatest.\<close>

definition duration_Abs :: "int \<Rightarrow> int" where
  "duration_Abs d = (if d \<ge> 0 then d else if d = - (2 ^ 63) then 2 ^ 63 - 1 else - d)"

definition WithKeepaliveInterval :: "int \<Rightarrow> Options \<Rightarrow> Options" where
  "WithKeepaliveInterval interval opt = opt\<lparr>opt_KeepaliveInterval := duration_Abs interval\<rparr>"

definition WithRequestTimeout :: "int \<Rightarrow> Options \<Rightarrow> Options" where
  "WithRequestTimeout timeout opt = opt\<lparr>opt_RequstTimeout := duration_Abs timeout\<rparr>"

definition WithRegistry :: "Options \<Rightarrow> Options" where
  "WithRegistry opt = opt\<lparr>opt_Registry := True\<rparr>"

definition WithTransporter :: "Options \<Rightarrow> Options" where
  "WithTransporter opt = opt\<lparr>opt_Transporter := True\<rparr>"

definition WithInitializer :: "Options \<Rightarrow> Options" where
  "WithInitializer opt = opt\<lparr>opt_Initializer := True\<rparr>"

definition WithEventBus :: "Options \<Rightarrow> Options" where
  "WithEventBus opt = opt\<lparr>opt_EventBus := True\<rparr>"

definition WithMulticast :: "Options \<Rightarrow> Options" where
  "WithMulticast opt = opt\<lparr>opt_Multicast := True\<rparr>"

definition WithRequestLogger :: "Options \<Rightarrow> Options" where
  "WithRequestLogger opt = opt\<lparr>opt_RequestLogger := True\<rparr>"

definition WithGoPool :: "Options \<Rightarrow> Options" where
  "WithGoPool opt = opt\<lparr>opt_GoPool := True\<rparr>"

definition WithRequestInterceptor :: "RequestInterceptor \<Rightarrow> Options \<Rightarrow> Options" where
  "WithRequestInterceptor interceptor opt = opt\<lparr>opt_RequestInterceptor := interceptor\<rparr>"

definition WithConnectInterceptor :: "ConnectInterceptor \<Rightarrow> Options \<Rightarrow> Options" where
  "WithConnectInterceptor interceptor opt = opt\<lparr>opt_ConnectInterceptor := interceptor\<rparr>"

definition WithDisconnectInterceptor :: "DisconnectInterceptor \<Rightarrow> Options \<Rightarrow> Options" where
  "WithDisconnectInterceptor interceptor opt = opt\<lparr>opt_DisconnectInterceptor := interceptor\<rparr>"

text \<open>\<open>SetMaxMessageSize\<close> assigns the variable of the codec.\<close>

definition SetMaxMessageSize :: "int \<Rightarrow> codec_vars \<Rightarrow> codec_vars" where
  "SetMaxMessageSize maxSize vars = vars\<lparr>cv_MaxMessageSize := maxSize\<rparr>"

definition NewProxy :: "(Options \<Rightarrow> Options) list \<Rightarrow> Options go" where
  "NewProxy opts =
     (let o' = fold (\<lambda>fn o'. fn o') opts newOptions
      in case options_Validate o' of Some err \<Rightarrow> Error err | None \<Rightarrow> Ok o')"

section \<open>Forwarding a request\<close>

record gw_env =
  env_FromError :: "go_error \<Rightarrow> Status option"
  env_Parse :: "string \<Rightarrow> go_error + ulid"
  env_xxhash :: "string \<Rightarrow> 64 word"
  env_rnd :: "int \<Rightarrow> int"
  env_dial :: "string \<Rightarrow> go_error + nat"
  env_Invoke :: "nat \<Rightarrow> string \<Rightarrow> metadata \<Rightarrow> byte list \<Rightarrow> go_error + Reply"
  env_unmarshalEmpty :: "byte list \<Rightarrow> go_error option"
  env_marshalRPCError :: "RPCError \<Rightarrow> go_error + byte list"
  env_transactionID :: string

definition sess_view :: "sess_info \<Rightarrow> Session_view" where
  "sess_view sess = \<lparr>view_ID = si_ID sess, view_RemoteAddr = si_RemoteAddr sess\<rparr>"

definition MDTransactionID :: string where "MDTransactionID = ''x-trans''"
definition MDSessID :: string where "MDSessID = ''x-sess''"
definition MDGateway :: string where "MDGateway = ''x-gw''"

text \<open>The label \<open>FINISH\<close>: connect to the node, then run the deferred store of the route.\<close>

definition finishUpstream ::
  "gw_env \<Rightarrow> bool \<Rightarrow> sess_info \<Rightarrow> Request \<Rightarrow> ulid \<Rightarrow> Registry \<Rightarrow> stateTable \<Rightarrow>
   Registry \<times> stateTable \<times> nat go" where
  "finishUpstream env store sess req nodeID reg st =
     (case GetGRPCConn (env_dial env) nodeID reg of
        (reg', Ok conn) \<Rightarrow>
          (reg', if store then st_Store (si_ID sess) (req_ServiceCode req) nodeID st else st, Ok conn)
      | (reg', Error err) \<Rightarrow>
          (reg', st, Error (ErrStatus codes_Aborted (''get grpc conn, '' @ err_text err)))
      | (reg', Panic p) \<Rightarrow> (reg', st, Panic p))"

definition allocUpstream ::
  "gw_env \<Rightarrow> bool \<Rightarrow> sess_info \<Rightarrow> Request \<Rightarrow> Registry \<Rightarrow> stateTable \<Rightarrow> Registry \<times> stateTable \<times> nat go" where
  "allocUpstream env store sess req reg st =
     (case AllocGRPCNode (env_xxhash env) (env_rnd env) reg (req_ServiceCode req) (sess_view sess) of
        Ok nodeID \<Rightarrow> finishUpstream env store sess req nodeID reg st
      | Error err \<Rightarrow> (reg, st, Error (ErrStatus codes_Aborted (''pick grpc node, '' @ err_text err)))
      | Panic p \<Rightarrow> (reg, st, Panic p))"

definition getUpstream ::
  "gw_env \<Rightarrow> sess_info \<Rightarrow> Request \<Rightarrow> GRPCServiceDesc \<Rightarrow> Registry \<Rightarrow> stateTable \<Rightarrow>
   Registry \<times> stateTable \<times> nat go" where
  "getUpstream env sess req desc reg st =
     (if \<not> Stateful desc then allocUpstream env False sess req reg st
      else if Allocation desc = ClientAllocate \<and> req_NodeId req \<noteq> [] then
        (case env_Parse env (req_NodeId req) of
           Inl err \<Rightarrow> (reg, st, Error (ErrStatus codes_InvalidArgument
                        (''invalid request.NodeId, '' @ req_NodeId req)))
         | Inr nodeID \<Rightarrow> finishUpstream env True sess req nodeID reg st)
      else (case st_Find st (si_ID sess) (req_ServiceCode req) of
        Some nodeID \<Rightarrow> finishUpstream env False sess req nodeID reg st
      | None \<Rightarrow>
          if Allocation desc \<noteq> AutoAllocate \<and> ulid_Time ulid_zero = 0
          then (reg, st, Error (ErrStatus codes_Aborted ''no node allocated''))
          else allocUpstream env True sess req reg st))"

definition newEmptyMessage :: "gw_env \<Rightarrow> byte list \<Rightarrow> go_error option" where
  "newEmptyMessage env data = (if length data = 0 then None else env_unmarshalEmpty env data)"

record hr_result =
  hr_registry :: Registry
  hr_state :: stateTable
  hr_call :: "(nat \<times> string \<times> metadata \<times> byte list) option"
  hr_err :: "go_error option"
  hr_sent :: "Reply list"

text \<open>
  The body of \<open>handleRequest\<close> without its deferred functions: the call that was made and
  either the error or the reply to send.
\<close>

definition forwardRequest ::
  "gw_env \<Rightarrow> string \<Rightarrow> go_error + bool \<Rightarrow> sess_info \<Rightarrow> Request \<Rightarrow> Registry \<Rightarrow> stateTable \<Rightarrow> hr_result go" where
  "forwardRequest env gatewayID interceptor sess req reg st =
     (let res = \<lambda>reg' st' call err sent. Ok \<lparr>hr_registry = reg', hr_state = st', hr_call = call,
                                              hr_err = err, hr_sent = sent\<rparr> in
      case interceptor of
        Inl err \<Rightarrow> res reg st None (Some (ErrWrap ''request interceptor'' err)) []
      | Inr pass \<Rightarrow>
          if \<not> pass then res reg st None (Some (ErrNew ''request interceptor denied'')) []
          else case GetGRPCDesc reg (req_ServiceCode req) of
            None \<Rightarrow> res reg st None
              (Some (ErrStatus codes_Unimplemented (''unknown service '' @ itoa (req_ServiceCode req)))) []
          | Some desc \<Rightarrow>
              if \<not> Public desc
              then res reg st None (Some (ErrStatus codes_PermissionDenied ''request private service'')) []
              else case getUpstream env sess req desc reg st of
                (reg', st', Panic p) \<Rightarrow> Panic p
              | (reg', st', Error err) \<Rightarrow> res reg' st' None (Some err) []
              | (reg', st', Ok conn) \<Rightarrow>
                  let md = (si_md sess)(MDTransactionID \<mapsto> [env_transactionID env], MDSessID \<mapsto> [si_ID sess],
                             MDGateway \<mapsto> [gatewayID])
                  in case newEmptyMessage env (req_Data req) of
                       Some err \<Rightarrow> res reg' st' None (Some (ErrWrap ''unmarshal request data'' err)) []
                     | None \<Rightarrow>
                         let method = path_Join (Path desc) (req_Method req);
                             call = (conn, method, md, req_Data req)
                         in case env_Invoke env conn method md (req_Data req) of
                              Inl err \<Rightarrow> res reg' st' (Some call) (Some err) []
                            | Inr output \<Rightarrow>
                                if req_NoReply req then res reg' st' (Some call) None []
                                else res reg' st' (Some call) None
                                  [output\<lparr>rep_RequestId := req_Id req,
                                          rep_ServiceCode := req_ServiceCode req\<rparr>])"

text \<open>
  The deferred answer to a failed request. \<open>NewReply\<close>'s error is dropped, so a failure to
  encode the status would dereference a nil reply.
\<close>

definition errorReply :: "gw_env \<Rightarrow> Request \<Rightarrow> go_error \<Rightarrow> Reply list go" where
  "errorReply env req err =
     (case env_FromError env err of
        None \<Rightarrow> Ok []
      | Some s \<Rightarrow>
          let s' = (if st_Code s = codes_Unknown
                    then \<lparr>st_Code = codes_Unknown, st_Message = ''unknown error''\<rparr> else s)
          in case NewReply (env_marshalRPCError env) ReplyCode_RPC_ERROR
                    \<lparr>re_RequestService = req_ServiceCode req, re_RequestMethod = req_Method req,
                     re_Status = s'\<rparr> of
               Inl _ \<Rightarrow> Panic ''nil pointer dereference''
             | Inr reply \<Rightarrow> Ok [reply\<lparr>rep_RequestId := req_Id req\<rparr>])"

definition handleRequest ::
  "gw_env \<Rightarrow> string \<Rightarrow> go_error + bool \<Rightarrow> sess_info \<Rightarrow> Request \<Rightarrow> Registry \<Rightarrow> stateTable \<Rightarrow> hr_result go" where
  "handleRequest env gatewayID interceptor sess req reg st =
     go_bind (forwardRequest env gatewayID interceptor sess req reg st) (\<lambda>res.
       case hr_err res of
         None \<Rightarrow> Ok res
       | Some err \<Rightarrow>
           go_bind (errorReply env req err) (\<lambda>replies. Ok (res\<lparr>hr_sent := hr_sent res @ replies\<rparr>)))"

text \<open>The proxy asks the request interceptor of its options.\<close>

definition proxy_handleRequest ::
  "Options \<Rightarrow> gw_env \<Rightarrow> string \<Rightarrow> sess_info \<Rightarrow> Request \<Rightarrow> Registry \<Rightarrow> stateTable \<Rightarrow> hr_result go" where
  "proxy_handleRequest opts env gatewayID sess req reg st =
     handleRequest env gatewayID (opt_RequestInterceptor opts sess req) sess req reg st"

text \<open>
  \<open>submitTask\<close> hands a task to the pool of the options, or to the default pool of the library;
  the arguments are what the pools answer. \<open>sendReply\<close> drops the error of \<open>Send\<close> after
  logging it.
\<close>

definition submitTask :: "Options \<Rightarrow> go_error option \<Rightarrow> go_error option \<Rightarrow> bool" where
  "submitTask opts pool_Submit ants_Submit =
     (case (if opt_GoPool opts then pool_Submit else ants_Submit) of Some err \<Rightarrow> False | None \<Rightarrow> True)"

definition sendReply :: "(Reply \<Rightarrow> 's \<Rightarrow> 's \<times> go_error option) \<Rightarrow> 's \<Rightarrow> Reply \<Rightarrow> 's" where
  "sendReply send sess reply = fst (send reply sess)"

section \<open>Multicast\<close>

text \<open>
  The handler of a multicast message: the content is sent to the listed receivers that are
  connected to this gateway, in the order of the list; without receivers, to every session
  if the message asks for it. Each send is a task for the goroutine pool, \<open>submit n\<close> tells
  whether the \<open>n\<close>-th one was accepted, and the handler waits for all of them.
\<close>

definition accepted_tasks :: "(nat \<Rightarrow> bool) \<Rightarrow> 'a list \<Rightarrow> 'a list" where
  "accepted_tasks submit xs = map snd (filter (\<lambda>(n, x). submit n) (zip [0..<length xs] xs))"

definition multicast_targets :: "(string \<rightharpoonup> nat) \<Rightarrow> string list \<Rightarrow> Multicast \<Rightarrow> nat list" where
  "multicast_targets hub visit msg =
     (if length (mc_Receiver msg) > 0 then List.map_filter hub (mc_Receiver msg)
      else if mc_ToEveryone msg then map_values visit hub
      else [])"

definition handleMulticast ::
  "(nat \<Rightarrow> bool) \<Rightarrow> (string \<rightharpoonup> nat) \<Rightarrow> string list \<Rightarrow> Multicast \<Rightarrow> (nat \<times> Reply) list" where
  "handleMulticast submit hub visit msg =
     map (\<lambda>sess. (sess, mc_Content msg)) (accepted_tasks submit (multicast_targets hub visit msg))"

section \<open>Lemmas\<close>

lemma accepted_all [simp]: "accepted_tasks (\<lambda>_. True) xs = xs"
  by (simp add: accepted_tasks_def)

lemma GetGRPCConn_reg:
  "GetGRPCDesc (fst (GetGRPCConn dial i reg)) c = GetGRPCDesc reg c"
  by (simp add: GetGRPCConn_def GetGRPCDesc_def GetDesc_def split: prod.splits)
    (metis GetConn_frame(2) fst_conv)

lemma getConn_not_Panic: "snd (getConn dial e r) \<noteq> Panic p"
  by (simp add: getConn_def split: option.splits sum.splits)

lemma GetGRPCConn_not_Panic: "snd (GetGRPCConn dial i reg) \<noteq> Panic p"
  using getConn_not_Panic [of dial _ "reg_resolver reg" p]
  by (auto simp: GetGRPCConn_def GetConn_def split: prod.splits option.splits if_splits) (metis snd_conv)+

lemma finishUpstream_Ok:
  assumes "finishUpstream env store sess req i reg st = (reg', st', Ok conn)"
  shows "GetGRPCConn (env_dial env) i reg = (reg', Ok conn)"
    and "st' = (if store then st_Store (si_ID sess) (req_ServiceCode req) i st else st)"
  using assms by (auto simp: finishUpstream_def split: prod.splits go.splits)

lemma finishUpstream_fail_state:
  assumes "finishUpstream env store sess req i reg st = (reg', st', Error e)"
  shows "st' = st"
  using assms by (auto simp: finishUpstream_def split: prod.splits go.splits)

text \<open>Once a node answered \<open>GetGRPCConn\<close>, it does so again with the same connection.\<close>

lemma GetConn_again:
  assumes "GetConn dial i r = (r', Ok conn)"
  shows "GetConn dial' i r' = (r', Ok conn)"
proof -
  obtain n where n: "allNodes r i = Some n" "State n \<noteq> NodeDown"
    "getConn dial (Endpoint (GRPC n)) r = (r', Ok conn)"
    using assms by (auto simp: GetConn_def split: option.splits if_splits)
  then have "conns r' (Endpoint (GRPC n)) = Some conn"
    by (auto simp: getConn_def split: option.splits sum.splits)
  moreover have "allNodes r' = allNodes r"
    using getConn_frame(1) [of dial "Endpoint (GRPC n)" r] n(3) by simp
  ultimately show ?thesis using n by (simp add: GetConn_def getConn_def)
qed

lemma GetGRPCConn_again:
  assumes "GetGRPCConn dial i reg = (reg', Ok conn)"
  shows "GetGRPCConn dial' i reg' = (reg', Ok conn)"
proof -
  obtain res where "GetConn dial i (reg_resolver reg) = (res, Ok conn)" "reg' = reg\<lparr>reg_resolver := res\<rparr>"
    using assms by (auto simp: GetGRPCConn_def split: prod.splits)
  then show ?thesis using GetConn_again by (fastforce simp: GetGRPCConn_def split: prod.splits)
qed

lemma finishUpstream_again:
  assumes "GetGRPCConn dial i reg = (reg', Ok conn)"
  shows "finishUpstream env store sess req i reg' st =
    (reg', if store then st_Store (si_ID sess) (req_ServiceCode req) i st else st, Ok conn)"
  using GetGRPCConn_again [OF assms, of "env_dial env"] by (simp add: finishUpstream_def)

lemma hr_cases:
  assumes "forwardRequest env gw ic sess req reg st = Ok res"
  obtains (failed) e where "hr_err res = Some e" "hr_sent res = []" "hr_call res = None"
  | (called) desc conn err where "ic = Inr True" "GetGRPCDesc reg (req_ServiceCode req) = Some desc" "Public desc"
      "getUpstream env sess req desc reg st = (hr_registry res, hr_state res, Ok conn)"
      "hr_call res = Some (conn, path_Join (Path desc) (req_Method req),
         (si_md sess)(MDTransactionID \<mapsto> [env_transactionID env], MDSessID \<mapsto> [si_ID sess], MDGateway \<mapsto> [gw]),
         req_Data req)"
      "env_Invoke env conn (path_Join (Path desc) (req_Method req))
         ((si_md sess)(MDTransactionID \<mapsto> [env_transactionID env], MDSessID \<mapsto> [si_ID sess], MDGateway \<mapsto> [gw]))
         (req_Data req) = Inl err"
      "hr_err res = Some err" "hr_sent res = []"
  | (answered) desc conn out where "ic = Inr True" "GetGRPCDesc reg (req_ServiceCode req) = Some desc" "Public desc"
      "getUpstream env sess req desc reg st = (hr_registry res, hr_state res, Ok conn)"
      "hr_call res = Some (conn, path_Join (Path desc) (req_Method req),
         (si_md sess)(MDTransactionID \<mapsto> [env_transactionID env], MDSessID \<mapsto> [si_ID sess], MDGateway \<mapsto> [gw]),
         req_Data req)"
      "env_Invoke env conn (path_Join (Path desc) (req_Method req))
         ((si_md sess)(MDTransactionID \<mapsto> [env_transactionID env], MDSessID \<mapsto> [si_ID sess], MDGateway \<mapsto> [gw]))
         (req_Data req) = Inr out"
      "hr_err res = None"
      "hr_sent res = (if req_NoReply req then []
         else [out\<lparr>rep_RequestId := req_Id req, rep_ServiceCode := req_ServiceCode req\<rparr>])"
  using assms unfolding forwardRequest_def Let_def
  by (auto split: sum.splits if_splits option.splits prod.splits go.splits)

lemma errorReply_cases:
  assumes "errorReply env req err = Ok rs"
  shows "(env_FromError env err = None \<and> rs = []) \<or>
    (\<exists>s data. env_FromError env err = Some s \<and>
       env_marshalRPCError env \<lparr>re_RequestService = req_ServiceCode req, re_RequestMethod = req_Method req,
         re_Status = (if st_Code s = codes_Unknown
           then \<lparr>st_Code = codes_Unknown, st_Message = ''unknown error''\<rparr> else s)\<rparr> = Inr data \<and>
       rs = [empty_Reply\<lparr>rep_RequestId := req_Id req, rep_Code := ReplyCode_RPC_ERROR, rep_Data := data\<rparr>])"
  using assms
  by (auto simp: errorReply_def NewReply_def Let_def empty_Reply_def split: option.splits sum.splits)

lemma handleRequest_Ok:
  assumes "handleRequest env gw ic sess req reg st = Ok res"
  obtains fr rs where "forwardRequest env gw ic sess req reg st = Ok fr"
    "hr_call res = hr_call fr" "hr_err res = hr_err fr" "hr_registry res = hr_registry fr"
    "hr_state res = hr_state fr" "hr_sent res = hr_sent fr @ rs"
    "hr_err fr = None \<and> rs = [] \<or> (\<exists>e. hr_err fr = Some e \<and> errorReply env req e = Ok rs)"
proof -
  obtain fr where fr: "forwardRequest env gw ic sess req reg st = Ok fr"
    "(case hr_err fr of None \<Rightarrow> Ok fr
      | Some err \<Rightarrow> go_bind (errorReply env req err) (\<lambda>rs. Ok (fr\<lparr>hr_sent := hr_sent fr @ rs\<rparr>))) = Ok res"
    using assms by (auto simp: handleRequest_def go_bind_Ok_iff)
  show thesis
  proof (cases "hr_err fr")
    case None
    then show ?thesis using fr by (intro that [of fr "[]"]) simp_all
  next
    case (Some e)
    then obtain rs where "errorReply env req e = Ok rs" "res = fr\<lparr>hr_sent := hr_sent fr @ rs\<rparr>"
      using fr(2) by (auto simp: go_bind_Ok_iff)
    then show ?thesis using fr Some by (intro that [of fr rs]) simp_all
  qed
qed

section \<open>Properties\<close>

subsection \<open>A concrete gateway\<close>

text \<open>An environment whose calls answer with an empty reply, and a registry with the node of
  \<open>demo_resolver\<close>.\<close>

definition demo_env :: gw_env where
  "demo_env = \<lparr>env_FromError = (\<lambda>e. case e of ErrStatus c m \<Rightarrow> Some \<lparr>st_Code = c, st_Message = m\<rparr> | _ \<Rightarrow> None),
     env_Parse = (\<lambda>s. if s = ''n1'' then Inr (ULID 1 0) else Inl (ErrNew ''ulid: bad data size'')),
     env_xxhash = (\<lambda>_. 0), env_rnd = (\<lambda>_. 0), env_dial = (\<lambda>_. Inr 5),
     env_Invoke = (\<lambda>conn method md data. if method = ''/echo.Echo/Fail'' then Inl (ErrStatus codes_Unknown ''secret'')
       else Inr (empty_Reply\<lparr>rep_Code := 3, rep_Data := data\<rparr>)),
     env_unmarshalEmpty = (\<lambda>_. None), env_marshalRPCError = (\<lambda>e. Inr []), env_transactionID = ''t1''\<rparr>"

definition demo_registry :: Registry where
  "demo_registry = default_Registry\<lparr>reg_resolver := demo_resolver\<rparr>"

definition demo_sess :: sess_info where
  "demo_sess = \<lparr>si_ID = ''u1'', si_RemoteAddr = ''10.0.0.9:4000'', si_md = Map.empty\<rparr>"

definition demo_req :: "string \<Rightarrow> Request" where
  "demo_req m = empty_Request\<lparr>req_Id := 9, req_ServiceCode := 7, req_Method := m, req_Data := [1]\<rparr>"

definition demo_desc :: GRPCServiceDesc where
  "demo_desc = hd (Services (GRPC (demo_node 1 0 ''random'')))"

lemma demo_desc_simps [simp]:
  "Public demo_desc" "\<not> Stateful demo_desc" "Path demo_desc = ''/echo.Echo''"
  by (simp_all add: demo_desc_def demo_node_def)

lemma demo_desc_found: "GetGRPCDesc demo_registry 7 = Some demo_desc"
  by (simp add: GetGRPCDesc_def GetDesc_def demo_registry_def demo_resolver_def resolver_Update_def
      demo_node_def demo_desc_def Let_def updateDesc_def state_defs newGRPCResolver_def)

lemma demo_conns: "conns demo_resolver = Map.empty"
  by (simp add: demo_resolver_def resolver_Update_def newGRPCResolver_def Let_def state_defs demo_node_def)

lemma demo_upstream:
  "\<exists>reg'. getUpstream demo_env demo_sess (demo_req m) demo_desc demo_registry st = (reg', st, Ok 5)"
  by (simp add: getUpstream_def allocUpstream_def finishUpstream_def AllocGRPCNode_def AllocNode_def
      demo_registry_def demo_resolver_eq demo_req_def empty_Request_def GetGRPCConn_def GetConn_def
      getConn_def demo_conns demo_env_def state_defs)

lemma demo_method: "path_Join ''/echo.Echo'' ''Say'' = ''/echo.Echo/Say''" "path_Join ''/echo.Echo'' ''Fail'' = ''/echo.Echo/Fail''"
  by code_simp+

lemma demo_handle_Fail:
  "\<exists>res. handleRequest demo_env ''gw'' (Inr True) demo_sess (demo_req ''Fail'') demo_registry st = Ok res \<and>
     hr_err res = Some (ErrStatus codes_Unknown ''secret'')"
proof -
  obtain reg' where "getUpstream demo_env demo_sess (demo_req ''Fail'') demo_desc demo_registry st = (reg', st, Ok 5)"
    using demo_upstream by blast
  then have "\<exists>fr. forwardRequest demo_env ''gw'' (Inr True) demo_sess (demo_req ''Fail'') demo_registry st = Ok fr \<and>
    hr_err fr = Some (ErrStatus codes_Unknown ''secret'')"
    using demo_desc_found
    by (simp add: forwardRequest_def Let_def demo_req_def empty_Request_def newEmptyMessage_def demo_method
        demo_env_def)
  then show ?thesis by (auto simp: handleRequest_def errorReply_def demo_env_def NewReply_def)
qed

lemma demo_handle_Say:
  "\<exists>res. handleRequest demo_env ''gw'' (Inr True) demo_sess (demo_req ''Say'') demo_registry st = Ok res \<and>
     hr_err res = None \<and> hr_call res \<noteq> None"
proof -
  obtain reg' where "getUpstream demo_env demo_sess (demo_req ''Say'') demo_desc demo_registry st = (reg', st, Ok 5)"
    using demo_upstream by blast
  then have "\<exists>fr. forwardRequest demo_env ''gw'' (Inr True) demo_sess (demo_req ''Say'') demo_registry st = Ok fr \<and>
    hr_err fr = None \<and> hr_call fr \<noteq> None"
    using demo_desc_found
    by (simp add: forwardRequest_def Let_def demo_req_def empty_Request_def newEmptyMessage_def demo_method
        demo_env_def)
  then show ?thesis by (auto simp: handleRequest_def)
qed

subsection \<open>Requests\<close>

text \<open>
  The path of a service as the RPC server registers it, a slash and the service's name, and
  what \<open>path.Join\<close> makes of a method below it.
\<close>

definition service_path :: "string \<Rightarrow> bool" where
  "service_path p \<longleftrightarrow> (\<exists>svc. p = CHR ''/'' # svc \<and> svc \<notin> {[], ''.'', ''..''} \<and> CHR ''/'' \<notin> set svc)"

lemma clean_parts_below:
  "''..'' \<notin> set ps \<Longrightarrow> clean_parts rooted acc ps = rev acc @ filter (\<lambda>p. p \<notin> {[], ''.''}) ps"
  by (induction rooted acc ps rule: clean_parts.induct) auto

lemma join_slash_Cons: "join_slash (p # ps) = p @ concat (map (\<lambda>q. CHR ''/'' # q) ps)"
  by (induction ps arbitrary: p) auto

lemma path_Join_below:
  assumes "service_path p" and "''..'' \<notin> set (split_slash [] m)"
  shows "path_Join p m = p @ concat (map (\<lambda>q. CHR ''/'' # q) (filter (\<lambda>q. q \<notin> {[], ''.''}) (split_slash [] m)))"
proof -
  obtain svc where p: "p = CHR ''/'' # svc" and svc: "svc \<notin> {[], ''.'', ''..''}" "CHR ''/'' \<notin> set svc"
    using assms(1) by (auto simp: service_path_def)
  have split: "split_slash [] (p @ CHR ''/'' # m) = [] # svc # split_slash [] m"
    using svc(2) split_slash_slash [OF svc(2), of "[]" m] by (simp add: p)
  have "path_Join p m = path_Clean (p @ (if m = [] then [] else CHR ''/'' # m))" by (simp add: path_Join_def p)
  moreover have "path_Clean (p @ (if m = [] then [] else CHR ''/'' # m)) =
      CHR ''/'' # join_slash (svc # filter (\<lambda>q. q \<notin> {[], ''.''}) (split_slash [] m))"
    using svc assms(2) split by (auto simp: path_Clean_def Let_def p split_slash_plain clean_parts_below)
  ultimately show ?thesis by (simp add: join_slash_Cons p)
qed

text \<open>
  C1. Only requests for public services are forwarded: when a request is forwarded, the
  interceptor let it pass, the service it names is registered and public, the data is the
  client's, and the session and gateway ids in the metadata are the gateway's own whatever
  metadata the session carries. The method that is called is the one \<open>path.Join\<close> makes of the
  service's path and the client's method: as long as no component of the client's method is
  \<open>..\<close>, it lies below the service's own path, and a plain name is called under that name.
\<close>

theorem forwarded_only_if_public:
  assumes "handleRequest env gw ic sess req reg st = Ok res"
    and "hr_call res = Some (conn, method, md, data)"
  shows "ic = Inr True \<and> md MDSessID = Some [si_ID sess] \<and> md MDGateway = Some [gw] \<and> data = req_Data req \<and>
    (\<exists>desc. GetGRPCDesc reg (req_ServiceCode req) = Some desc \<and> Public desc \<and>
       method = path_Join (Path desc) (req_Method req) \<and>
       (service_path (Path desc) \<longrightarrow> ''..'' \<notin> set (split_slash [] (req_Method req)) \<longrightarrow>
          method = Path desc @ concat (map (\<lambda>q. CHR ''/'' # q) (filter (\<lambda>q. q \<notin> {[], ''.''}) (split_slash [] (req_Method req))))))"
proof -
  obtain fr where fr: "forwardRequest env gw ic sess req reg st = Ok fr" "hr_call fr = hr_call res"
    using assms(1) by (rule handleRequest_Ok) simp
  have "ic = Inr True \<and> md MDSessID = Some [si_ID sess] \<and> md MDGateway = Some [gw] \<and> data = req_Data req \<and>
    (\<exists>desc. GetGRPCDesc reg (req_ServiceCode req) = Some desc \<and> Public desc \<and> method = path_Join (Path desc) (req_Method req))"
    using fr(1)
  proof (cases rule: hr_cases)
    case (failed e)
    then show ?thesis using fr assms(2) by simp
  next
    case (called desc conn' err)
    then show ?thesis using fr assms(2) by (auto simp: MDSessID_def MDGateway_def)
  next
    case (answered desc conn' out)
    then show ?thesis using fr assms(2) by (auto simp: MDSessID_def MDGateway_def)
  qed
  then show ?thesis using path_Join_below by blast
qed

theorem forwarded_only_if_public_witness:
  "\<exists>desc res conn md data. handleRequest demo_env ''gw'' (Inr True) demo_sess (demo_req ''Say'') demo_registry Map.empty = Ok res \<and>
     hr_call res = Some (conn, ''/echo.Echo/Say'', md, data) \<and> GetGRPCDesc demo_registry 7 = Some desc \<and> Public desc"
proof -
  obtain res conn mth md data where
    res: "handleRequest demo_env ''gw'' (Inr True) demo_sess (demo_req ''Say'') demo_registry Map.empty = Ok res"
    "hr_call res = Some (conn, mth, md, data)"
    using demo_handle_Say [of Map.empty] by force
  have "service_path (Path demo_desc)" "''..'' \<notin> set (split_slash [] ''Say'')" by (simp_all add: service_path_def)
  then show ?thesis
    using forwarded_only_if_public [OF res] res demo_desc_found by (auto simp: demo_req_def empty_Request_def)
qed

text \<open>
  With a component \<open>..\<close> the method leaves the service: through a public service a client calls
  any method of the node that serves it, also one of a service that is not public.
\<close>

lemma demo_escape: "path_Join ''/echo.Echo'' ''../nodehub.Node/ChangeState'' = ''/nodehub.Node/ChangeState''"
  by code_simp

theorem method_leaves_service:
  "\<exists>res md. handleRequest demo_env ''gw'' (Inr True) demo_sess (demo_req ''../nodehub.Node/ChangeState'') demo_registry Map.empty = Ok res \<and>
     hr_call res = Some (5, ''/nodehub.Node/ChangeState'', md, [1])"
proof -
  obtain reg' where "getUpstream demo_env demo_sess (demo_req ''../nodehub.Node/ChangeState'') demo_desc demo_registry Map.empty =
      (reg', Map.empty, Ok 5)"
    using demo_upstream by blast
  then show ?thesis
    using demo_desc_found
    by (simp add: handleRequest_def forwardRequest_def Let_def demo_req_def empty_Request_def newEmptyMessage_def demo_escape
        demo_env_def)
qed

text \<open>
  C21. A request is answered at most once and under its own number: at most one reply is
  sent, it carries the request's id; a successful call is answered with the service's reply
  under the request's service code, unless the client wants no reply; and an error is
  answered exactly when it carries a status.
\<close>

theorem at_most_one_reply:
  assumes "handleRequest env gw ic sess req reg st = Ok res"
  shows "length (hr_sent res) \<le> 1 \<and> (\<forall>r \<in> set (hr_sent res). rep_RequestId r = req_Id req) \<and>
    (\<forall>e. hr_err res = Some e \<longrightarrow> (hr_sent res = [] \<longleftrightarrow> env_FromError env e = None)) \<and>
    (hr_err res = None \<longrightarrow> (hr_sent res = [] \<longleftrightarrow> req_NoReply req) \<and>
       (\<forall>r \<in> set (hr_sent res). rep_ServiceCode r = req_ServiceCode req))"
proof -
  obtain fr rs where fr: "forwardRequest env gw ic sess req reg st = Ok fr" "hr_err res = hr_err fr"
    "hr_sent res = hr_sent fr @ rs"
    "hr_err fr = None \<and> rs = [] \<or> (\<exists>e. hr_err fr = Some e \<and> errorReply env req e = Ok rs)"
    using assms by (rule handleRequest_Ok) simp
  show ?thesis
    using fr(1)
  proof (cases rule: hr_cases)
    case (failed e)
    then show ?thesis using fr errorReply_cases [of env req e rs] by auto
  next
    case (called desc conn' err)
    then show ?thesis using fr errorReply_cases [of env req err rs] by auto
  next
    case (answered desc conn' out)
    then show ?thesis using fr by auto
  qed
qed

theorem at_most_one_reply_witness:
  "\<exists>res. handleRequest demo_env ''gw'' (Inr True) demo_sess (demo_req ''Say'') demo_registry Map.empty = Ok res \<and>
     hr_sent res \<noteq> []"
proof -
  obtain res where res: "handleRequest demo_env ''gw'' (Inr True) demo_sess (demo_req ''Say'') demo_registry Map.empty = Ok res"
    "hr_err res = None"
    using demo_handle_Say by blast
  from at_most_one_reply [OF res(1)] show ?thesis
    using res by (auto simp: demo_req_def empty_Request_def)
qed

text \<open>
  C8. Details of unknown errors never reach a client: when a request fails with an error of
  code \<open>Unknown\<close>, what is sent is the encoding of a status with the fixed text
  \<open>unknown error\<close>, and when the error carries no status nothing is sent at all.
\<close>

theorem unknown_error_hidden:
  assumes "handleRequest env gw ic sess req reg st = Ok res" and "hr_err res = Some e"
    and "\<And>s. env_FromError env e = Some s \<Longrightarrow> st_Code s = codes_Unknown"
  shows "hr_sent res = [] \<or>
    (\<exists>data. env_marshalRPCError env \<lparr>re_RequestService = req_ServiceCode req, re_RequestMethod = req_Method req,
        re_Status = \<lparr>st_Code = codes_Unknown, st_Message = ''unknown error''\<rparr>\<rparr> = Inr data \<and>
      hr_sent res = [empty_Reply\<lparr>rep_RequestId := req_Id req, rep_Code := ReplyCode_RPC_ERROR, rep_Data := data\<rparr>])"
proof -
  obtain fr rs where fr: "forwardRequest env gw ic sess req reg st = Ok fr" "hr_err res = hr_err fr"
    "hr_sent res = hr_sent fr @ rs"
    "hr_err fr = None \<and> rs = [] \<or> (\<exists>e. hr_err fr = Some e \<and> errorReply env req e = Ok rs)"
    using assms(1) by (rule handleRequest_Ok) simp
  have "hr_sent fr = []" using fr(1) by (cases rule: hr_cases) (use fr(2) assms(2) in auto)
  moreover have "errorReply env req e = Ok rs" using fr(2,4) assms(2) by auto
  ultimately show ?thesis
    using errorReply_cases [of env req e rs] assms(3) fr(3) by auto
qed

theorem unknown_error_hidden_witness:
  "\<exists>res. handleRequest demo_env ''gw'' (Inr True) demo_sess (demo_req ''Fail'') demo_registry Map.empty = Ok res \<and>
     (hr_sent res = [] \<or> (\<exists>data. hr_sent res =
       [empty_Reply\<lparr>rep_RequestId := 9, rep_Code := ReplyCode_RPC_ERROR, rep_Data := data\<rparr>]))"
proof -
  obtain res where res: "handleRequest demo_env ''gw'' (Inr True) demo_sess (demo_req ''Fail'') demo_registry Map.empty = Ok res"
    "hr_err res = Some (ErrStatus codes_Unknown ''secret'')"
    using demo_handle_Fail by blast
  from unknown_error_hidden [OF this] show ?thesis
    using res by (auto simp: demo_env_def demo_req_def empty_Request_def)
qed

subsection \<open>Routing\<close>

text \<open>
  Routes change only for a reason: choosing the upstream of a request leaves the routes
  of every other session and service alone, and leaves the whole table alone when it fails
  or when the service keeps no state.
\<close>

theorem getUpstream_routes:
  assumes "getUpstream env sess req desc reg st = (reg', st', result)"
  shows "(\<forall>s c. (s, c) \<noteq> (si_ID sess, req_ServiceCode req) \<longrightarrow> st_Find st' s c = st_Find st s c) \<and>
    ((\<forall>conn. result \<noteq> Ok conn) \<or> \<not> Stateful desc \<longrightarrow> st' = st)"
proof -
  have fin: "(\<forall>s c. (s, c) \<noteq> (si_ID sess, req_ServiceCode req) \<longrightarrow> st_Find t s c = st_Find st s c) \<and>
      ((\<forall>conn. x \<noteq> Ok conn) \<or> \<not> store \<longrightarrow> t = st)"
    if "finishUpstream env store sess req i reg st = (r, t, x)" for store i r t x
    using that by (auto simp: finishUpstream_def st.find_store split: prod.splits go.splits)
  have alloc: "(\<forall>s c. (s, c) \<noteq> (si_ID sess, req_ServiceCode req) \<longrightarrow> st_Find t s c = st_Find st s c) \<and>
      ((\<forall>conn. x \<noteq> Ok conn) \<or> \<not> store \<longrightarrow> t = st)"
    if "allocUpstream env store sess req reg st = (r, t, x)" for store r t x
    using that fin by (auto simp: allocUpstream_def split: go.splits)
  show ?thesis
  proof (cases "Stateful desc")
    case False
    then show ?thesis using assms alloc by (simp add: getUpstream_def)
  next
    case True
    then consider i where "finishUpstream env True sess req i reg st = (reg', st', result)"
      | i where "finishUpstream env False sess req i reg st = (reg', st', result)"
      | "allocUpstream env True sess req reg st = (reg', st', result)"
      | e where "st' = st" "result = Error e"
      using assms by (auto simp: getUpstream_def split: if_splits sum.splits option.splits)
    then show ?thesis
    proof cases
      case (1 i)
      then show ?thesis using fin True by blast
    next
      case (2 i)
      then show ?thesis using fin True by blast
    next
      case 3
      then show ?thesis using alloc True by blast
    next
      case (4 e)
      then show ?thesis by simp
    qed
  qed
qed

theorem getUpstream_routes_witness:
  "st_Find (fst (snd (getUpstream demo_env demo_sess (demo_req ''Say'') demo_desc demo_registry
     [''u2'' \<mapsto> [7 \<mapsto> ULID 3 0]]))) ''u2'' 7 = Some (ULID 3 0)"
proof -
  obtain reg' st' x where run: "getUpstream demo_env demo_sess (demo_req ''Say'') demo_desc demo_registry
     [''u2'' \<mapsto> [7 \<mapsto> ULID 3 0]] = (reg', st', x)"
    by (cases "getUpstream demo_env demo_sess (demo_req ''Say'') demo_desc demo_registry [''u2'' \<mapsto> [7 \<mapsto> ULID 3 0]]")
  from getUpstream_routes [OF run] have "st_Find st' ''u2'' 7 = st_Find [''u2'' \<mapsto> [7 \<mapsto> ULID 3 0]] ''u2'' 7"
    by (simp add: demo_sess_def)
  then show ?thesis using run by (simp add: st_Find_def)
qed

text \<open>
  C7. Stateful routing is sticky: after a request to an automatically allocated stateful
  service succeeded, the session's next request to it uses the same connection, whatever
  the random source, the hash and dialling would now give, and keeps the route.
\<close>

theorem sticky_routing:
  assumes "Stateful desc" and "Allocation desc = AutoAllocate"
    and "getUpstream env sess req desc reg st = (reg', st', Ok conn)"
    and "req_ServiceCode req' = req_ServiceCode req"
  shows "getUpstream env' sess req' desc reg' st' = (reg', st', Ok conn)"
proof -
  have ne: "AutoAllocate \<noteq> ClientAllocate" by (simp add: alloc_defs)
  obtain i where i: "GetGRPCConn (env_dial env) i reg = (reg', Ok conn)"
    "st_Find st' (si_ID sess) (req_ServiceCode req) = Some i"
  proof (cases "st_Find st (si_ID sess) (req_ServiceCode req)")
    case None
    then have "allocUpstream env True sess req reg st = (reg', st', Ok conn)"
      using assms(1-3) ne by (simp add: getUpstream_def)
    then obtain i where "finishUpstream env True sess req i reg st = (reg', st', Ok conn)"
      by (auto simp: allocUpstream_def split: go.splits)
    from finishUpstream_Ok [OF this] show ?thesis by (intro that [of i]) (simp_all add: st.find_store)
  next
    case (Some i)
    then have "finishUpstream env False sess req i reg st = (reg', st', Ok conn)"
      using assms(1-3) ne by (simp add: getUpstream_def)
    from finishUpstream_Ok [OF this] Some show ?thesis by (intro that [of i]) simp_all
  qed
  then show ?thesis
    using assms(1,2,4) ne finishUpstream_again [OF i(1), of env' False sess req' st']
    by (simp add: getUpstream_def)
qed

theorem sticky_routing_witness:
  "\<exists>reg' st'. getUpstream demo_env demo_sess (demo_req ''A'') (demo_desc\<lparr>Stateful := True, Allocation := AutoAllocate\<rparr>)
      demo_registry Map.empty = (reg', st', Ok 5) \<and>
    getUpstream (demo_env\<lparr>env_dial := \<lambda>_. Inr 6\<rparr>) demo_sess (demo_req ''B'')
      (demo_desc\<lparr>Stateful := True, Allocation := AutoAllocate\<rparr>) reg' st' = (reg', st', Ok 5)"
proof -
  let ?d = "demo_desc\<lparr>Stateful := True, Allocation := AutoAllocate\<rparr>"
  have "\<exists>reg' st'. getUpstream demo_env demo_sess (demo_req ''A'') ?d demo_registry Map.empty = (reg', st', Ok 5)"
    by (simp add: getUpstream_def allocUpstream_def finishUpstream_def AllocGRPCNode_def AllocNode_def
      demo_registry_def demo_resolver_eq demo_req_def empty_Request_def GetGRPCConn_def GetConn_def
      getConn_def demo_conns demo_env_def state_defs alloc_defs st_Find_def)
  then obtain reg' st' where run: "getUpstream demo_env demo_sess (demo_req ''A'') ?d demo_registry Map.empty = (reg', st', Ok 5)"
    by blast
  have "getUpstream (demo_env\<lparr>env_dial := \<lambda>_. Inr 6\<rparr>) demo_sess (demo_req ''B'') ?d reg' st' = (reg', st', Ok 5)"
    by (rule sticky_routing [OF _ _ run]) (simp_all add: demo_req_def)
  with run show ?thesis by blast
qed

text \<open>
  C23. A multicast message goes exactly where it should: with receivers, the sessions of the
  listed receivers that are connected here, in list order, and the flag for everyone is
  ignored; without receivers, every connected session once if the flag is set and nobody
  otherwise (as long as the pool accepts the tasks).
\<close>

theorem multicast_delivery:
  assumes "enumerates visit hub"
  shows "(mc_Receiver msg \<noteq> [] \<longrightarrow>
      handleMulticast (\<lambda>_. True) hub visit msg =
        map (\<lambda>s. (s, mc_Content msg)) (List.map_filter hub (mc_Receiver msg))) \<and>
    (mc_Receiver msg = [] \<and> mc_ToEveryone msg \<longrightarrow>
      set (handleMulticast (\<lambda>_. True) hub visit msg) = (\<lambda>s. (s, mc_Content msg)) ` ran hub \<and>
      length (handleMulticast (\<lambda>_. True) hub visit msg) = card (dom hub)) \<and>
    (mc_Receiver msg = [] \<and> \<not> mc_ToEveryone msg \<longrightarrow> handleMulticast (\<lambda>_. True) hub visit msg = [])"
proof -
  have "length (map_values visit hub) = card (dom hub)"
  proof -
    have "length (map_values visit hub) = length (filter (\<lambda>k. hub k \<noteq> None) visit)"
      by (induction visit) (auto split: option.splits)
    also have "filter (\<lambda>k. hub k \<noteq> None) visit = visit"
      using assms by (auto simp: enumerates_def filter_id_conv)
    finally show ?thesis using assms by (metis distinct_card enumerates_def)
  qed
  then show ?thesis
    using set_map_values [of visit hub] assms
    by (auto simp: handleMulticast_def multicast_targets_def enumerates_def)
qed

theorem multicast_delivery_witness:
  "handleMulticast (\<lambda>_. True) [''u1'' \<mapsto> 4] [''u1''] (NewMulticast 0 [''u2'', ''u1''] empty_Reply) = [(4, empty_Reply)]"
  using multicast_delivery [of "[''u1'']" "[''u1'' \<mapsto> 4]" "NewMulticast 0 [''u2'', ''u1''] empty_Reply"]
  by (simp add: enumerates_def NewMulticast_def map_filter_def)

end
