(* ===== verification/Message_Queue.thy ===== *)
theory Message_Queue
  imports Codec_Message "HOL-Library.Sublist"
begin

text \<open>
  The message queues under the event bus and the multicast bus (\<open>src/internal/mq/mq.go\<close>,
  \<open>nats.go\<close>, \<open>redis.go\<close>). The brokers are outside the program: \<open>broker\<close> is the outcome of
  publishing a payload on a topic, and a subscription is the sequence of what its goroutine
  or callback sees.
\<close>

section \<open>Queues\<close>

record natsMQ =
  nq_subject :: string
  nq_done :: bool

definition NewNatsMQ :: "string \<Rightarrow> natsMQ" where
  "NewNatsMQ subject = \<lparr>nq_subject = subject, nq_done = False\<rparr>"

definition nats_Topic :: "natsMQ \<Rightarrow> string" where
  "nats_Topic q = nq_subject q"

definition nats_Publish :: "(string \<Rightarrow> byte list \<Rightarrow> go_error option) \<Rightarrow> byte list \<Rightarrow> natsMQ \<Rightarrow> go_error option" where
  "nats_Publish broker payload q = broker (nq_subject q) payload"

record redisMQ =
  rq_channel :: string
  rq_done :: bool

definition NewRedisMQ :: "string \<Rightarrow> redisMQ" where
  "NewRedisMQ channel = \<lparr>rq_channel = channel, rq_done = False\<rparr>"

definition redis_Topic :: "redisMQ \<Rightarrow> string" where
  "redis_Topic q = rq_channel q"

definition redis_Publish :: "(string \<Rightarrow> byte list \<Rightarrow> go_error option) \<Rightarrow> byte list \<Rightarrow> redisMQ \<Rightarrow> go_error option" where
  "redis_Publish broker payload q = broker (rq_channel q) payload"

text \<open>\<open>Close\<close> closes the channel \<open>done\<close>; a second call panics.\<close>

definition nats_Close :: "natsMQ \<Rightarrow> natsMQ go" where
  "nats_Close q = (if nq_done q then Panic ''close of closed channel'' else Ok (q\<lparr>nq_done := True\<rparr>))"

definition redis_Close :: "redisMQ \<Rightarrow> redisMQ go" where
  "redis_Close q = (if rq_done q then Panic ''close of closed channel'' else Ok (q\<lparr>rq_done := True\<rparr>))"

section \<open>Subscriptions\<close>

text \<open>
  The goroutine of a redis subscription: the queue or the context is done, the broker's
  channel is closed, or a message arrives and is handed over unless the queue is closed
  while the receiver is not ready.
\<close>

datatype mq_input = MqDone | MqCtxDone | MqChanClosed | MqMsg "byte list" bool

fun redis_forward :: "mq_input list \<Rightarrow> byte list list" where
  "redis_forward [] = []"
| "redis_forward (MqMsg msg taken # ins) = (if taken then msg # redis_forward ins else [])"
| "redis_forward (_ # ins) = []"

text \<open>The callback of a nats subscription drops a message only when the context is done.\<close>

fun nats_forward :: "mq_input list \<Rightarrow> byte list list" where
  "nats_forward [] = []"
| "nats_forward (MqMsg msg taken # ins) = (if taken then [msg] else []) @ nats_forward ins"
| "nats_forward (MqChanClosed # ins) = []"
| "nats_forward (_ # ins) = nats_forward ins"

section \<open>The interface \<open>mq.Queue\<close>\<close>

fun broker_msgs :: "mq_input list \<Rightarrow> byte list list" where
  "broker_msgs [] = []"
| "broker_msgs (MqMsg msg taken # ins) = msg # broker_msgs ins"
| "broker_msgs (_ # ins) = broker_msgs ins"

text \<open>A subscription that is never cancelled and whose receiver takes every message.\<close>

definition undisturbed :: "mq_input list \<Rightarrow> bool" where
  "undisturbed ins \<longleftrightarrow> (\<forall>i \<in> set ins. case i of MqMsg _ taken \<Rightarrow> taken | _ \<Rightarrow> False)"

text \<open>
  What the buses rely on: publishing goes to the topic, the topic never changes, \<open>Close\<close>
  works once, and a subscription hands over messages of the broker in their order, each at
  most once, and all of them while it is undisturbed.
\<close>

locale mq_queue =
  fixes Topic :: "'q \<Rightarrow> string" and is_done :: "'q \<Rightarrow> bool"
    and Publish :: "(string \<Rightarrow> byte list \<Rightarrow> go_error option) \<Rightarrow> byte list \<Rightarrow> 'q \<Rightarrow> go_error option"
    and Close :: "'q \<Rightarrow> 'q go" and forward :: "mq_input list \<Rightarrow> byte list list"
  assumes publish_topic: "Publish broker payload q = broker (Topic q) payload"
    and close_once: "\<not> is_done q \<Longrightarrow> \<exists>q'. Close q = Ok q' \<and> Topic q' = Topic q \<and> is_done q'"
    and close_twice: "is_done q \<Longrightarrow> \<exists>p. Close q = Panic p"
    and forward_subseq: "subseq (forward ins) (broker_msgs ins)"
    and forward_all: "undisturbed ins \<Longrightarrow> forward ins = broker_msgs ins"
begin

text \<open>Two queues of one topic talk to each other.\<close>

lemma same_topic: "Topic q = Topic q' \<Longrightarrow> Publish broker payload q = Publish broker payload q'"
  by (simp add: publish_topic)

lemma forwarded_published: "m \<in> set (forward ins) \<Longrightarrow> m \<in> set (broker_msgs ins)"
  using list_emb_set [OF forward_subseq, of m ins] by blast

lemma forward_count: "length (forward ins) \<le> length (broker_msgs ins)"
  using forward_subseq by (rule list_emb_length)

lemma close_closes: "Close q = Ok q' \<Longrightarrow> \<exists>p. Close q' = Panic p"
  using close_once [of q] close_twice [of q] close_twice [of q'] by (cases "is_done q") auto

end

interpretation nats_q: mq_queue nats_Topic nq_done nats_Publish nats_Close nats_forward
proof
  show "subseq (nats_forward ins) (broker_msgs ins)" for ins by (induction ins rule: nats_forward.induct) auto
  show "undisturbed ins \<Longrightarrow> nats_forward ins = broker_msgs ins" for ins
    by (induction ins rule: nats_forward.induct) (auto simp: undisturbed_def)
qed (auto simp: nats_Publish_def nats_Topic_def nats_Close_def)

interpretation redis_q: mq_queue redis_Topic rq_done redis_Publish redis_Close redis_forward
proof
  show "subseq (redis_forward ins) (broker_msgs ins)" for ins by (induction ins rule: redis_forward.induct) auto
  show "undisturbed ins \<Longrightarrow> redis_forward ins = broker_msgs ins" for ins
    by (induction ins rule: redis_forward.induct) (auto simp: undisturbed_def)
qed (auto simp: redis_Publish_def redis_Topic_def redis_Close_def)

text \<open>
  After the queue is closed a redis subscription delivers nothing more, while a nats
  subscription is ended by its broker.
\<close>

lemma redis_done_ends: "redis_forward (ins @ MqDone # rest) = redis_forward ins"
  by (induction ins rule: redis_forward.induct) auto

end
