(* ===== verification/Event_Bus.thy ===== *)
theory Event_Bus
  imports Nh_Messages Message_Queue
begin

text \<open>
  The cluster event bus (\<open>src/event/bus.go\<close>, \<open>events.go\<close>) over a message queue. A Go type is its name or a pointer to a type; \<open>typeOf\<close> is
  \<open>reflect.TypeOf\<close>, and \<open>marshal\<close>, \<open>unmarshal\<close>, \<open>marshalP\<close>, \<open>unmarshalP\<close> are the JSON
  codec for events and for payloads.
\<close>

section \<open>Event types\<close>

text \<open>The verb \<open>%q\<close>, for printable ASCII text.\<close>

definition go_quote :: "string \<Rightarrow> string" where
  "go_quote s = CHR 0x22 # concat (map (\<lambda>c. if c = CHR 0x22 \<or> c = CHR 0x5C then [CHR 0x5C, c] else [c]) s) @ [CHR 0x22]"

datatype go_type = Named string | PtrTo go_type

fun deref :: "go_type \<Rightarrow> go_type" where
  "deref (PtrTo t) = t"
| "deref t = t"

record event_types =
  et_events :: "string \<rightharpoonup> go_type"
  et_types :: "go_type \<rightharpoonup> string"

definition Register :: "string \<Rightarrow> go_type \<Rightarrow> event_types \<Rightarrow> event_types go" where
  "Register eventType t et =
     (case et_events et eventType of
        Some _ \<Rightarrow> Panic (''event '' @ go_quote eventType @ '' already registered'')
      | None \<Rightarrow> Ok \<lparr>et_events = (et_events et)(eventType \<mapsto> deref t),
                     et_types = (et_types et)(deref t \<mapsto> eventType)\<rparr>)"

record UserConnected =
  uc_GatewayID :: string
  uc_UserID :: string
  uc_RemoteAddr :: string
  uc_Metadata :: "string \<rightharpoonup> string list"

record UserDisconnected =
  ud_GatewayID :: string
  ud_UserID :: string
  ud_RemoteAddr :: string

datatype cluster_event = EvConnected UserConnected | EvDisconnected UserDisconnected

definition event_typeOf :: "cluster_event \<Rightarrow> go_type" where
  "event_typeOf ev = (case ev of EvConnected _ \<Rightarrow> Named ''UserConnected''
     | EvDisconnected _ \<Rightarrow> Named ''UserDisconnected'')"

text \<open>The package's \<open>init\<close>.\<close>

definition initEvents :: "event_types go" where
  "initEvents =
     go_bind (Register ''user:connected'' (Named ''UserConnected'') \<lparr>et_events = Map.empty, et_types = Map.empty\<rparr>)
       (Register ''user:disconnected'' (Named ''UserDisconnected''))"

section \<open>Publishing and subscribing\<close>


record payload =
  p_Time :: int
  p_Type :: string
  p_Detail :: "byte list"

definition newPayload ::
  "event_types \<Rightarrow> ('e \<Rightarrow> go_type) \<Rightarrow> ('e \<Rightarrow> go_error + byte list) \<Rightarrow> int \<Rightarrow> 'e \<Rightarrow> payload go" where
  "newPayload et typeOf marshal now ev =
     (case et_types et (deref (typeOf ev)) of
        None \<Rightarrow> Error (ErrNew (''unknown event '' @ go_quote []))
      | Some eventType \<Rightarrow>
          (case marshal ev of
             Inl err \<Rightarrow> Error err
           | Inr detail \<Rightarrow> Ok \<lparr>p_Time = now, p_Type = eventType, p_Detail = detail\<rparr>))"

text \<open>\<open>Publish\<close>: an event that cannot be packed is a programming error and panics; otherwise
  the result is what was handed to the queue.\<close>

definition bus_Publish ::
  "event_types \<Rightarrow> ('e \<Rightarrow> go_type) \<Rightarrow> ('e \<Rightarrow> go_error + byte list) \<Rightarrow> (payload \<Rightarrow> go_error + byte list) \<Rightarrow>
   (byte list \<Rightarrow> go_error option) \<Rightarrow> int \<Rightarrow> 'e \<Rightarrow> byte list go" where
  "bus_Publish et typeOf marshal marshalP queue_Publish now ev =
     (case newPayload et typeOf marshal now ev of
        Error err \<Rightarrow> Panic (err_text (ErrWrap ''publish event'' err))
      | Panic p \<Rightarrow> Panic p
      | Ok p \<Rightarrow>
          (case marshalP p of
             Inl err \<Rightarrow> Error err
           | Inr data \<Rightarrow> (case queue_Publish data of None \<Rightarrow> Ok data | Some err \<Rightarrow> Error err)))"

text \<open>The checks on a handler: a function of a registered event and a time.\<close>

record handler_sig =
  hs_isFunc :: bool
  hs_args :: "go_type list"

definition timeTime :: go_type where "timeTime = Named ''time.Time''"

definition checkHandler :: "event_types \<Rightarrow> handler_sig \<Rightarrow> string go" where
  "checkHandler et h =
     (if \<not> hs_isFunc h then Panic ''handler must be a function''
      else if length (hs_args h) \<noteq> 2 then Panic ''handler must have two argument''
      else case et_types et (deref (hs_args h ! 0)) of
        None \<Rightarrow> Panic ''first argument must be registered event''
      | Some eventType \<Rightarrow>
          if hs_args h ! 1 \<noteq> timeTime then Panic ''second argument must be time.Time'' else Ok eventType)"

text \<open>What \<open>observe\<close> makes of a message: a payload, or an error that is only logged.\<close>

definition observe :: "(byte list \<Rightarrow> go_error + payload) \<Rightarrow> byte list list \<Rightarrow> (go_error + payload) list" where
  "observe unmarshalP msgs = map unmarshalP msgs"

definition dispatch :: "(byte list \<Rightarrow> go_error + 'e) \<Rightarrow> string \<Rightarrow> go_error + payload \<Rightarrow> ('e \<times> int) list" where
  "dispatch unmarshal eventType item =
     (case item of
        Inl _ \<Rightarrow> []
      | Inr p \<Rightarrow>
          if p_Type p = eventType then
            (case unmarshal (p_Detail p) of Inl _ \<Rightarrow> [] | Inr ev \<Rightarrow> [(ev, p_Time p)])
          else [])"

text \<open>The calls a subscribed handler sees for a sequence of messages.\<close>

definition bus_Subscribe ::
  "event_types \<Rightarrow> (byte list \<Rightarrow> go_error + payload) \<Rightarrow> (byte list \<Rightarrow> go_error + 'e) \<Rightarrow> handler_sig \<Rightarrow>
   byte list list \<Rightarrow> ('e \<times> int) list go" where
  "bus_Subscribe et unmarshalP unmarshal h msgs =
     go_bind (checkHandler et h) (\<lambda>eventType.
       Ok (concat (map (dispatch unmarshal eventType) (observe unmarshalP msgs))))"

definition bus_Observable ::
  "event_types \<Rightarrow> (byte list \<Rightarrow> go_error + payload) \<Rightarrow> (go_type \<Rightarrow> byte list \<Rightarrow> go_error + 'e) \<Rightarrow>
   byte list list \<Rightarrow> (go_error + 'e) list" where
  "bus_Observable et unmarshalP unmarshalAt msgs =
     map (\<lambda>item. case item of
        Inl err \<Rightarrow> Inl err
      | Inr p \<Rightarrow>
          (case et_events et (p_Type p) of
             None \<Rightarrow> Inl (ErrNew (''unknown event '' @ go_quote (p_Type p)))
           | Some t \<Rightarrow>
               (case unmarshalAt t (p_Detail p) of
                  Inl err \<Rightarrow> Inl (ErrWrap (''unmarshal event '' @ go_quote (p_Type p)) err)
                | Inr ev \<Rightarrow> Inr ev))) (observe unmarshalP msgs)"

section \<open>The bus\<close>

text \<open>A bus over a queue; the channel name of the options is the queue's topic.\<close>

record 'q Bus =
  eb_queue :: 'q

record ev_Options =
  eo_ChannelName :: string

definition ev_newOptions :: ev_Options where
  "ev_newOptions = \<lparr>eo_ChannelName = ''nodehub:events''\<rparr>"

definition ev_WithChannelName :: "string \<Rightarrow> ev_Options \<Rightarrow> ev_Options" where
  "ev_WithChannelName name opt = opt\<lparr>eo_ChannelName := name\<rparr>"

definition ev_NewBus :: "'q \<Rightarrow> 'q Bus" where
  "ev_NewBus queue = \<lparr>eb_queue = queue\<rparr>"

definition ev_NewNatsBus :: "(ev_Options \<Rightarrow> ev_Options) list \<Rightarrow> natsMQ Bus" where
  "ev_NewNatsBus options =
     \<lparr>eb_queue = NewNatsMQ (eo_ChannelName (fold (\<lambda>fn opt. fn opt) options ev_newOptions))\<rparr>"

definition ev_NewRedisBus :: "(ev_Options \<Rightarrow> ev_Options) list \<Rightarrow> redisMQ Bus" where
  "ev_NewRedisBus options =
     \<lparr>eb_queue = NewRedisMQ (eo_ChannelName (fold (\<lambda>fn opt. fn opt) options ev_newOptions))\<rparr>"

definition ev_Close :: "('q \<Rightarrow> 'q go) \<Rightarrow> 'q Bus \<Rightarrow> 'q Bus go" where
  "ev_Close queue_Close bus = go_bind (queue_Close (eb_queue bus)) (\<lambda>q. Ok (bus\<lparr>eb_queue := q\<rparr>))"

text \<open>
  What a subscribed handler sees through a queue: only messages of the broker reach it, and
  over an undisturbed subscription it sees what the broker delivered.
\<close>

lemma dispatch_eqs:
  "dispatch unmarshal ty (Inl e) = []"
  "unmarshal (p_Detail p) = Inl e \<Longrightarrow> dispatch unmarshal ty (Inr p) = []"
  "unmarshal (p_Detail p) = Inr ev \<Longrightarrow> dispatch unmarshal ty (Inr p) = (if p_Type p = ty then [(ev, p_Time p)] else [])"
  by (simp_all add: dispatch_def)

lemma dispatch_mem:
  assumes "c \<in> set (dispatch unmarshal ty item)"
  shows "case item of Inl _ \<Rightarrow> False | Inr p \<Rightarrow> unmarshal (p_Detail p) = Inr (fst c) \<and> p_Time p = snd c"
proof (cases item)
  case (Inl e)
  then show ?thesis using assms by (simp add: dispatch_eqs)
next
  case (Inr p)
  then show ?thesis
    using assms by (cases "unmarshal (p_Detail p)") (simp_all add: dispatch_eqs split: if_splits)
qed

context mq_queue
begin

lemma handler_calls:
  assumes "undisturbed ins"
  shows "bus_Subscribe et unmarshalP unmarshal h (forward ins) = bus_Subscribe et unmarshalP unmarshal h (broker_msgs ins)"
  by (simp add: forward_all [OF assms])

lemma handler_calls_from_broker:
  assumes "bus_Subscribe et unmarshalP unmarshal h (forward ins) = Ok calls" and "c \<in> set calls"
  shows "\<exists>m \<in> set (broker_msgs ins). case unmarshalP m of Inl _ \<Rightarrow> False
    | Inr p \<Rightarrow> unmarshal (p_Detail p) = Inr (fst c) \<and> p_Time p = snd c"
proof -
  obtain ty where "calls = concat (map (dispatch unmarshal ty) (map unmarshalP (forward ins)))"
    using assms(1) by (auto simp: bus_Subscribe_def go_bind_Ok_iff observe_def)
  then obtain m where m: "m \<in> set (forward ins)" "c \<in> set (dispatch unmarshal ty (unmarshalP m))"
    using assms(2) by auto
  from m(2) have "case unmarshalP m of Inl _ \<Rightarrow> False
    | Inr p \<Rightarrow> unmarshal (p_Detail p) = Inr (fst c) \<and> p_Time p = snd c"
    by (rule dispatch_mem)
  then show ?thesis using forwarded_published [OF m(1)] by (rule bexI)
qed

lemma bus_closes_once:
  assumes "ev_Close Close bus = Ok bus'"
  shows "Topic (eb_queue bus') = Topic (eb_queue bus) \<and> (\<exists>p. ev_Close Close bus' = Panic p)"
proof -
  obtain q where q: "Close (eb_queue bus) = Ok q" "bus' = bus\<lparr>eb_queue := q\<rparr>"
    using assms by (auto simp: ev_Close_def go_bind_Ok_iff)
  then have "\<not> is_done (eb_queue bus)" using close_twice [of "eb_queue bus"] by auto
  then have "Topic q = Topic (eb_queue bus)" using close_once q(1) by fastforce
  moreover obtain p where "Close q = Panic p" using close_closes [OF q(1)] by blast
  ultimately show ?thesis using q(2) by (simp add: ev_Close_def)
qed

end

lemmas nats_bus_closes_once = nats_q.bus_closes_once
lemmas redis_bus_closes_once = redis_q.bus_closes_once

section \<open>Properties\<close>

definition types_ok :: "event_types \<Rightarrow> bool" where
  "types_ok et \<longleftrightarrow> (\<forall>t n. et_types et t = Some n \<longrightarrow> et_events et n = Some t)"

text \<open>
  The registry of event types is sound: \<open>Register\<close> panics exactly when the name is
  taken, and otherwise keeps every type's name pointing back to that type, so that two
  types never share a name.
\<close>

theorem Register_sound:
  assumes "types_ok et"
  shows "((\<exists>p. Register n t et = Panic p) \<longleftrightarrow> et_events et n \<noteq> None) \<and>
    (\<forall>et'. Register n t et = Ok et' \<longrightarrow> types_ok et' \<and> et_types et' (deref t) = Some n \<and>
       (\<forall>t1 t2 m. et_types et' t1 = Some m \<longrightarrow> et_types et' t2 = Some m \<longrightarrow> t1 = t2))"
proof -
  have ok: "types_ok et'" "et_types et' (deref t) = Some n" if "Register n t et = Ok et'" for et'
    using that assms by (auto simp: Register_def types_ok_def split: option.splits if_splits)
  have inj: "t1 = t2" if "types_ok et'" "et_types et' t1 = Some m" "et_types et' t2 = Some m" for et' t1 t2 m
  proof -
    have "et_events et' m = Some t1" "et_events et' m = Some t2"
      using that unfolding types_ok_def by blast+
    then show ?thesis by simp
  qed
  have "(\<exists>p. Register n t et = Panic p) \<longleftrightarrow> et_events et n \<noteq> None"
    by (simp add: Register_def split: option.splits)
  then show ?thesis using ok inj by blast
qed

theorem Register_sound_witness:
  "\<exists>et. initEvents = Ok et \<and> et_types et (Named ''UserConnected'') = Some ''user:connected'' \<and>
     (\<exists>p. Register ''user:connected'' (Named ''Other'') et = Panic p)"
proof -
  obtain et where et: "initEvents = Ok et" "et_types et (Named ''UserConnected'') = Some ''user:connected''"
    "et_events et ''user:connected'' \<noteq> None" "types_ok et"
    by (auto simp: initEvents_def Register_def types_ok_def)
  then show ?thesis using Register_sound [OF et(4)] by auto
qed

lemma bus_Publish_Ok:
  assumes "bus_Publish et typeOf marshal marshalP queue now ev = Ok data"
  obtains eventType detail where "et_types et (deref (typeOf ev)) = Some eventType" and "marshal ev = Inr detail"
    and "marshalP \<lparr>p_Time = now, p_Type = eventType, p_Detail = detail\<rparr> = Inr data"
  using assms by (auto simp: bus_Publish_def newPayload_def split: go.splits option.splits sum.splits)

text \<open>
  C28. A published event arrives: when the codecs are inverse to each other on it, the
  message \<open>Publish\<close> puts on the queue makes every handler of the event's type see exactly
  the event with its publishing time, between whatever it sees of the messages before and
  after, and no handler of another type sees anything of it.
\<close>

theorem event_arrives:
  assumes "bus_Publish et typeOf marshal marshalP queue now ev = Ok data"
    and "\<And>e d. marshal e = Inr d \<Longrightarrow> unmarshal d = Inr e" and "\<And>p d. marshalP p = Inr d \<Longrightarrow> unmarshalP d = Inr p"
    and "bus_Subscribe et unmarshalP unmarshal h (before @ after) = Ok calls"
  shows "\<exists>calls1 calls2. calls = calls1 @ calls2 \<and>
    bus_Subscribe et unmarshalP unmarshal h (before @ [data] @ after) =
      Ok (calls1 @ (if et_types et (deref (hs_args h ! 0)) = et_types et (deref (typeOf ev)) then [(ev, now)] else [])
          @ calls2)"
proof -
  obtain eventType detail where p: "et_types et (deref (typeOf ev)) = Some eventType" "marshal ev = Inr detail"
      "marshalP \<lparr>p_Time = now, p_Type = eventType, p_Detail = detail\<rparr> = Inr data"
    using assms(1) by (rule bus_Publish_Ok)
  have u: "unmarshalP data = Inr \<lparr>p_Time = now, p_Type = eventType, p_Detail = detail\<rparr>" "unmarshal detail = Inr ev"
    using assms(2,3) p(2,3) by blast+
  obtain ty where ty: "checkHandler et h = Ok ty"
    "calls = concat (map (dispatch unmarshal ty) (observe unmarshalP (before @ after)))"
    using assms(4) by (auto simp: bus_Subscribe_def go_bind_Ok_iff)
  then have h: "et_types et (deref (hs_args h ! 0)) = Some ty"
    by (auto simp: checkHandler_def split: if_splits option.splits)
  let ?c1 = "concat (map (dispatch unmarshal ty) (observe unmarshalP before))"
    and ?c2 = "concat (map (dispatch unmarshal ty) (observe unmarshalP after))"
  have "bus_Subscribe et unmarshalP unmarshal h (before @ [data] @ after) =
      Ok (?c1 @ dispatch unmarshal ty (unmarshalP data) @ ?c2)"
    using ty(1) by (simp add: bus_Subscribe_def observe_def)
  moreover have "dispatch unmarshal ty (unmarshalP data) = (if Some ty = Some eventType then [(ev, now)] else [])"
    by (simp add: dispatch_def u)
  moreover have "calls = ?c1 @ ?c2" using ty(2) by (simp add: observe_def)
  ultimately show ?thesis using h p(1) by auto
qed

definition demo_et :: event_types where
  "demo_et = \<lparr>et_events = [''user:connected'' \<mapsto> Named ''UserConnected''],
     et_types = [Named ''UserConnected'' \<mapsto> ''user:connected'']\<rparr>"

theorem event_arrives_witness:
  "\<exists>data. bus_Publish demo_et (\<lambda>b :: byte. Named ''UserConnected'') (\<lambda>b. Inr [b])
      (\<lambda>p. if p = \<lparr>p_Time = 3, p_Type = ''user:connected'', p_Detail = [7]\<rparr> then Inr [1] else Inl (ErrNew [])) (\<lambda>_. None) 3 7 = Ok data \<and>
    bus_Subscribe demo_et (\<lambda>_. Inr \<lparr>p_Time = 3, p_Type = ''user:connected'', p_Detail = [7]\<rparr>) (\<lambda>d. Inr (hd d))
      \<lparr>hs_isFunc = True, hs_args = [Named ''UserConnected'', timeTime]\<rparr> [data] = Ok [(7, 3)]"
proof -
  let ?p = "\<lparr>p_Time = 3, p_Type = ''user:connected'', p_Detail = [7 :: byte]\<rparr>"
  let ?mp = "\<lambda>p. if p = ?p then Inr [1] else Inl (ErrNew [])"
  let ?h = "\<lparr>hs_isFunc = True, hs_args = [Named ''UserConnected'', timeTime]\<rparr>"
  have pub: "bus_Publish demo_et (\<lambda>b :: byte. Named ''UserConnected'') (\<lambda>b. Inr [b]) ?mp (\<lambda>_. None) 3 7 = Ok [1]"
    by (simp add: bus_Publish_def newPayload_def demo_et_def)
  have sub: "bus_Subscribe demo_et (\<lambda>_. Inr ?p) (\<lambda>d. Inr (hd d)) ?h ([] @ []) = Ok []"
    by (simp add: bus_Subscribe_def checkHandler_def demo_et_def observe_def timeTime_def)
  have "\<exists>calls1 calls2. [] = calls1 @ calls2 \<and>
    bus_Subscribe demo_et (\<lambda>_. Inr ?p) (\<lambda>d. Inr (hd d)) ?h ([] @ [[1]] @ []) =
      Ok (calls1 @ (if et_types demo_et (deref (hs_args ?h ! 0)) = et_types demo_et (deref (Named ''UserConnected''))
        then [(7, 3)] else []) @ calls2)"
    by (rule event_arrives [OF pub _ _ sub]) (auto split: if_splits)
  with pub show ?thesis by auto
qed

end
