(* ===== verification/Stream_Workers.thy ===== *)
theory Stream_Workers
  imports Nh_Prelude
begin

text \<open>
  The worker goroutines that process the messages of one stream in order. The same loop
  stands in \<open>handleRequestStream\<close> (\<open>src/component/gateway/proxy.go\<close>) and in the multicast
  bus's \<open>Subscribe\<close> (\<open>src/multicast/bus.go\<close>): a message goes to the worker of its stream,
  a buffered channel drained by one goroutine; a missing worker is started; a ticker closes
  the workers that received nothing for a while. A closed worker's goroutine still drains
  its channel.

  \<open>key\<close> is the stream of a message, \<open>cap\<close> the capacity of a worker's channel, \<open>idle\<close>
  the time after which a worker is closed. A worker is its number; the log records when the
  handler is entered and left.
\<close>

section \<open>State and steps\<close>

datatype 'm log_ev = Enter (ev_msg: 'm) | Leave (ev_msg: 'm)

record 'm workers =
  sw_live :: "string \<rightharpoonup> nat"
  sw_chan :: "nat \<Rightarrow> 'm list"
  sw_busy :: "nat \<Rightarrow> 'm option"
  sw_active :: "nat \<Rightarrow> int"
  sw_next :: nat
  sw_log :: "'m log_ev list"

definition sw_init :: "'m workers" where
  "sw_init = \<lparr>sw_live = Map.empty, sw_chan = (\<lambda>_. []), sw_busy = (\<lambda>_. None),
     sw_active = (\<lambda>_. 0), sw_next = 0, sw_log = []\<rparr>"

text \<open>Finding or starting the worker of a stream.\<close>

definition sw_worker :: "string \<Rightarrow> 'm workers \<Rightarrow> 'm workers \<times> nat" where
  "sw_worker stream w =
     (case sw_live w stream of
        Some g \<Rightarrow> (w, g)
      | None \<Rightarrow> (w\<lparr>sw_live := (sw_live w)(stream \<mapsto> sw_next w), sw_next := Suc (sw_next w)\<rparr>, sw_next w))"

text \<open>Receiving a message; the send to a full channel waits, which is \<open>None\<close>.\<close>

definition sw_recv :: "('m \<Rightarrow> string) \<Rightarrow> nat \<Rightarrow> int \<Rightarrow> 'm \<Rightarrow> 'm workers \<Rightarrow> 'm workers option" where
  "sw_recv key cap now m w =
     (case sw_worker (key m) w of
        (w1, g) \<Rightarrow>
          if length (sw_chan w1 g) < cap
          then Some (w1\<lparr>sw_chan := (sw_chan w1)(g := sw_chan w1 g @ [m]),
                        sw_active := (sw_active w1)(g := now)\<rparr>)
          else None)"

text \<open>A worker's goroutine takes the next message, and returns from the handler.\<close>

definition sw_enter :: "nat \<Rightarrow> 'm workers \<Rightarrow> 'm workers option" where
  "sw_enter g w =
     (case (sw_busy w g, sw_chan w g) of
        (None, m # ms) \<Rightarrow> Some (w\<lparr>sw_chan := (sw_chan w)(g := ms), sw_busy := (sw_busy w)(g \<mapsto> m),
                                  sw_log := sw_log w @ [Enter m]\<rparr>)
      | _ \<Rightarrow> None)"

definition sw_leave :: "nat \<Rightarrow> 'm workers \<Rightarrow> 'm workers option" where
  "sw_leave g w =
     (case sw_busy w g of
        Some m \<Rightarrow> Some (w\<lparr>sw_busy := (sw_busy w)(g := None), sw_log := sw_log w @ [Leave m]\<rparr>)
      | None \<Rightarrow> None)"

text \<open>The ticker's loop over the workers.\<close>

definition sw_tick :: "int \<Rightarrow> int \<Rightarrow> string list \<Rightarrow> 'm workers \<Rightarrow> 'm workers" where
  "sw_tick idle now visit w =
     map_range (\<lambda>stream g v.
       if now - sw_active v g > idle then (v\<lparr>sw_live := (sw_live v)(stream := None)\<rparr>, True)
       else (v, True)) visit (sw_live w) w"

definition drained :: "'m workers \<Rightarrow> nat \<Rightarrow> bool" where
  "drained w g \<longleftrightarrow> sw_chan w g = [] \<and> sw_busy w g = None"

text \<open>
  Runs in which the ticker only closes workers that have nothing left to do; the first
  argument is the sequence of messages received so far.
\<close>

inductive sw_run :: "('m \<Rightarrow> string) \<Rightarrow> nat \<Rightarrow> int \<Rightarrow> 'm list \<Rightarrow> 'm workers \<Rightarrow> bool"
  for key cap idle where
  run_init: "sw_run key cap idle [] sw_init"
| run_recv: "sw_run key cap idle ms w \<Longrightarrow> sw_recv key cap now m w = Some w' \<Longrightarrow>
    sw_run key cap idle (ms @ [m]) w'"
| run_enter: "sw_run key cap idle ms w \<Longrightarrow> sw_enter g w = Some w' \<Longrightarrow> sw_run key cap idle ms w'"
| run_leave: "sw_run key cap idle ms w \<Longrightarrow> sw_leave g w = Some w' \<Longrightarrow> sw_run key cap idle ms w'"
| run_tick: "sw_run key cap idle ms w \<Longrightarrow>
    (\<And>s g. sw_live w s = Some g \<Longrightarrow> now - sw_active w g > idle \<Longrightarrow> drained w g) \<Longrightarrow>
    sw_run key cap idle ms (sw_tick idle now visit w)"

section \<open>The invariant\<close>

text \<open>The log of handling messages strictly one after the other.\<close>

definition script :: "'m list \<Rightarrow> 'm log_ev list" where
  "script ms = concat (map (\<lambda>m. [Enter m, Leave m]) ms)"

lemma script_simps [simp]:
  "script [] = []" "script (m # ms) = Enter m # Leave m # script ms"
  "script (ms @ ms') = script ms @ script ms'"
  by (simp_all add: script_def)

definition log_of :: "('m \<Rightarrow> string) \<Rightarrow> string \<Rightarrow> 'm workers \<Rightarrow> 'm log_ev list" where
  "log_of key s w = filter (\<lambda>e. key (ev_msg e) = s) (sw_log w)"

definition stream_of :: "('m \<Rightarrow> string) \<Rightarrow> string \<Rightarrow> 'm list \<Rightarrow> 'm list" where
  "stream_of key s ms = filter (\<lambda>m. key m = s) ms"

text \<open>One worker: what it finished, what it handles and what waits is what was received.\<close>

definition worker_ok :: "('m \<Rightarrow> string) \<Rightarrow> 'm list \<Rightarrow> 'm workers \<Rightarrow> string \<Rightarrow> nat \<Rightarrow> bool" where
  "worker_ok key ms w s g \<longleftrightarrow>
     (\<exists>dn. log_of key s w = script dn @ (case sw_busy w g of None \<Rightarrow> [] | Some m \<Rightarrow> [Enter m]) \<and>
        dn @ (case sw_busy w g of None \<Rightarrow> [] | Some m \<Rightarrow> [m]) @ sw_chan w g = stream_of key s ms)"

definition sw_inv :: "('m \<Rightarrow> string) \<Rightarrow> 'm list \<Rightarrow> 'm workers \<Rightarrow> bool" where
  "sw_inv key ms w \<longleftrightarrow>
     (\<forall>s. case sw_live w s of
        None \<Rightarrow> log_of key s w = script (stream_of key s ms)
      | Some g \<Rightarrow> worker_ok key ms w s g \<and> g < sw_next w) \<and>
     (\<forall>s s' g. sw_live w s = Some g \<longrightarrow> sw_live w s' = Some g \<longrightarrow> s = s') \<and>
     (\<forall>g. g \<notin> ran (sw_live w) \<longrightarrow> drained w g) \<and>
     (\<forall>s g. sw_live w s = Some g \<longrightarrow>
        (\<forall>m \<in> set (sw_chan w g). key m = s) \<and> (\<forall>m. sw_busy w g = Some m \<longrightarrow> key m = s))"

lemma sw_invD:
  assumes "sw_inv key ms w"
  shows "sw_live w s = None \<Longrightarrow> log_of key s w = script (stream_of key s ms)"
    and "sw_live w s = Some g \<Longrightarrow> worker_ok key ms w s g"
    and "sw_live w s = Some g \<Longrightarrow> g < sw_next w"
    and "sw_live w s = Some g \<Longrightarrow> sw_live w s' = Some g \<Longrightarrow> s = s'"
    and "g \<notin> ran (sw_live w) \<Longrightarrow> drained w g"
    and "sw_live w s = Some g \<Longrightarrow> m \<in> set (sw_chan w g) \<Longrightarrow> key m = s"
    and "sw_live w s = Some g \<Longrightarrow> sw_busy w g = Some m \<Longrightarrow> key m = s"
proof -
  have a: "case sw_live w s of None \<Rightarrow> log_of key s w = script (stream_of key s ms)
      | Some g \<Rightarrow> worker_ok key ms w s g \<and> g < sw_next w" for s
    using assms by (simp add: sw_inv_def)
  show "sw_live w s = None \<Longrightarrow> log_of key s w = script (stream_of key s ms)"
    "sw_live w s = Some g \<Longrightarrow> worker_ok key ms w s g" "sw_live w s = Some g \<Longrightarrow> g < sw_next w"
    using a [of s] by simp_all
  show "sw_live w s = Some g \<Longrightarrow> sw_live w s' = Some g \<Longrightarrow> s = s'"
    "g \<notin> ran (sw_live w) \<Longrightarrow> drained w g"
    "sw_live w s = Some g \<Longrightarrow> m \<in> set (sw_chan w g) \<Longrightarrow> key m = s"
    "sw_live w s = Some g \<Longrightarrow> sw_busy w g = Some m \<Longrightarrow> key m = s"
    using assms by (auto simp: sw_inv_def)
qed

lemma sw_invI:
  assumes "\<And>s. sw_live w s = None \<Longrightarrow> log_of key s w = script (stream_of key s ms)"
    and "\<And>s g. sw_live w s = Some g \<Longrightarrow> worker_ok key ms w s g \<and> g < sw_next w"
    and "\<And>s s' g. sw_live w s = Some g \<Longrightarrow> sw_live w s' = Some g \<Longrightarrow> s = s'"
    and "\<And>g. g \<notin> ran (sw_live w) \<Longrightarrow> drained w g"
    and "\<And>s g m. sw_live w s = Some g \<Longrightarrow> m \<in> set (sw_chan w g) \<or> sw_busy w g = Some m \<Longrightarrow> key m = s"
  shows "sw_inv key ms w"
  unfolding sw_inv_def using assms by (auto split: option.splits)

lemma sw_inv_init: "sw_inv key [] sw_init"
  by (rule sw_invI) (simp_all add: sw_init_def log_of_def stream_of_def drained_def)

text \<open>Starting the worker of a stream without one.\<close>

lemma sw_inv_worker:
  assumes "sw_inv key ms w" and "sw_worker s w = (w', g)"
  shows "sw_inv key ms w' \<and> sw_live w' s = Some g \<and> sw_log w' = sw_log w"
proof (cases "sw_live w s")
  case (Some h)
  then show ?thesis using assms by (simp add: sw_worker_def)
next
  case None
  then have w': "w' = w\<lparr>sw_live := (sw_live w)(s \<mapsto> g), sw_next := Suc g\<rparr>" "g = sw_next w"
    using assms(2) by (auto simp: sw_worker_def)
  have fresh: "g \<notin> ran (sw_live w)"
    using sw_invD(3) [OF assms(1)] w'(2) by (fastforce simp: ran_def)
  then have dr: "drained w g" by (rule sw_invD(5) [OF assms(1)])
  have ok: "worker_ok key ms w' s g"
    using sw_invD(1) [OF assms(1) None] dr
    by (auto simp: worker_ok_def w'(1) log_of_def drained_def)
  have same: "worker_ok key ms w' s' h = worker_ok key ms w s' h" for s' h
    by (simp add: worker_ok_def w'(1) log_of_def)
  have "sw_inv key ms w'"
  proof (rule sw_invI)
    fix s'
    assume "sw_live w' s' = None"
    then show "log_of key s' w' = script (stream_of key s' ms)"
      using sw_invD(1) [OF assms(1), of s'] by (simp add: w'(1) log_of_def split: if_splits)
  next
    fix s' h
    assume "sw_live w' s' = Some h"
    then show "worker_ok key ms w' s' h \<and> h < sw_next w'"
      using ok same sw_invD(2,3) [OF assms(1), of s' h] w' by (auto split: if_splits)
  next
    fix s' s'' h
    assume "sw_live w' s' = Some h" "sw_live w' s'' = Some h"
    then show "s' = s''"
      using fresh sw_invD(4) [OF assms(1), of s' h s''] by (auto simp: w'(1) ran_def split: if_splits)
  next
    fix h
    assume h: "h \<notin> ran (sw_live w')"
    have "ran (sw_live w') = insert g (ran (sw_live w))"
      using None by (simp add: w'(1) ran_map_upd)
    with h show "drained w' h" using sw_invD(5) [OF assms(1), of h] by (simp add: w'(1) drained_def)
  next
    fix s' h m
    assume "sw_live w' s' = Some h" "m \<in> set (sw_chan w' h) \<or> sw_busy w' h = Some m"
    then show "key m = s'"
      using dr sw_invD(6,7) [OF assms(1), of s' h m] by (auto simp: w'(1) drained_def split: if_splits)
  qed
  then show ?thesis by (simp add: w'(1))
qed

text \<open>A step of the worker \<open>g\<close> of the stream \<open>s\<close> only has to keep what concerns it.\<close>

lemma sw_inv_step:
  assumes inv: "sw_inv key ms w" and live: "sw_live w s = Some g"
    and same: "sw_live w' = sw_live w" "sw_next w' = sw_next w"
      "\<And>h. h \<noteq> g \<Longrightarrow> sw_chan w' h = sw_chan w h" "\<And>h. h \<noteq> g \<Longrightarrow> sw_busy w' h = sw_busy w h"
      "\<And>s'. s' \<noteq> s \<Longrightarrow> log_of key s' w' = log_of key s' w"
      "\<And>s'. s' \<noteq> s \<Longrightarrow> stream_of key s' ms' = stream_of key s' ms"
    and ok: "worker_ok key ms' w' s g"
    and keys: "\<And>m. m \<in> set (sw_chan w' g) \<or> sw_busy w' g = Some m \<Longrightarrow> key m = s"
  shows "sw_inv key ms' w'"
proof (rule sw_invI)
  fix s'
  assume "sw_live w' s' = None"
  then have "s' \<noteq> s" "sw_live w s' = None" using live same(1) by auto
  then show "log_of key s' w' = script (stream_of key s' ms')"
    using sw_invD(1) [OF inv, of s'] same(5,6) by simp
next
  fix s' h
  assume h: "sw_live w' s' = Some h"
  show "worker_ok key ms' w' s' h \<and> h < sw_next w'"
  proof (cases "s' = s")
    case True
    then show ?thesis using h live same(1,2) ok sw_invD(3) [OF inv live] by simp
  next
    case False
    then have "h \<noteq> g" using h live same(1) sw_invD(4) [OF inv] by metis
    then show ?thesis
      using h same False sw_invD(2,3) [OF inv, of s' h] by (simp add: worker_ok_def)
  qed
next
  fix s' s'' h
  assume "sw_live w' s' = Some h" "sw_live w' s'' = Some h"
  then show "s' = s''" using sw_invD(4) [OF inv] same(1) by metis
next
  fix h
  assume "h \<notin> ran (sw_live w')"
  then have "h \<notin> ran (sw_live w)" "h \<noteq> g" using same(1) live by (auto simp: ran_def)
  then show "drained w' h" using sw_invD(5) [OF inv] same(3,4) by (simp add: drained_def)
next
  fix s' h m
  assume h: "sw_live w' s' = Some h" and m: "m \<in> set (sw_chan w' h) \<or> sw_busy w' h = Some m"
  show "key m = s'"
  proof (cases "h = g")
    case True
    then have "s' = s" using h live same(1) sw_invD(4) [OF inv] by metis
    then show ?thesis using keys m True by blast
  next
    case False
    then show ?thesis using h m same sw_invD(6,7) [OF inv, of s' h m] by auto
  qed
qed

lemma sw_inv_recv:
  assumes "sw_inv key ms w" and "sw_recv key cap now m w = Some w'"
  shows "sw_inv key (ms @ [m]) w'"
proof -
  obtain w1 g where w1: "sw_worker (key m) w = (w1, g)" by (cases "sw_worker (key m) w")
  then have inv1: "sw_inv key ms w1" and live: "sw_live w1 (key m) = Some g"
    using sw_inv_worker [OF assms(1) w1] by simp_all
  have w': "w' = w1\<lparr>sw_chan := (sw_chan w1)(g := sw_chan w1 g @ [m]), sw_active := (sw_active w1)(g := now)\<rparr>"
    using assms(2) w1 by (auto simp: sw_recv_def split: if_splits)
  show ?thesis
  proof (rule sw_inv_step [OF inv1 live])
    show "worker_ok key (ms @ [m]) w' (key m) g"
      using sw_invD(2) [OF inv1 live] by (auto simp: worker_ok_def w' log_of_def stream_of_def)
    show "key m' = key m" if "m' \<in> set (sw_chan w' g) \<or> sw_busy w' g = Some m'" for m'
      using that sw_invD(6,7) [OF inv1 live] by (auto simp: w')
  qed (auto simp: w' log_of_def stream_of_def)
qed

lemma busy_live:
  assumes "sw_inv key ms w" and "\<not> drained w g"
  obtains s where "sw_live w s = Some g"
  using sw_invD(5) [OF assms(1), of g] assms(2) by (auto simp: ran_def)

lemma sw_inv_enter:
  assumes "sw_inv key ms w" and "sw_enter g w = Some w'"
  shows "sw_inv key ms w'"
proof -
  obtain m rest where c: "sw_busy w g = None" "sw_chan w g = m # rest"
    and w': "w' = w\<lparr>sw_chan := (sw_chan w)(g := rest), sw_busy := (sw_busy w)(g \<mapsto> m), sw_log := sw_log w @ [Enter m]\<rparr>"
    using assms(2) by (auto simp: sw_enter_def split: option.splits list.splits)
  obtain s where live: "sw_live w s = Some g"
    using busy_live [OF assms(1), of g] c by (auto simp: drained_def)
  have k: "key m = s" using sw_invD(6) [OF assms(1) live] c(2) by simp
  show ?thesis
  proof (rule sw_inv_step [OF assms(1) live])
    show "worker_ok key ms w' s g"
      using sw_invD(2) [OF assms(1) live] c k by (auto simp: worker_ok_def w' log_of_def)
    show "key m' = s" if "m' \<in> set (sw_chan w' g) \<or> sw_busy w' g = Some m'" for m'
      using that sw_invD(6) [OF assms(1) live] c k by (auto simp: w')
  qed (use k in \<open>auto simp: w' log_of_def\<close>)
qed

lemma sw_inv_leave:
  assumes "sw_inv key ms w" and "sw_leave g w = Some w'"
  shows "sw_inv key ms w'"
proof -
  obtain m where c: "sw_busy w g = Some m"
    and w': "w' = w\<lparr>sw_busy := (sw_busy w)(g := None), sw_log := sw_log w @ [Leave m]\<rparr>"
    using assms(2) by (auto simp: sw_leave_def split: option.splits)
  obtain s where live: "sw_live w s = Some g"
    using busy_live [OF assms(1), of g] c by (auto simp: drained_def)
  have k: "key m = s" using sw_invD(7) [OF assms(1) live] c by simp
  obtain dn where "log_of key s w = script dn @ [Enter m]" "dn @ m # sw_chan w g = stream_of key s ms"
    using sw_invD(2) [OF assms(1) live] c by (auto simp: worker_ok_def)
  then have ok: "worker_ok key ms w' s g"
    unfolding worker_ok_def using k by (intro exI [of _ "dn @ [m]"]) (simp add: w' log_of_def)
  show ?thesis
    by (rule sw_inv_step [OF assms(1) live _ _ _ _ _ _ ok])
      (use k sw_invD(6) [OF assms(1) live] in \<open>auto simp: w' log_of_def\<close>)
qed

text \<open>The ticker removes exactly the expired workers.\<close>

lemma sw_tick_loop:
  fixes idle now
  defines "f \<equiv> \<lambda>stream g v. if now - sw_active v g > idle
      then (v\<lparr>sw_live := (sw_live v)(stream := None)\<rparr>, True) else (v, True)"
  shows "map_range f visit m v = v\<lparr>sw_live := \<lambda>s. if s \<in> set visit \<and> (\<exists>g. m s = Some g \<and> now - sw_active v g > idle)
      then None else sw_live v s\<rparr>"
proof (induction visit arbitrary: v)
  case (Cons s visit)
  show ?case
  proof (cases "\<exists>g. m s = Some g \<and> now - sw_active v g > idle")
    case True
    then obtain g where g: "m s = Some g" "now - sw_active v g > idle" by blast
    then have "map_range f (s # visit) m v = map_range f visit m (v\<lparr>sw_live := (sw_live v)(s := None)\<rparr>)"
      by (simp add: f_def)
    then show ?thesis using Cons.IH g by (auto simp: fun_eq_iff intro!: arg_cong [where f = "\<lambda>x. v\<lparr>sw_live := x\<rparr>"])
  next
    case False
    then have "map_range f (s # visit) m v = map_range f visit m v"
      by (auto simp: f_def split: option.splits)
    then show ?thesis using Cons.IH False by (auto simp: fun_eq_iff intro!: arg_cong [where f = "\<lambda>x. v\<lparr>sw_live := x\<rparr>"])
  qed
qed simp

lemma sw_inv_tick:
  assumes inv: "sw_inv key ms w"
    and idle: "\<And>s g. sw_live w s = Some g \<Longrightarrow> now - sw_active w g > idle \<Longrightarrow> drained w g"
  shows "sw_inv key ms (sw_tick idle now visit w)"
proof -
  define gone where "gone s \<longleftrightarrow> s \<in> set visit \<and> (\<exists>g. sw_live w s = Some g \<and> now - sw_active w g > idle)" for s
  have w': "sw_tick idle now visit w = w\<lparr>sw_live := \<lambda>s. if gone s then None else sw_live w s\<rparr>"
    unfolding sw_tick_def sw_tick_loop gone_def ..
  have same: "worker_ok key ms (sw_tick idle now visit w) s g = worker_ok key ms w s g" for s g
    by (simp add: worker_ok_def w' log_of_def)
  show ?thesis
  proof (rule sw_invI)
    fix s
    assume none: "sw_live (sw_tick idle now visit w) s = None"
    show "log_of key s (sw_tick idle now visit w) = script (stream_of key s ms)"
    proof (cases "gone s")
      case True
      then obtain g where g: "sw_live w s = Some g" "drained w g" using idle by (auto simp: gone_def)
      then have "log_of key s w = script (stream_of key s ms)"
        using sw_invD(2) [OF inv g(1)] by (auto simp: worker_ok_def drained_def)
      then show ?thesis by (simp add: w' log_of_def)
    next
      case False
      then show ?thesis using none sw_invD(1) [OF inv, of s] by (simp add: w' log_of_def)
    qed
  next
    fix s g
    assume "sw_live (sw_tick idle now visit w) s = Some g"
    then show "worker_ok key ms (sw_tick idle now visit w) s g \<and> g < sw_next (sw_tick idle now visit w)"
      using same sw_invD(2,3) [OF inv, of s g] by (auto simp: w' split: if_splits)
  next
    fix s s' g
    assume "sw_live (sw_tick idle now visit w) s = Some g" "sw_live (sw_tick idle now visit w) s' = Some g"
    then show "s = s'" using sw_invD(4) [OF inv, of s g s'] by (auto simp: w' split: if_splits)
  next
    fix g
    assume g: "g \<notin> ran (sw_live (sw_tick idle now visit w))"
    have "drained w g"
    proof (cases "g \<in> ran (sw_live w)")
      case True
      then obtain s where s: "sw_live w s = Some g" by (auto simp: ran_def)
      then have "gone s" using g by (auto simp: w' ran_def split: if_splits)
      then show ?thesis using s idle by (auto simp: gone_def)
    next
      case False
      then show ?thesis by (rule sw_invD(5) [OF inv])
    qed
    then show "drained (sw_tick idle now visit w) g" by (simp add: w' drained_def)
  next
    fix s g m
    assume "sw_live (sw_tick idle now visit w) s = Some g"
      "m \<in> set (sw_chan (sw_tick idle now visit w) g) \<or> sw_busy (sw_tick idle now visit w) g = Some m"
    then show "key m = s" using sw_invD(6,7) [OF inv, of s g m] by (auto simp: w' split: if_splits)
  qed
qed

lemma sw_run_inv: "sw_run key cap idle ms w \<Longrightarrow> sw_inv key ms w"
proof (induction rule: sw_run.induct)
  case run_init
  show ?case by (rule sw_inv_init)
next
  case (run_recv ms w now m w')
  show ?case by (rule sw_inv_recv [OF run_recv.IH run_recv.hyps(2)])
next
  case (run_enter ms w g w')
  show ?case by (rule sw_inv_enter [OF run_enter.IH run_enter.hyps(2)])
next
  case (run_leave ms w g w')
  show ?case by (rule sw_inv_leave [OF run_leave.IH run_leave.hyps(2)])
next
  case (run_tick ms w now visit)
  show ?case by (rule sw_inv_tick [OF run_tick.IH run_tick.hyps(2)])
qed

section \<open>Progress\<close>

text \<open>
  A turn of a worker's goroutine: it takes the next message, or returns from the handler it
  is in, or waits. What a worker still has to do is counted in turns.
\<close>

definition sw_turn :: "nat \<Rightarrow> 'm workers \<Rightarrow> 'm workers" where
  "sw_turn g w =
     (case sw_enter g w of Some w' \<Rightarrow> w' | None \<Rightarrow> (case sw_leave g w of Some w' \<Rightarrow> w' | None \<Rightarrow> w))"

definition turns_left :: "'m workers \<Rightarrow> nat \<Rightarrow> nat" where
  "turns_left w g = 2 * length (sw_chan w g) + (if sw_busy w g = None then 0 else 1)"

lemma turns_left_0: "turns_left w g = 0 \<longleftrightarrow> drained w g"
  by (simp add: turns_left_def drained_def)

lemma sw_turn_left: "turns_left (sw_turn g w) h = (if h = g then turns_left w h - 1 else turns_left w h)"
  by (auto simp: sw_turn_def turns_left_def sw_enter_def sw_leave_def split: option.splits list.splits)

lemma sw_turns_left: "turns_left (fold sw_turn sched w) h = turns_left w h - count_list sched h"
  by (induction sched arbitrary: w) (auto simp: sw_turn_left)

lemma sw_turn_run: "sw_run key cap idle ms w \<Longrightarrow> sw_run key cap idle ms (sw_turn g w)"
  by (auto simp: sw_turn_def split: option.split intro: run_enter run_leave)

lemma sw_turns_run: "sw_run key cap idle ms w \<Longrightarrow> sw_run key cap idle ms (fold sw_turn sched w)"
  by (induction sched arbitrary: w) (simp_all add: sw_turn_run)

lemma turns_left_bound:
  assumes "sw_inv key ms w"
  shows "turns_left w g \<le> 2 * length ms" and "sw_next w \<le> g \<Longrightarrow> turns_left w g = 0"
proof -
  show "turns_left w g \<le> 2 * length ms"
  proof (cases "drained w g")
    case True
    then show ?thesis using turns_left_0 [of w g] by simp
  next
    case False
    then obtain s where s: "sw_live w s = Some g" using busy_live [OF assms] by blast
    then obtain dn where "dn @ (case sw_busy w g of None \<Rightarrow> [] | Some m \<Rightarrow> [m]) @ sw_chan w g = stream_of key s ms"
      using sw_invD(2) [OF assms s] by (auto simp: worker_ok_def)
    from arg_cong [OF this, of length] have "turns_left w g \<le> 2 * length (stream_of key s ms)"
      by (auto simp: turns_left_def split: option.splits)
    also have "\<dots> \<le> 2 * length ms" by (simp add: stream_of_def)
    finally show ?thesis .
  qed
  show "turns_left w g = 0" if "sw_next w \<le> g"
    using that busy_live [OF assms, of g] sw_invD(3) [OF assms, of _ g] turns_left_0 [of w g] by fastforce
qed

section \<open>Messages of one stream are handled in order\<close>

text \<open>
  The contract of such a loop, for the streams of a message type and the capacity and idle
  time of its workers.
\<close>

locale stream_dispatch =
  fixes key :: "'m \<Rightarrow> string" and cap :: nat and idle :: int
  assumes cap_pos: "0 < cap"
begin

lemma in_order:
  assumes "sw_run key cap idle ms w"
  shows "\<exists>dn rest. stream_of key s ms = dn @ rest \<and>
    (log_of key s w = script dn \<or> (\<exists>m rest'. rest = m # rest' \<and> log_of key s w = script dn @ [Enter m]))"
proof (cases "sw_live w s")
  case None
  then show ?thesis using sw_invD(1) [OF sw_run_inv [OF assms] None]
    by (intro exI [of _ "stream_of key s ms"] exI [of _ "[]"]) simp
next
  case (Some g)
  then obtain dn where "log_of key s w = script dn @ (case sw_busy w g of None \<Rightarrow> [] | Some m \<Rightarrow> [Enter m])"
    "dn @ (case sw_busy w g of None \<Rightarrow> [] | Some m \<Rightarrow> [m]) @ sw_chan w g = stream_of key s ms"
    using sw_invD(2) [OF sw_run_inv [OF assms] Some] by (auto simp: worker_ok_def)
  then show ?thesis
    by (intro exI [of _ dn] exI [of _ "(case sw_busy w g of None \<Rightarrow> [] | Some m \<Rightarrow> [m]) @ sw_chan w g"])
      (simp split: option.splits)
qed

lemma nothing_lost:
  assumes "sw_run key cap idle ms w" and "\<forall>g. drained w g"
  shows "log_of key s w = script (stream_of key s ms)"
proof (cases "sw_live w s")
  case None
  then show ?thesis by (rule sw_invD(1) [OF sw_run_inv [OF assms(1)]])
next
  case (Some g)
  then show ?thesis
    using sw_invD(2) [OF sw_run_inv [OF assms(1)] Some] assms(2) by (auto simp: worker_ok_def drained_def)
qed

text \<open>A message is never refused for good: once its worker has room, it is accepted.\<close>

lemma accepts:
  assumes "sw_inv key ms w" and "sw_live w (key m) = None"
  shows "\<exists>w'. sw_recv key cap now m w = Some w'"
proof -
  have "sw_next w \<notin> ran (sw_live w)" using sw_invD(3) [OF assms(1)] by (fastforce simp: ran_def)
  then have "sw_chan w (sw_next w) = []" using sw_invD(5) [OF assms(1)] by (simp add: drained_def)
  then show ?thesis using assms(2) cap_pos by (simp add: sw_recv_def sw_worker_def)
qed

end

section \<open>Properties\<close>

text \<open>
  C18. Every message that was accepted is handled: from any state of a run, when every worker
  goroutine gets twice as many turns as messages were received, in any interleaving, each
  message of every stream has been handled exactly once, in order and one at a time.
\<close>

theorem streams_drain:
  assumes "sw_run key cap idle ms w" and "\<forall>g < sw_next w. 2 * length ms \<le> count_list sched g"
  shows "log_of key s (fold sw_turn sched w) = script (stream_of key s ms)"
proof -
  let ?w = "fold sw_turn sched w"
  note inv = sw_run_inv [OF assms(1)]
  have "turns_left w g \<le> count_list sched g" for g
    using turns_left_bound [OF inv, of g] assms(2) by (cases "g < sw_next w") fastforce+
  then have dr: "drained ?w g" for g unfolding turns_left_0 [symmetric] sw_turns_left by simp
  note inv' = sw_run_inv [OF sw_turns_run [OF assms(1), of sched]]
  show ?thesis
  proof (cases "sw_live ?w s")
    case None
    then show ?thesis by (rule sw_invD(1) [OF inv'])
  next
    case (Some g)
    then show ?thesis using sw_invD(2) [OF inv' Some] dr [of g] by (auto simp: worker_ok_def drained_def)
  qed
qed

theorem streams_drain_witness:
  "\<exists>w. sw_recv (\<lambda>_. ''s'') 10 0 ''a'' sw_init = Some w \<and>
    log_of (\<lambda>_. ''s'') ''s'' (fold sw_turn [0, 0] w) = [Enter ''a'', Leave ''a'']"
proof -
  obtain w where w: "sw_recv (\<lambda>_. ''s'') 10 0 ''a'' sw_init = Some w" "sw_next w = 1"
    by (simp add: sw_recv_def sw_worker_def sw_init_def)
  have "log_of (\<lambda>_. ''s'') ''s'' (fold sw_turn [0, 0] w) = script (stream_of (\<lambda>_. ''s'') ''s'' [''a''])"
  proof (rule streams_drain)
    show "sw_run (\<lambda>_. ''s'') 10 0 [''a''] w" using run_recv [OF run_init w(1), of 0] by simp
  qed (simp add: w(2))
  then show ?thesis using w(1) by (simp add: stream_of_def)
qed

text \<open>
  Closing a worker that is still busy breaks the order: \<open>Active\<close> is only set when a
  message is queued, so a handler that runs longer than the idle time loses its worker, the
  next message of the stream starts a second one, and its handler is entered while the
  first one has not returned.
\<close>

theorem busy_worker_closed:
  assumes "0 < cap" and "key m2 = key m1"
  shows "\<exists>w1 w2 w3 w4. sw_recv key cap 0 m1 sw_init = Some w1 \<and> sw_enter 0 w1 = Some w2 \<and>
    sw_recv key cap (idle + 1) m2 (sw_tick idle (idle + 1) [key m1] w2) = Some w3 \<and>
    sw_enter 1 w3 = Some w4 \<and> sw_log w4 = [Enter m1, Enter m2]"
  using assms by (simp add: sw_recv_def sw_worker_def sw_init_def sw_enter_def sw_tick_def)

theorem busy_worker_closed_witness:
  "\<exists>w1 w2 w3 w4. sw_recv (\<lambda>_. ''s'') 10 0 ''a'' sw_init = Some w1 \<and> sw_enter 0 w1 = Some w2 \<and>
    sw_recv (\<lambda>_. ''s'') 10 (60000000000 + 1) ''b'' (sw_tick 60000000000 (60000000000 + 1) [''s''] w2) = Some w3 \<and>
    sw_enter 1 w3 = Some w4 \<and> sw_log w4 = [Enter ''a'', Enter ''b'']"
  by (rule busy_worker_closed) simp_all

end
