(* ===== verification/Gateway_Lifecycle.thy ===== *)
theory Gateway_Lifecycle
  imports Gateway_Proxy Event_Bus Stream_Workers
begin

text \<open>
  The life of a client session in the gateway (\<open>src/component/gateway/proxy.go\<close>): the
  session hub, connecting, serving and disconnecting, the delayed cleanup of a user's
  routes, heartbeat timeouts, and the reaction to the user connecting elsewhere.

  Sessions are objects shared between goroutines, so they live in a store and are known by
  their address. What the application's hooks and the event bus answer is an argument of
  the operation. A timer made by \<open>time.AfterFunc\<close> is its number; its channel is nil, so
  receiving from it never returns.
\<close>

section \<open>State\<close>

record gsession =
  gs_Type :: string
  gs_ID :: string
  gs_md :: metadata
  gs_RemoteAddr :: string
  gs_LastRWTime :: int
  gs_closed :: bool

datatype phase = Connecting | Serving | Leaving | Ended | Blocked

datatype timer = TimerActive string | TimerFired string

record Proxy =
  px_nodeID :: string
  px_store :: "nat \<rightharpoonup> gsession"
  px_phase :: "nat \<Rightarrow> phase"
  px_hub :: "string \<rightharpoonup> nat"
  px_hubClosed :: bool
  px_count :: "32 word"
  px_state :: stateTable
  px_jobs :: "string \<rightharpoonup> nat"
  px_timers :: "nat \<rightharpoonup> timer"
  px_nextTimer :: nat
  px_events :: "cluster_event list"
  px_done :: bool

definition init_Proxy :: "string \<Rightarrow> Proxy" where
  "init_Proxy nodeID = \<lparr>px_nodeID = nodeID, px_store = Map.empty, px_phase = (\<lambda>_. Ended),
     px_hub = Map.empty, px_hubClosed = False, px_count = 0, px_state = newStateTable,
     px_jobs = Map.empty, px_timers = Map.empty, px_nextTimer = 0, px_events = [], px_done = False\<rparr>"

definition sess_Close :: "nat \<Rightarrow> Proxy \<Rightarrow> Proxy" where
  "sess_Close s px =
     (case px_store px s of
        None \<Rightarrow> px
      | Some sess \<Rightarrow> px\<lparr>px_store := (px_store px)(s \<mapsto> sess\<lparr>gs_closed := True\<rparr>)\<rparr>)"

definition sess_ID :: "nat \<Rightarrow> Proxy \<Rightarrow> string" where
  "sess_ID s px = (case px_store px s of None \<Rightarrow> [] | Some sess \<Rightarrow> gs_ID sess)"

definition sess_RemoteAddr :: "nat \<Rightarrow> Proxy \<Rightarrow> string" where
  "sess_RemoteAddr s px = (case px_store px s of None \<Rightarrow> [] | Some sess \<Rightarrow> gs_RemoteAddr sess)"

text \<open>
  A step of the goroutine of \<open>Start\<close>: the transporter delivers a session, which is handled
  in a task of its own, or closed when the pool refuses the task.
\<close>

definition accept_session :: "bool \<Rightarrow> nat \<Rightarrow> gsession \<Rightarrow> Proxy \<Rightarrow> Proxy" where
  "accept_session submitted s sess px =
     (let px' = px\<lparr>px_store := (px_store px)(s \<mapsto> sess)\<rparr>
      in if submitted then px'\<lparr>px_phase := (px_phase px')(s := Connecting)\<rparr> else sess_Close s px')"

section \<open>The session hub\<close>

definition hub_Store :: "nat \<Rightarrow> Proxy \<Rightarrow> Proxy" where
  "hub_Store s px = px\<lparr>px_hub := (px_hub px)(sess_ID s px \<mapsto> s)\<rparr>"

definition hub_Load :: "string \<Rightarrow> Proxy \<Rightarrow> nat option" where
  "hub_Load sessID px = px_hub px sessID"

text \<open>\<open>CompareAndDelete\<close>: only the entry that still is this session is removed.\<close>

definition hub_Delete :: "nat \<Rightarrow> Proxy \<Rightarrow> Proxy" where
  "hub_Delete s px =
     (if px_hub px (sess_ID s px) = Some s
      then px\<lparr>px_hub := (px_hub px)(sess_ID s px := None)\<rparr> else px)"

definition hub_Range :: "(nat \<Rightarrow> 's \<Rightarrow> 's \<times> bool) \<Rightarrow> string list \<Rightarrow> (string \<rightharpoonup> nat) \<Rightarrow> 's \<Rightarrow> 's" where
  "hub_Range f visit hub x = map_range (\<lambda>_ s x. f s x) visit hub x"

definition hub_Close :: "string list \<Rightarrow> Proxy \<Rightarrow> Proxy" where
  "hub_Close visit px =
     (if px_hubClosed px then px
      else map_range (\<lambda>sessID s v.
             let v' = sess_Close s v in (v'\<lparr>px_hub := (px_hub v')(sessID := None)\<rparr>, True))
           visit (px_hub px) (px\<lparr>px_hubClosed := True\<rparr>))"

section \<open>Connecting\<close>

datatype connect_result = Connected | ConnectErr go_error | ConnectBlocked

text \<open>The initializer's answer: the user's id and metadata (\<open>None\<close> is a nil map).\<close>

definition connectInit ::
  "go_error + string \<times> metadata option \<Rightarrow> go_error option \<Rightarrow> nat \<Rightarrow> Proxy \<Rightarrow> Proxy \<times> go_error option" where
  "connectInit initializer interceptor s px =
     (case initializer of
        Inl err \<Rightarrow> (px, Some (ErrWrap ''deny by initializer'' err))
      | Inr (userID, md) \<Rightarrow>
          if userID = [] then (px, Some (ErrNew ''empty userID''))
          else let md' = (case md of None \<Rightarrow> Map.empty | Some m \<Rightarrow> m);
                   px' = (case px_store px s of
                            None \<Rightarrow> px
                          | Some sess \<Rightarrow> px\<lparr>px_store := (px_store px)(s \<mapsto> sess\<lparr>gs_ID := userID, gs_md := md'\<rparr>)\<rparr>)
               in (px', interceptor))"

definition connectEvict :: "nat \<Rightarrow> Proxy \<Rightarrow> Proxy" where
  "connectEvict s px =
     (case hub_Load (sess_ID s px) px of Some prev \<Rightarrow> sess_Close prev px | None \<Rightarrow> px)"

text \<open>
  \<open>timer.Stop()\<close> stops an active timer and returns false for one that has fired. Receiving from
  a nil channel (\<open>None\<close>) never returns, and the channel \<open>C\<close> of a timer of \<open>time.AfterFunc\<close> is nil.
\<close>

definition timer_Stop :: "nat \<Rightarrow> Proxy \<Rightarrow> Proxy \<times> bool" where
  "timer_Stop t px =
     (case px_timers px t of
        Some (TimerActive u) \<Rightarrow> (px\<lparr>px_timers := (px_timers px)(t := None)\<rparr>, True)
      | _ \<Rightarrow> (px, False))"

definition chan_recv :: "'a list option \<Rightarrow> 'a option" where
  "chan_recv ch = (case ch of Some (x # _) \<Rightarrow> Some x | _ \<Rightarrow> None)"

definition AfterFunc_C :: "int list option" where "AfterFunc_C = None"

definition connectCancelJob :: "nat \<Rightarrow> Proxy \<Rightarrow> Proxy option" where
  connectCancelJob_code: "connectCancelJob s px =
     (case px_jobs px (sess_ID s px) of
        None \<Rightarrow> Some px
      | Some t \<Rightarrow>
          let (px1, stopped) = timer_Stop t px
          in if \<not> stopped \<and> chan_recv AfterFunc_C = None then None
             else Some (px1\<lparr>px_jobs := (px_jobs px1)(sess_ID s px1 := None)\<rparr>))"

lemma connectCancelJob_def:
  "connectCancelJob s px =
     (case px_jobs px (sess_ID s px) of
        None \<Rightarrow> Some px
      | Some t \<Rightarrow>
          (case px_timers px t of
             Some (TimerActive u) \<Rightarrow>
               Some (px\<lparr>px_timers := (px_timers px)(t := None), px_jobs := (px_jobs px)(sess_ID s px := None)\<rparr>)
           | _ \<Rightarrow> None))"
  by (simp add: connectCancelJob_code timer_Stop_def chan_recv_def AfterFunc_C_def sess_ID_def split: option.split timer.split)

definition connectPublish :: "go_error option \<Rightarrow> nat \<Rightarrow> Proxy \<Rightarrow> Proxy \<times> go_error option" where
  "connectPublish published s px =
     (case published of
        Some err \<Rightarrow> (px, Some (ErrWrap ''publish event'' err))
      | None \<Rightarrow>
          (px\<lparr>px_events := px_events px @ [EvConnected \<lparr>uc_GatewayID = px_nodeID px,
             uc_UserID = sess_ID s px, uc_RemoteAddr = sess_RemoteAddr s px,
             uc_Metadata = (case px_store px s of None \<Rightarrow> Map.empty | Some sess \<Rightarrow> gs_md sess)\<rparr>]\<rparr>, None))"

definition onConnect ::
  "go_error + string \<times> metadata option \<Rightarrow> go_error option \<Rightarrow> go_error option \<Rightarrow> nat \<Rightarrow> Proxy \<Rightarrow>
   Proxy \<times> connect_result" where
  "onConnect initializer interceptor published s px =
     (case connectInit initializer interceptor s px of
        (px1, Some err) \<Rightarrow> (px1, ConnectErr err)
      | (px1, None) \<Rightarrow>
          (case connectCancelJob s (connectEvict s px1) of
             None \<Rightarrow> (connectEvict s px1, ConnectBlocked)
           | Some px2 \<Rightarrow>
               (case connectPublish published s px2 of
                  (px3, Some err) \<Rightarrow> (px3, ConnectErr err)
                | (px3, None) \<Rightarrow> (hub_Store s px3, Connected))))"

text \<open>
  Other goroutines run between announcing and storing a session. \<open>connectAnnounce\<close> is the part up to
  \<open>Publish\<close>: the connect is over with a result, or (\<open>None\<close>) the session is still to be stored.
\<close>

definition connectAnnounce ::
  "go_error + string \<times> metadata option \<Rightarrow> go_error option \<Rightarrow> go_error option \<Rightarrow> nat \<Rightarrow> Proxy \<Rightarrow>
   Proxy \<times> connect_result option" where
  "connectAnnounce initializer interceptor published s px =
     (case connectInit initializer interceptor s px of
        (px1, Some err) \<Rightarrow> (px1, Some (ConnectErr err))
      | (px1, None) \<Rightarrow>
          (case connectCancelJob s (connectEvict s px1) of
             None \<Rightarrow> (connectEvict s px1, Some ConnectBlocked)
           | Some px2 \<Rightarrow>
               (case connectPublish published s px2 of
                  (px3, Some err) \<Rightarrow> (px3, Some (ConnectErr err))
                | (px3, None) \<Rightarrow> (px3, None))))"

lemma onConnect_stages:
  "onConnect i c p s px =
     (case connectAnnounce i c p s px of (px', Some r) \<Rightarrow> (px', r) | (px', None) \<Rightarrow> (hub_Store s px', Connected))"
  by (simp add: onConnect_def connectAnnounce_def split: prod.split option.split)

section \<open>Disconnecting\<close>

definition onDisconnect :: "go_error option \<Rightarrow> nat \<Rightarrow> Proxy \<Rightarrow> Proxy" where
  "onDisconnect published s px =
     (let px1 = hub_Delete s px;
          px2 = (if published = None
                 then px1\<lparr>px_events := px_events px1 @ [EvDisconnected \<lparr>ud_GatewayID = px_nodeID px1,
                        ud_UserID = sess_ID s px1, ud_RemoteAddr = sess_RemoteAddr s px1\<rparr>]\<rparr>
                 else px1);
          t = px_nextTimer px2
      in px2\<lparr>px_jobs := (px_jobs px2)(sess_ID s px2 \<mapsto> t),
             px_timers := (px_timers px2)(t \<mapsto> TimerActive (sess_ID s px2)), px_nextTimer := Suc t\<rparr>)"

text \<open>The cleanup function of a timer: it starts, and at its end it drops the job.\<close>

definition timer_fires :: "nat \<Rightarrow> Proxy \<Rightarrow> Proxy" where
  "timer_fires t px =
     (case px_timers px t of
        Some (TimerActive userID) \<Rightarrow>
          (let px1 = px\<lparr>px_timers := (px_timers px)(t \<mapsto> TimerFired userID)\<rparr>
           in if hub_Load userID px1 = None
              then px1\<lparr>px_state := CleanSession userID (px_state px1)\<rparr> else px1)
      | _ \<Rightarrow> px)"

definition timer_returns :: "nat \<Rightarrow> Proxy \<Rightarrow> Proxy" where
  "timer_returns t px =
     (case px_timers px t of
        Some (TimerFired userID) \<Rightarrow>
          px\<lparr>px_timers := (px_timers px)(t := None), px_jobs := (px_jobs px)(userID := None)\<rparr>
      | _ \<Rightarrow> px)"

section \<open>Serving\<close>

text \<open>
  \<open>handleSession\<close> around the request loop: what follows a successful \<open>onConnect\<close>, and the
  deferred functions, the counter first, then \<open>onDisconnect\<close> and \<open>Close\<close>.
\<close>

definition session_begin :: "connect_result \<Rightarrow> nat \<Rightarrow> Proxy \<Rightarrow> Proxy" where
  "session_begin r s px =
     (case r of
        Connected \<Rightarrow> px\<lparr>px_count := px_count px + 1, px_phase := (px_phase px)(s := Serving)\<rparr>
      | ConnectErr _ \<Rightarrow> (sess_Close s px)\<lparr>px_phase := (px_phase px)(s := Ended)\<rparr>
      | ConnectBlocked \<Rightarrow> px\<lparr>px_phase := (px_phase px)(s := Blocked)\<rparr>)"

definition session_leaves :: "nat \<Rightarrow> Proxy \<Rightarrow> Proxy" where
  "session_leaves s px = px\<lparr>px_count := px_count px - 1, px_phase := (px_phase px)(s := Leaving)\<rparr>"

definition session_end :: "go_error option \<Rightarrow> nat \<Rightarrow> Proxy \<Rightarrow> Proxy" where
  "session_end published s px =
     (let px' = sess_Close s (onDisconnect published s px) in px'\<lparr>px_phase := (px_phase px')(s := Ended)\<rparr>)"

text \<open>
  The request loop: one request at a time, until the proxy is done or \<open>Recv\<close> fails. The
  loop yields the requests submitted directly and those handed to the stream workers; the
  flag of a received request tells that \<open>done\<close> was closed while it waited to be handed over.
\<close>

datatype loop_input = ProxyDone | RecvErr go_error | RecvReq Request bool

fun request_loop :: "loop_input list \<Rightarrow> Request list \<Rightarrow> Request list \<Rightarrow> Request list \<times> Request list" where
  "request_loop [] direct streamed = (direct, streamed)"
| "request_loop (ProxyDone # ins) direct streamed = (direct, streamed)"
| "request_loop (RecvErr err # ins) direct streamed = (direct, streamed)"
| "request_loop (RecvReq req is_done # ins) direct streamed =
     (if req_Stream req = [] then request_loop ins (direct @ [req]) streamed
      else if is_done then (direct, streamed)
      else request_loop ins direct (streamed @ [req]))"

definition req_chan_cap :: nat where "req_chan_cap = 10"
definition req_idle :: int where "req_idle = 60000000000"

text \<open>\<open>handleRequestStream\<close>: the ordered workers for the requests of one session.\<close>

interpretation reqs: stream_dispatch req_Stream req_chan_cap req_idle
  by unfold_locales (simp add: req_chan_cap_def)

definition handleRequestStream :: "int \<Rightarrow> Request \<Rightarrow> Request workers \<Rightarrow> Request workers option" where
  "handleRequestStream now req w = sw_recv req_Stream req_chan_cap now req w"

definition requestStream_tick :: "int \<Rightarrow> string list \<Rightarrow> Request workers \<Rightarrow> Request workers" where
  "requestStream_tick now visit w = sw_tick req_idle now visit w"

section \<open>Other goroutines\<close>

definition on_UserConnected :: "UserConnected \<Rightarrow> Proxy \<Rightarrow> Proxy" where
  "on_UserConnected ev px =
     (if uc_GatewayID ev \<noteq> px_nodeID px then
        let px1 = (case hub_Load (uc_UserID ev) px of Some s \<Rightarrow> sess_Close s px | None \<Rightarrow> px)
        in px1\<lparr>px_state := CleanSession (uc_UserID ev) (px_state px1)\<rparr>
      else px)"

definition on_nodeDeleted :: "string list \<Rightarrow> inner_order \<Rightarrow> NodeEntry \<Rightarrow> Proxy \<Rightarrow> Proxy" where
  "on_nodeDeleted sessions inner entry px =
     px\<lparr>px_state := CleanNode (ID entry) sessions inner (px_state px)\<rparr>"

definition removeZombie :: "int \<Rightarrow> int \<Rightarrow> string list \<Rightarrow> Proxy \<Rightarrow> Proxy" where
  "removeZombie keepalive now visit px =
     hub_Range (\<lambda>s v.
       case px_store v s of
         Some sess \<Rightarrow> if now - gs_LastRWTime sess > keepalive then (sess_Close s v, True) else (v, True)
       | None \<Rightarrow> (v, True)) visit (px_hub px) px"

text \<open>
  \<open>Stop\<close>, up to shutting down the transporter, whose error is only logged: it closes the
  channel \<open>done\<close>, so a second call panics.
\<close>

definition proxy_Stop :: "string list \<Rightarrow> Proxy \<Rightarrow> Proxy go" where
  "proxy_Stop visit px =
     (if px_done px then Panic ''close of closed channel'' else Ok (hub_Close visit (px\<lparr>px_done := True\<rparr>)))"

definition proxy_SessionCount :: "Proxy \<Rightarrow> int" where
  "proxy_SessionCount px = sint (px_count px)"

section \<open>Runs\<close>

text \<open>
  Everything that can happen, in any order: connections are accepted, connect (one at a
  time), are served, end for whatever reason, are closed by heartbeat timeout, by another
  gateway's event or by the hub, and cleanup timers run.
\<close>

inductive gw_step :: "Proxy \<Rightarrow> Proxy \<Rightarrow> bool" where
  step_accept: "px_store px s = None \<Longrightarrow> gw_step px (accept_session submitted s sess px)"
| step_connect: "px_phase px s = Connecting \<Longrightarrow> onConnect i c p s px = (px', r) \<Longrightarrow> gw_step px (session_begin r s px')"
| step_leave: "px_phase px s = Serving \<Longrightarrow> gw_step px (session_leaves s px)"
| step_end: "px_phase px s = Leaving \<Longrightarrow> gw_step px (session_end p s px)"
| step_fire: "gw_step px (timer_fires t px)"
| step_return: "gw_step px (timer_returns t px)"
| step_deleted: "gw_step px (on_nodeDeleted ss inner n px)"
| step_close: "gw_step px (sess_Close s px)"
| step_zombie: "gw_step px (removeZombie k now visit px)"
| step_stop: "proxy_Stop visit px = Ok px' \<Longrightarrow> gw_step px px'"

inductive gw_reach :: "Proxy \<Rightarrow> bool" where
  gw_init: "gw_reach (init_Proxy nodeID)"
| gw_moves: "gw_reach px \<Longrightarrow> gw_step px px' \<Longrightarrow> gw_reach px'"
| gw_event: "gw_reach px \<Longrightarrow> gw_reach (on_UserConnected ev px)"

lemmas gw_accept = gw_moves [OF _ step_accept]
  and gw_connect = gw_moves [OF _ step_connect]
  and gw_leave = gw_moves [OF _ step_leave]
  and gw_end = gw_moves [OF _ step_end]
  and gw_fire = gw_moves [OF _ step_fire]

section \<open>The invariant\<close>

definition serving :: "Proxy \<Rightarrow> nat set" where
  "serving px = {s. px_phase px s = Serving}"

text \<open>A session that is served and still open; the user it belongs to.\<close>

definition open_session :: "Proxy \<Rightarrow> string \<Rightarrow> nat \<Rightarrow> bool" where
  "open_session px userID s \<longleftrightarrow> px_phase px s = Serving \<and>
     (\<exists>sess. px_store px s = Some sess \<and> gs_ID sess = userID \<and> \<not> gs_closed sess)"

definition gw_inv :: "Proxy \<Rightarrow> bool" where
  "gw_inv px \<longleftrightarrow>
     (\<forall>u s. px_hub px u = Some s \<longrightarrow> sess_ID s px = u \<and> px_phase px s \<in> {Serving, Leaving}) \<and>
     finite (serving px) \<and> px_count px = of_nat (card (serving px)) \<and>
     (\<forall>u s. open_session px u s \<longrightarrow> px_hub px u = Some s) \<and>
     (\<forall>s. px_store px s = None \<longrightarrow> px_phase px s = Ended)"

lemma gw_invD:
  assumes "gw_inv px"
  shows "px_hub px u = Some s \<Longrightarrow> sess_ID s px = u"
    and "px_hub px u = Some s \<Longrightarrow> px_phase px s \<in> {Serving, Leaving}"
    and "finite (serving px)" and "px_count px = of_nat (card (serving px))"
    and "open_session px u s \<Longrightarrow> px_hub px u = Some s"
    and "px_store px s = None \<Longrightarrow> px_phase px s = Ended"
  using assms by (auto simp: gw_inv_def)

lemma gw_invI:
  assumes "\<And>u s. px_hub px u = Some s \<Longrightarrow> sess_ID s px = u"
    and "\<And>u s. px_hub px u = Some s \<Longrightarrow> px_phase px s \<in> {Serving, Leaving}"
    and "finite (serving px)" and "px_count px = of_nat (card (serving px))"
    and "\<And>u s. open_session px u s \<Longrightarrow> px_hub px u = Some s"
    and "\<And>s. px_store px s = None \<Longrightarrow> px_phase px s = Ended"
  shows "gw_inv px"
  unfolding gw_inv_def using assms by blast

text \<open>Steps that only close sessions: addresses, ids, phases, hub and counter stay.\<close>

definition only_closes :: "Proxy \<Rightarrow> Proxy \<Rightarrow> bool" where
  "only_closes px px' \<longleftrightarrow>
     px_hub px' = px_hub px \<and> px_phase px' = px_phase px \<and> px_count px' = px_count px \<and>
     (\<forall>s. map_option gs_ID (px_store px' s) = map_option gs_ID (px_store px s)) \<and>
     (\<forall>s sess sess'. px_store px s = Some sess \<longrightarrow> px_store px' s = Some sess' \<longrightarrow>
        gs_closed sess \<longrightarrow> gs_closed sess')"

lemma only_closesD:
  assumes "only_closes px px'"
  shows "px_hub px' = px_hub px" and "px_phase px' = px_phase px" and "px_count px' = px_count px"
    and "sess_ID s px' = sess_ID s px" and "px_store px' s = None \<longleftrightarrow> px_store px s = None"
    and "open_session px' u s \<Longrightarrow> open_session px u s"
proof -
  have ids: "map_option gs_ID (px_store px' s) = map_option gs_ID (px_store px s)" for s
    using assms by (simp add: only_closes_def)
  show "px_hub px' = px_hub px" "px_phase px' = px_phase px" "px_count px' = px_count px"
    using assms by (simp_all add: only_closes_def)
  show "sess_ID s px' = sess_ID s px"
    using ids [of s] by (cases "px_store px s"; cases "px_store px' s") (simp_all add: sess_ID_def)
  show "px_store px' s = None \<longleftrightarrow> px_store px s = None"
    using ids [of s] by (cases "px_store px s"; cases "px_store px' s") simp_all
  show "open_session px' u s \<Longrightarrow> open_session px u s"
    using ids [of s] assms by (cases "px_store px s") (auto simp: open_session_def only_closes_def)
qed

lemma only_closes_inv:
  assumes "gw_inv px" and "only_closes px px'"
  shows "gw_inv px'"
proof -
  note oc = only_closesD [OF assms(2)]
  have "serving px' = serving px" by (simp add: serving_def oc(2))
  then show ?thesis
    using gw_invD [OF assms(1)] oc by (simp add: gw_inv_def)
qed

lemma only_closes_refl [simp]: "only_closes px px"
  by (simp add: only_closes_def)

lemma only_closes_trans: "only_closes px px1 \<Longrightarrow> only_closes px1 px2 \<Longrightarrow> only_closes px px2"
  unfolding only_closes_def by (metis map_option_eq_Some not_None_eq option.map_disc_iff)

lemma only_closes_sess_Close [simp]: "only_closes px (sess_Close s px)"
  by (auto simp: only_closes_def sess_Close_def split: option.splits)

lemma only_closes_fields [simp]:
  "only_closes px (px\<lparr>px_state := x\<rparr>)" "only_closes px (px\<lparr>px_timers := y\<rparr>)"
  "only_closes px (px\<lparr>px_timers := y, px_jobs := z\<rparr>)" "only_closes px (px\<lparr>px_events := e\<rparr>)"
  "only_closes px (px\<lparr>px_done := b\<rparr>)" "only_closes px (px\<lparr>px_hubClosed := b\<rparr>)"
  by (simp_all add: only_closes_def)

lemma only_closes_steps:
  "only_closes px (timer_fires t px)" "only_closes px (timer_returns t px)"
  "only_closes px (on_UserConnected ev px)" "only_closes px (on_nodeDeleted ss inner n px)"
  "only_closes px (connectEvict s px)" "connectCancelJob s px = Some px' \<Longrightarrow> only_closes px px'"
  "only_closes px (fst (connectPublish p s px))"
proof -
  show "only_closes px (timer_fires t px)"
    by (auto simp: timer_fires_def only_closes_def Let_def split: option.splits timer.splits)
  show "only_closes px (timer_returns t px)"
    by (auto simp: timer_returns_def split: option.splits timer.splits)
  show "only_closes px (on_UserConnected ev px)"
    by (auto simp: on_UserConnected_def Let_def only_closes_def sess_Close_def split: option.splits)
  show "only_closes px (on_nodeDeleted ss inner n px)" by (simp add: on_nodeDeleted_def)
  show "only_closes px (connectEvict s px)" by (simp add: connectEvict_def split: option.splits)
  show "connectCancelJob s px = Some px' \<Longrightarrow> only_closes px px'"
    by (auto simp: connectCancelJob_def split: option.splits timer.splits)
  show "only_closes px (fst (connectPublish p s px))"
    by (simp add: connectPublish_def split: option.splits)
qed

lemma only_closes_zombie: "only_closes px (removeZombie k now visit px)"
  unfolding removeZombie_def hub_Range_def
  by (rule map_range_inv [where P = "only_closes px"])
    (auto intro: only_closes_trans split: option.splits)

section \<open>Preservation\<close>

text \<open>Entries of the hub may be dropped for sessions that are not open.\<close>

lemma gw_inv_drop:
  assumes "gw_inv px" and "\<not> open_session px u s" and "px_hub px u = Some s"
  shows "gw_inv (px\<lparr>px_hub := (px_hub px)(u := None)\<rparr>)"
proof -
  have "open_session (px\<lparr>px_hub := (px_hub px)(u := None)\<rparr>) v r = open_session px v r"
    "sess_ID r (px\<lparr>px_hub := (px_hub px)(u := None)\<rparr>) = sess_ID r px"
    "serving (px\<lparr>px_hub := (px_hub px)(u := None)\<rparr>) = serving px" for v r
    by (simp_all add: open_session_def sess_ID_def serving_def)
  moreover have "v \<noteq> u \<and> px_hub px v = Some r" if "open_session px v r" for v r
    using gw_invD(5) [OF assms(1) that] assms(2,3) that by auto
  ultimately show ?thesis
    using gw_invD [OF assms(1)] by (simp add: gw_inv_def)
qed

lemma sess_Close_not_open: "\<not> open_session (sess_Close s px) u s"
  by (auto simp: open_session_def sess_Close_def split: option.splits)

lemma gw_inv_hub_Close:
  assumes "gw_inv px"
  shows "gw_inv (hub_Close visit px)"
proof (cases "px_hubClosed px")
  case True
  then show ?thesis using assms by (simp add: hub_Close_def)
next
  case False
  let ?P = "\<lambda>v. gw_inv v \<and> (\<forall>u. px_hub v u = None \<or> px_hub v u = px_hub px u)"
  have step: "?P (let v' = sess_Close s v in v'\<lparr>px_hub := (px_hub v')(u := None)\<rparr>)"
    if "px_hub px u = Some s" "?P v" for u s v
  proof -
    let ?v = "sess_Close s v"
    have inv: "gw_inv ?v" using that(2) only_closes_inv [OF _ only_closes_sess_Close] by blast
    have h: "px_hub ?v = px_hub v" by (rule only_closesD(1)) simp
    have "gw_inv (?v\<lparr>px_hub := (px_hub ?v)(u := None)\<rparr>)"
    proof (cases "px_hub v u")
      case None
      then have "(px_hub ?v)(u := None) = px_hub ?v" using h by (simp add: fun_upd_idem)
      then show ?thesis using inv by simp
    next
      case (Some r)
      then have "r = s" using that by (metis option.distinct(1) option.inject)
      then show ?thesis using gw_inv_drop [OF inv sess_Close_not_open] Some h by simp
    qed
    then show ?thesis using that(2) h by (simp add: Let_def)
  qed
  have "?P (px\<lparr>px_hubClosed := True\<rparr>)"
    using only_closes_inv [OF assms only_closes_fields(6)] by simp
  then have "?P (hub_Close visit px)"
    unfolding hub_Close_def using False
    by (simp only: if_False) (rule map_range_inv [where P = ?P], use step in \<open>simp_all add: Let_def\<close>)
  then show ?thesis by simp
qed

text \<open>What \<open>onConnect\<close> does to the invariant: its session is not in the hub before.\<close>

lemma sess_update_inv:
  assumes "gw_inv px" and "px_phase px s = Connecting" and "px_store px s = Some sess"
  shows "gw_inv (px\<lparr>px_store := (px_store px)(s \<mapsto> sess')\<rparr>)"
proof -
  let ?px = "px\<lparr>px_store := (px_store px)(s \<mapsto> sess')\<rparr>"
  have nh: "px_hub px u \<noteq> Some s" for u using gw_invD(2) [OF assms(1), of u s] assms(2) by auto
  have "sess_ID r ?px = sess_ID r px" if "r \<noteq> s" for r using that by (simp add: sess_ID_def)
  moreover have "open_session ?px u r \<longleftrightarrow> open_session px u r" for u r
    using assms(2) by (auto simp: open_session_def)
  moreover have "serving ?px = serving px" by (simp add: serving_def)
  ultimately show ?thesis
    using gw_invD [OF assms(1)] nh assms(3) by (simp add: gw_inv_def) metis
qed

lemma connectInit_inv:
  assumes "gw_inv px" and "px_phase px s = Connecting" and "connectInit i c s px = (px', e)"
  shows "gw_inv px'" and "px_phase px' = px_phase px"
proof -
  have "px' = px \<or> (\<exists>sess sess'. px_store px s = Some sess \<and> px' = px\<lparr>px_store := (px_store px)(s \<mapsto> sess')\<rparr>)"
    using assms(3) by (auto simp: connectInit_def Let_def split: sum.splits if_splits option.splits)
  then show "gw_inv px'" "px_phase px' = px_phase px"
    using assms(1,2) sess_update_inv by auto
qed

definition evicted :: "nat \<Rightarrow> Proxy \<Rightarrow> bool" where
  "evicted s px \<longleftrightarrow> (\<forall>r. \<not> open_session px (sess_ID s px) r)"

lemma connectEvict_evicts:
  assumes "gw_inv px"
  shows "evicted s (connectEvict s px)"
proof -
  have id: "sess_ID s (connectEvict s px) = sess_ID s px"
    by (rule only_closesD(4) [OF only_closes_steps(5)])
  have "\<not> open_session (connectEvict s px) (sess_ID s px) r" for r
  proof
    assume o': "open_session (connectEvict s px) (sess_ID s px) r"
    then have "open_session px (sess_ID s px) r" by (rule only_closesD(6) [OF only_closes_steps(5)])
    then have "px_hub px (sess_ID s px) = Some r" by (rule gw_invD(5) [OF assms])
    then show False using o' sess_Close_not_open by (simp add: connectEvict_def hub_Load_def)
  qed
  then show ?thesis by (simp add: evicted_def id)
qed

lemma evicted_mono: "evicted s px \<Longrightarrow> only_closes px px' \<Longrightarrow> evicted s px'"
  unfolding evicted_def using only_closesD(4,6) by metis

lemma connectAnnounce_inv:
  assumes "gw_inv px" and "px_phase px s = Connecting" and "connectAnnounce i c p s px = (px', e)"
  shows "gw_inv px'" and "px_phase px' = px_phase px" and "e = None \<Longrightarrow> evicted s px'" and "e \<noteq> Some Connected"
proof -
  obtain px1 e1 where i: "connectInit i c s px = (px1, e1)" by (cases "connectInit i c s px")
  note inv1 = connectInit_inv [OF assms(1,2) i]
  let ?px2 = "connectEvict s px1"
  have inv2: "gw_inv ?px2" "px_phase ?px2 = px_phase px" "evicted s ?px2"
    using only_closes_inv [OF inv1(1) only_closes_steps(5)] connectEvict_evicts [OF inv1(1)]
      only_closesD(2) [OF only_closes_steps(5)] inv1(2) by auto
  have "gw_inv px' \<and> px_phase px' = px_phase px \<and> (e = None \<longrightarrow> evicted s px') \<and> e \<noteq> Some Connected"
  proof (cases e1)
    case (Some e)
    then show ?thesis using assms(3) i inv1 by (auto simp: connectAnnounce_def)
  next
    case None
    show ?thesis
    proof (cases "connectCancelJob s ?px2")
      case n: None
      then show ?thesis using assms(3) i None inv2 by (auto simp: connectAnnounce_def)
    next
      case (Some px3)
      have oc3: "only_closes ?px2 px3" by (rule only_closes_steps(6) [OF Some])
      obtain px4 e4 where p: "connectPublish p s px3 = (px4, e4)" by (cases "connectPublish p s px3")
      have "only_closes px3 px4" using only_closes_steps(7) [of px3 p s] p by simp
      then have oc: "only_closes ?px2 px4" by (rule only_closes_trans [OF oc3])
      have "gw_inv px4" "px_phase px4 = px_phase px" "evicted s px4"
        using only_closes_inv [OF inv2(1) oc] only_closesD(2) [OF oc] evicted_mono [OF inv2(3) oc] inv2(2)
        by auto
      then show ?thesis
        using assms(3) i None Some p by (cases e4) (auto simp: connectAnnounce_def)
    qed
  qed
  then show "gw_inv px'" "px_phase px' = px_phase px" "e = None \<Longrightarrow> evicted s px'" "e \<noteq> Some Connected" by auto
qed

lemma onConnect_cases:
  assumes "gw_inv px" and "px_phase px s = Connecting" and "onConnect i c p s px = (px', r)"
  shows "(r \<noteq> Connected \<longrightarrow> gw_inv px' \<and> px_phase px' = px_phase px) \<and>
    (r = Connected \<longrightarrow> (\<exists>v. gw_inv v \<and> px_phase v = px_phase px \<and> evicted s v \<and> px' = hub_Store s v))"
proof -
  obtain v e where a: "connectAnnounce i c p s px = (v, e)" by (cases "connectAnnounce i c p s px")
  show ?thesis
    using connectAnnounce_inv [OF assms(1,2) a] assms(3) a by (cases e) (auto simp: onConnect_stages)
qed

lemma gw_inv_phase:
  assumes "gw_inv px" and "px_phase px s = Connecting" and "ph \<notin> {Serving, Connecting}"
  shows "gw_inv (px\<lparr>px_phase := (px_phase px)(s := ph)\<rparr>)"
proof -
  let ?px = "px\<lparr>px_phase := (px_phase px)(s := ph)\<rparr>"
  have nh: "px_hub px u \<noteq> Some s" for u using gw_invD(2) [OF assms(1), of u s] assms(2) by auto
  have st: "px_store px s \<noteq> None" using gw_invD(6) [OF assms(1), of s] assms(2) by auto
  have "serving ?px = serving px" using assms(2,3) by (auto simp: serving_def)
  moreover have "open_session ?px u r \<longleftrightarrow> open_session px u r" for u r
    using assms(2,3) by (auto simp: open_session_def)
  moreover have "sess_ID r ?px = sess_ID r px" for r by (simp add: sess_ID_def)
  ultimately show ?thesis
    using gw_invD [OF assms(1)] nh st by (auto simp: gw_inv_def)
qed

lemma gw_inv_store:
  assumes "gw_inv v" and "px_phase v s = Connecting" and "evicted s v"
  shows "gw_inv (session_begin Connected s (hub_Store s v))"
proof -
  let ?px = "session_begin Connected s (hub_Store s v)"
  have sb: "px_store ?px = px_store v" "px_phase ?px = (px_phase v)(s := Serving)"
    "px_hub ?px = (px_hub v)(sess_ID s v \<mapsto> s)" "px_count ?px = px_count v + 1"
    by (simp_all add: session_begin_def hub_Store_def)
  have ids: "sess_ID r ?px = sess_ID r v" for r by (simp add: sess_ID_def sb)
  have st: "px_store v s \<noteq> None" using gw_invD(6) [OF assms(1), of s] assms(2) by auto
  have "serving ?px = insert s (serving v)" "s \<notin> serving v"
    using assms(2) by (auto simp: serving_def sb)
  then have cnt: "finite (serving ?px)" "px_count ?px = of_nat (card (serving ?px))"
    using gw_invD(3,4) [OF assms(1)] by (simp_all add: sb)
  have "px_hub ?px u = Some r" if "open_session ?px u r" for u r
  proof (cases "r = s")
    case True
    then show ?thesis using that by (auto simp: open_session_def sb sess_ID_def)
  next
    case False
    then have o: "open_session v u r" using that by (simp add: open_session_def sb)
    then show ?thesis
      using gw_invD(5) [OF assms(1) o] assms(3) by (auto simp: evicted_def sb)
  qed
  moreover have "sess_ID r ?px = u \<and> px_phase ?px r \<in> {Serving, Leaving}" if "px_hub ?px u = Some r" for u r
    using that gw_invD(1,2) [OF assms(1), of u r] by (auto simp: ids sb split: if_splits)
  moreover have "px_store ?px r = None \<Longrightarrow> px_phase ?px r = Ended" for r
    using gw_invD(6) [OF assms(1), of r] st by (auto simp: sb)
  ultimately show ?thesis using cnt unfolding gw_inv_def by blast
qed

lemma session_over_inv:
  assumes "gw_inv px" and "px_phase px s = Connecting" and "r \<noteq> Connected"
  shows "gw_inv (session_begin r s px)"
proof (cases r)
  case (ConnectErr e)
  note oc = only_closes_sess_Close [of px s]
  have "session_begin r s px = (sess_Close s px)\<lparr>px_phase := (px_phase (sess_Close s px))(s := Ended)\<rparr>"
    using only_closesD(2) [OF oc] by (simp add: session_begin_def ConnectErr)
  then show ?thesis
    using gw_inv_phase [OF only_closes_inv [OF assms(1) oc], of s Ended] only_closesD(2) [OF oc] assms(2) by simp
next
  case ConnectBlocked
  then show ?thesis
    using gw_inv_phase [OF assms(1,2), of Blocked] by (simp add: session_begin_def)
qed (use assms(3) in simp)

lemma session_begin_inv:
  assumes "gw_inv px" and "px_phase px s = Connecting" and "onConnect i c p s px = (px', r)"
  shows "gw_inv (session_begin r s px')"
proof (cases "r = Connected")
  case True
  then show ?thesis
    using onConnect_cases [OF assms] gw_inv_store assms(2) by auto
next
  case False
  then show ?thesis
    using onConnect_cases [OF assms] session_over_inv assms(2) by auto
qed

lemma session_leaves_fields:
  "px_hub (session_leaves s px) = px_hub px" "px_phase (session_leaves s px) = (px_phase px)(s := Leaving)"
  "px_count (session_leaves s px) = px_count px - 1" "px_store (session_leaves s px) = px_store px"
  by (simp_all add: session_leaves_def)

lemma session_leaves_inv:
  assumes "gw_inv px" and "px_phase px s = Serving"
  shows "gw_inv (session_leaves s px)"
proof (rule gw_invI)
  let ?px = "session_leaves s px"
  note fs = session_leaves_fields [of s px]
  have sv: "serving ?px = serving px - {s}" "s \<in> serving px"
    using assms(2) by (auto simp: serving_def fs)
  have fin: "finite (serving px)" by (rule gw_invD(3) [OF assms(1)])
  then have "card (serving px) = Suc (card (serving px - {s}))" using sv(2) by (rule card.remove)
  then show "px_count ?px = of_nat (card (serving ?px))"
    using gw_invD(4) [OF assms(1)] by (simp add: fs sv(1))
  show "finite (serving ?px)" using fin by (simp add: sv(1))
  show "sess_ID r ?px = u" if "px_hub ?px u = Some r" for u r
    using gw_invD(1) [OF assms(1), of u r] that by (simp add: sess_ID_def fs)
  show "px_phase ?px r \<in> {Serving, Leaving}" if "px_hub ?px u = Some r" for u r
    using gw_invD(2) [OF assms(1), of u r] that by (simp add: fs)
  show "px_hub ?px u = Some r" if "open_session ?px u r" for u r
    using gw_invD(5) [OF assms(1), of u r] that by (simp add: open_session_def fs split: if_splits)
  show "px_phase ?px r = Ended" if "px_store ?px r = None" for r
    using gw_invD(6) [OF assms(1), of r] that assms(2) by (cases "r = s") (simp_all add: fs)
qed

lemma session_end_fields:
  "px_hub (session_end p s px) = px_hub (hub_Delete s px)"
  "px_phase (session_end p s px) = (px_phase px)(s := Ended)"
  "px_count (session_end p s px) = px_count px"
  "px_store (session_end p s px) = px_store (sess_Close s px)"
  by (auto simp: session_end_def onDisconnect_def hub_Delete_def sess_Close_def Let_def split: option.splits)

lemma session_end_inv:
  assumes "gw_inv px" and "px_phase px s = Leaving"
  shows "gw_inv (session_end p s px)"
proof (rule gw_invI)
  let ?px = "session_end p s px"
  note fs = session_end_fields [of p s px]
  note oc = only_closesD [OF only_closes_sess_Close [of px s]]
  have sv: "serving ?px = serving px" using assms(2) by (auto simp: serving_def fs)
  show "finite (serving ?px)" "px_count ?px = of_nat (card (serving ?px))"
    using gw_invD(3,4) [OF assms(1)] by (simp_all add: sv fs)
  have hub: "px_hub px u = Some r \<and> r \<noteq> s" if "px_hub ?px u = Some r" for u r
    using that gw_invD(1) [OF assms(1), of u s] by (auto simp: fs hub_Delete_def split: if_splits)
  show "sess_ID r ?px = u" if "px_hub ?px u = Some r" for u r
    using gw_invD(1) [OF assms(1), of u r] hub [OF that] oc(4) [of r] by (simp add: sess_ID_def fs)
  show "px_phase ?px r \<in> {Serving, Leaving}" if "px_hub ?px u = Some r" for u r
    using gw_invD(2) [OF assms(1), of u r] hub [OF that] by (simp add: fs)
  show "px_hub ?px u = Some r" if "open_session ?px u r" for u r
  proof -
    have rs: "r \<noteq> s" using that by (auto simp: open_session_def fs)
    then have "open_session (sess_Close s px) u r" using that by (simp add: open_session_def fs oc(2))
    then have "px_hub px u = Some r" by (intro gw_invD(5) [OF assms(1)] oc(6))
    then show ?thesis using rs by (auto simp: fs hub_Delete_def)
  qed
  show "px_phase ?px r = Ended" if "px_store ?px r = None" for r
    using gw_invD(6) [OF assms(1), of r] oc(5) [of r] that by (simp add: fs)
qed

lemma gw_accept_inv:
  assumes "gw_inv px" and "px_store px s = None"
  shows "gw_inv (accept_session submitted s sess px)"
proof -
  let ?px = "accept_session submitted s sess px"
  have px: "px_hub ?px = px_hub px" "px_count ?px = px_count px"
    "px_phase ?px = (if submitted then (px_phase px)(s := Connecting) else px_phase px)"
    "\<And>r. r \<noteq> s \<Longrightarrow> px_store ?px r = px_store px r" "px_store ?px s \<noteq> None"
    by (simp_all add: accept_session_def sess_Close_def Let_def)
  have e: "px_phase px s = Ended" using gw_invD(6) [OF assms(1)] assms(2) by simp
  then have nh: "px_hub px u \<noteq> Some s" for u using gw_invD(2) [OF assms(1), of u s] by auto
  have "serving ?px = serving px" using e by (auto simp: serving_def px(3))
  moreover have "open_session ?px u r \<longleftrightarrow> open_session px u r" for u r
    using e px(4) [of r] by (cases "r = s") (auto simp: open_session_def px(3))
  moreover have "sess_ID r ?px = u" if "px_hub px u = Some r" for u r
    using gw_invD(1) [OF assms(1) that] nh [of u] that px(4) [of r] by (cases "r = s") (simp_all add: sess_ID_def)
  moreover have "px_phase ?px r = Ended" if "px_store ?px r = None" for r
    using gw_invD(6) [OF assms(1), of r] px(3-5) that by (cases "r = s") auto
  ultimately show ?thesis
    using gw_invD(2-6) [OF assms(1)] nh e by (intro gw_invI) (auto simp: px(1,2,3))
qed

lemma proxy_Stop_inv: "gw_inv px \<Longrightarrow> proxy_Stop visit px = Ok px' \<Longrightarrow> gw_inv px'"
  using gw_inv_hub_Close only_closes_inv [OF _ only_closes_fields(5)]
  by (auto simp: proxy_Stop_def split: if_splits)

lemma gw_step_inv: "gw_step px px' \<Longrightarrow> gw_inv px \<Longrightarrow> gw_inv px'"
proof (induction rule: gw_step.induct)
  case (step_accept px s submitted sess) then show ?case using gw_accept_inv by blast
next
  case (step_connect px s i c p px' r) then show ?case using session_begin_inv by blast
next
  case (step_leave px s) then show ?case using session_leaves_inv by blast
next
  case (step_end px s p) then show ?case using session_end_inv by blast
next
  case (step_stop visit px px') then show ?case using proxy_Stop_inv by blast
qed (blast intro: only_closes_inv only_closes_steps only_closes_sess_Close only_closes_zombie)+

lemma gw_reach_inv: "gw_reach px \<Longrightarrow> gw_inv px"
proof (induction rule: gw_reach.induct)
  case (gw_init nodeID)
  show ?case by (simp add: gw_inv_def init_Proxy_def serving_def open_session_def)
next
  case (gw_moves px px') then show ?case using gw_step_inv by blast
next
  case (gw_event px ev) then show ?case by (blast intro: only_closes_inv only_closes_steps)
qed

section \<open>Cleanup jobs\<close>

text \<open>The job of a user is a timer of that user that has not returned.\<close>

definition jobs_inv :: "Proxy \<Rightarrow> bool" where
  "jobs_inv px \<longleftrightarrow> (\<forall>u t. px_jobs px u = Some t \<longrightarrow> px_timers px t \<in> {Some (TimerActive u), Some (TimerFired u)}) \<and>
     (\<forall>t. px_nextTimer px \<le> t \<longrightarrow> px_timers px t = None)"

definition same_jobs :: "Proxy \<Rightarrow> Proxy \<Rightarrow> bool" where
  "same_jobs px px' \<longleftrightarrow> px_jobs px' = px_jobs px \<and> px_timers px' = px_timers px \<and> px_nextTimer px' = px_nextTimer px \<and>
     px_state px' = px_state px"

lemma same_jobs_refl [simp]: "same_jobs px px"
  by (simp add: same_jobs_def)

lemma same_jobs_trans: "same_jobs a b \<Longrightarrow> same_jobs b c \<Longrightarrow> same_jobs a c"
  by (simp add: same_jobs_def)

lemma same_jobs_close [simp]: "same_jobs px (sess_Close s px)"
  by (simp add: same_jobs_def sess_Close_def split: option.splits)

lemma same_jobs_inv: "same_jobs px px' \<Longrightarrow> jobs_inv px' = jobs_inv px"
  by (simp add: same_jobs_def jobs_inv_def)

lemma same_jobs_steps:
  "same_jobs px (accept_session submitted s sess px)" "same_jobs px (session_leaves s px)" "same_jobs px (hub_Store s px)"
  "same_jobs px (fst (connectInit i c s px))" "same_jobs px (connectEvict s px)" "same_jobs px (fst (connectPublish p s px))"
  "same_jobs px (session_begin r s px)" "same_jobs px (hub_Delete s px)"
  by (auto simp: same_jobs_def accept_session_def session_leaves_def hub_Store_def connectInit_def connectEvict_def connectPublish_def
      session_begin_def hub_Delete_def sess_Close_def Let_def split: option.splits sum.splits connect_result.splits)

lemma same_jobs_zombie: "same_jobs px (removeZombie k now visit px)"
  unfolding removeZombie_def hub_Range_def
  by (rule map_range_inv [where P = "same_jobs px"]) (auto intro: same_jobs_trans split: option.splits)

lemma same_jobs_Stop:
  assumes "proxy_Stop visit px = Ok px'"
  shows "same_jobs px px'"
proof -
  have "same_jobs px (map_range (\<lambda>sessID s v. let v' = sess_Close s v in (v'\<lparr>px_hub := (px_hub v')(sessID := None)\<rparr>, True))
      visit (px_hub px) (px\<lparr>px_done := True, px_hubClosed := True\<rparr>))"
  proof (rule map_range_inv [where P = "same_jobs px"])
    fix k s v assume "same_jobs px v"
    then have "same_jobs px (sess_Close s v)" using same_jobs_trans same_jobs_close by blast
    then show "same_jobs px (fst (let v' = sess_Close s v in (v'\<lparr>px_hub := (px_hub v')(k := None)\<rparr>, True)))"
      by (simp add: Let_def same_jobs_def)
  qed (simp add: same_jobs_def)
  then show ?thesis using assms by (auto simp: proxy_Stop_def hub_Close_def same_jobs_def split: if_splits)
qed

lemma jobs_invD:
  assumes "jobs_inv px"
  shows "px_jobs px u = Some t \<Longrightarrow> px_timers px t = Some (TimerActive u) \<or> px_timers px t = Some (TimerFired u)"
    and "px_nextTimer px \<le> t \<Longrightarrow> px_timers px t = None" and "px_jobs px u = Some t \<Longrightarrow> px_jobs px v = Some t \<Longrightarrow> u = v"
    and "px_timers px t = Some (TimerFired v) \<Longrightarrow> px_jobs px u = Some t \<Longrightarrow> u = v"
proof -
  show J: "px_jobs px u = Some t \<Longrightarrow> px_timers px t = Some (TimerActive u) \<or> px_timers px t = Some (TimerFired u)" for u t
    using assms by (auto simp: jobs_inv_def)
  show "px_nextTimer px \<le> t \<Longrightarrow> px_timers px t = None" using assms by (simp add: jobs_inv_def)
  show "px_jobs px u = Some t \<Longrightarrow> px_jobs px v = Some t \<Longrightarrow> u = v" using J [of u t] J [of v t] by auto
  show "px_timers px t = Some (TimerFired v) \<Longrightarrow> px_jobs px u = Some t \<Longrightarrow> u = v" using J [of u t] by auto
qed

lemma jobs_invI:
  assumes "\<And>u t. px_jobs px u = Some t \<Longrightarrow> px_timers px t = Some (TimerActive u) \<or> px_timers px t = Some (TimerFired u)"
    and "\<And>t. px_nextTimer px \<le> t \<Longrightarrow> px_timers px t = None"
  shows "jobs_inv px"
  unfolding jobs_inv_def using assms by blast

lemma session_end_jobs:
  "px_jobs (session_end p s px) = (px_jobs px)(sess_ID s px \<mapsto> px_nextTimer px)"
  "px_timers (session_end p s px) = (px_timers px)(px_nextTimer px \<mapsto> TimerActive (sess_ID s px))"
  "px_nextTimer (session_end p s px) = Suc (px_nextTimer px)" "px_state (session_end p s px) = px_state px"
  by (auto simp: session_end_def onDisconnect_def hub_Delete_def sess_Close_def sess_ID_def Let_def split: option.splits)

lemma jobs_inv_steps:
  assumes "jobs_inv px"
  shows "connectCancelJob s px = Some px' \<Longrightarrow> jobs_inv px'" and "jobs_inv (timer_fires t px)" and "jobs_inv (timer_returns t px)"
    and "jobs_inv (session_end p s px)" and "jobs_inv (on_nodeDeleted ss inner n px)" and "jobs_inv (on_UserConnected ev px)"
proof -
  note D = jobs_invD [OF assms]
  show "jobs_inv px'" if c: "connectCancelJob s px = Some px'"
  proof (rule jobs_invI)
    show "px_timers px' k = Some (TimerActive u) \<or> px_timers px' k = Some (TimerFired u)" if "px_jobs px' u = Some k" for u k
      using c that D(1) [of u k] D(3) [of u k "sess_ID s px"]
      by (auto simp: connectCancelJob_def split: option.splits timer.splits if_splits)
  qed (use c D(2) in \<open>auto simp: connectCancelJob_def split: option.splits timer.splits\<close>)
  show "jobs_inv (timer_fires t px)"
  proof (rule jobs_invI)
    show "px_timers (timer_fires t px) k = Some (TimerActive u) \<or> px_timers (timer_fires t px) k = Some (TimerFired u)"
      if "px_jobs (timer_fires t px) u = Some k" for u k
      using that D(1) [of u k] by (auto simp: timer_fires_def Let_def split: option.splits timer.splits if_splits)
  qed (use D(2) in \<open>auto simp: timer_fires_def Let_def split: option.splits timer.splits\<close>)
  show "jobs_inv (timer_returns t px)"
  proof (rule jobs_invI)
    show "px_timers (timer_returns t px) k = Some (TimerActive u) \<or> px_timers (timer_returns t px) k = Some (TimerFired u)"
      if "px_jobs (timer_returns t px) u = Some k" for u k
      using that D(1) [of u k] D(4) [of k _ u] by (auto simp: timer_returns_def split: option.splits timer.splits if_splits)
  qed (use D(2) in \<open>auto simp: timer_returns_def split: option.splits timer.splits\<close>)
  show "jobs_inv (session_end p s px)"
  proof (rule jobs_invI)
    show "px_timers (session_end p s px) k = Some (TimerActive u) \<or> px_timers (session_end p s px) k = Some (TimerFired u)"
      if "px_jobs (session_end p s px) u = Some k" for u k
      using that D(1) [of u k] D(2) [of "px_nextTimer px"] by (auto simp: session_end_jobs split: if_splits)
  qed (use D(2) in \<open>simp add: session_end_jobs\<close>)
  show "jobs_inv (on_nodeDeleted ss inner n px)" using assms by (simp add: on_nodeDeleted_def jobs_inv_def)
  show "jobs_inv (on_UserConnected ev px)"
    using assms by (auto simp: on_UserConnected_def jobs_inv_def Let_def sess_Close_def split: option.splits)
qed

lemma onConnect_jobs:
  assumes "onConnect i c p s px = (px', r)"
  shows "px_state px' = px_state px \<and>
    (same_jobs px px' \<or> (\<exists>px1 px2. same_jobs px px1 \<and> connectCancelJob s px1 = Some px2 \<and> same_jobs px2 px'))"
proof -
  obtain px1 e where i: "connectInit i c s px = (px1, e)" by (cases "connectInit i c s px")
  have s1: "same_jobs px px1" using same_jobs_steps(4) [of px i c s] i by simp
  then have s2: "same_jobs px (connectEvict s px1)" using same_jobs_trans same_jobs_steps(5) by blast
  show ?thesis
  proof (cases e)
    case (Some err)
    then show ?thesis using assms i s1 by (auto simp: onConnect_def same_jobs_def)
  next
    case None
    show ?thesis
    proof (cases "connectCancelJob s (connectEvict s px1)")
      case n: None
      then show ?thesis using assms i None s2 by (auto simp: onConnect_def same_jobs_def)
    next
      case (Some px2)
      have "same_jobs px2 px'"
        using assms i None Some same_jobs_steps(6) [of px2 p s] same_jobs_trans [OF _ same_jobs_steps(3)]
        by (auto simp: onConnect_def split: prod.splits option.splits)
      moreover have "px_state px2 = px_state (connectEvict s px1)"
        using Some by (auto simp: connectCancelJob_def split: option.splits timer.splits)
      ultimately show ?thesis using s2 Some by (auto simp: same_jobs_def)
    qed
  qed
qed

lemma gw_step_jobs: "gw_step px px' \<Longrightarrow> jobs_inv px \<Longrightarrow> jobs_inv px'"
proof (induction rule: gw_step.induct)
  case (step_connect px s i c p px' r)
  have "jobs_inv px'"
    using onConnect_jobs [OF step_connect(2)] step_connect(3) jobs_inv_steps(1) same_jobs_inv by blast
  then show ?case using same_jobs_inv [OF same_jobs_steps(7)] by simp
qed (use same_jobs_inv [OF same_jobs_steps(1)] same_jobs_inv [OF same_jobs_steps(2)] same_jobs_inv [OF same_jobs_close]
    same_jobs_inv [OF same_jobs_zombie] same_jobs_inv [OF same_jobs_Stop] jobs_inv_steps in auto)

lemma gw_reach_jobs: "gw_reach px \<Longrightarrow> jobs_inv px"
proof (induction rule: gw_reach.induct)
  case (gw_init nodeID)
  show ?case by (simp add: jobs_inv_def init_Proxy_def)
qed (use gw_step_jobs jobs_inv_steps(6) in blast)+

text \<open>Any number of steps and events.\<close>

definition gw_next :: "Proxy \<Rightarrow> Proxy \<Rightarrow> bool" where
  "gw_next px px' \<longleftrightarrow> gw_step px px' \<or> (\<exists>ev. px' = on_UserConnected ev px)"

lemma blocked_step: "gw_step px px' \<Longrightarrow> gw_inv px \<Longrightarrow> px_phase px s = Blocked \<Longrightarrow> px_phase px' s = Blocked"
proof (induction rule: gw_step.induct)
  case (step_accept px q submitted sess)
  have "q \<noteq> s" using gw_invD(6) [OF step_accept(2,1)] step_accept(3) by auto
  then show ?case using step_accept(3) by (simp add: accept_session_def sess_Close_def Let_def)
next
  case (step_connect px q i c p px' r)
  have "px_phase px' = px_phase px"
    using onConnect_cases [OF step_connect(3,1,2)] by (cases "r = Connected") (auto simp: hub_Store_def)
  then show ?case using step_connect(1,4) by (auto simp: session_begin_def sess_Close_def split: connect_result.splits option.splits)
next
  case (step_stop visit px px')
  have "px_phase (map_range (\<lambda>sessID s v. let v' = sess_Close s v in (v'\<lparr>px_hub := (px_hub v')(sessID := None)\<rparr>, True))
      visit (px_hub px) (px\<lparr>px_done := True, px_hubClosed := True\<rparr>)) = px_phase px"
    by (rule map_range_inv [where P = "\<lambda>v. px_phase v = px_phase px"])
      (simp_all add: Let_def only_closesD(2) [OF only_closes_sess_Close])
  then show ?case using step_stop by (auto simp: proxy_Stop_def hub_Close_def split: if_splits)
qed (auto simp: session_leaves_fields session_end_fields only_closesD(2) [OF only_closes_steps(1)] only_closesD(2) [OF only_closes_steps(2)]
    only_closesD(2) [OF only_closes_steps(4)] only_closesD(2) [OF only_closes_sess_Close] only_closesD(2) [OF only_closes_zombie])

lemma blocked_forever:
  assumes "gw_next\<^sup>*\<^sup>* px px'" and "gw_reach px" and "px_phase px s = Blocked"
  shows "gw_reach px' \<and> px_phase px' s = Blocked"
  using assms(1)
proof (induction rule: rtranclp_induct)
  case (step y z)
  then show ?case
    using blocked_step [of y z s] gw_reach_inv [of y] only_closesD(2) [OF only_closes_steps(3)]
    by (auto simp: gw_next_def intro: gw_moves gw_event)
qed (use assms(2,3) in simp)

section \<open>Routes while a user is away\<close>

text \<open>
  What may happen between a disconnect and the next connect without touching the routes of a
  user: everything but a cleanup timer of the user that fires, the removal of a node, and
  the announcement of the user by another gateway.
\<close>

inductive spares :: "string \<Rightarrow> Proxy \<Rightarrow> Proxy \<Rightarrow> bool" for u where
  sp_accept: "px_store px s = None \<Longrightarrow> spares u px (accept_session submitted s sess px)"
| sp_connect: "px_phase px s = Connecting \<Longrightarrow> onConnect i c p s px = (px', r) \<Longrightarrow> spares u px (session_begin r s px')"
| sp_leave: "px_phase px s = Serving \<Longrightarrow> spares u px (session_leaves s px)"
| sp_end: "px_phase px s = Leaving \<Longrightarrow> spares u px (session_end p s px)"
| sp_fire: "px_timers px t \<noteq> Some (TimerActive u) \<Longrightarrow> spares u px (timer_fires t px)"
| sp_return: "spares u px (timer_returns t px)"
| sp_close: "spares u px (sess_Close s px)"
| sp_zombie: "spares u px (removeZombie k now visit px)"
| sp_stop: "proxy_Stop visit px = Ok px' \<Longrightarrow> spares u px px'"
| sp_event: "uc_UserID ev \<noteq> u \<or> uc_GatewayID ev = px_nodeID px \<Longrightarrow> spares u px (on_UserConnected ev px)"

lemma spares_next: "spares u px px' \<Longrightarrow> gw_next px px'"
  by (induction rule: spares.induct) (auto simp: gw_next_def intro: gw_step.intros)

lemma same_jobs_state: "same_jobs px px' \<Longrightarrow> px_state px' = px_state px"
  by (simp add: same_jobs_def)

lemma timer_fires_routes:
  "px_timers px t \<noteq> Some (TimerActive u) \<or> hub_Load u px \<noteq> None \<Longrightarrow>
   st_Find (px_state (timer_fires t px)) u svc = st_Find (px_state px) u svc"
  by (auto simp: timer_fires_def Let_def hub_Load_def st.find_clean_session split: option.splits timer.splits)

lemma spares_routes: "spares u px px' \<Longrightarrow> st_Find (px_state px') u svc = st_Find (px_state px) u svc"
proof (induction rule: spares.induct)
  case (sp_connect px s i c p px' r)
  then show ?case using onConnect_jobs [OF sp_connect(2)] same_jobs_state [OF same_jobs_steps(7)] by simp
next
  case (sp_fire px t)
  then show ?case by (simp add: timer_fires_routes)
next
  case (sp_return px t)
  show ?case by (simp add: timer_returns_def split: option.splits timer.splits)
next
  case (sp_event ev px)
  then show ?case
    by (auto simp: on_UserConnected_def Let_def sess_Close_def st.find_clean_session split: option.splits)
qed (simp_all add: session_end_jobs(4) same_jobs_state [OF same_jobs_steps(1)] same_jobs_state [OF same_jobs_steps(2)]
    same_jobs_state [OF same_jobs_close] same_jobs_state [OF same_jobs_zombie] same_jobs_state [OF same_jobs_Stop])

lemma spares_routes_trans: "(spares u)\<^sup>*\<^sup>* px px' \<Longrightarrow> st_Find (px_state px') u svc = st_Find (px_state px) u svc"
  by (induction rule: rtranclp_induct) (simp_all add: spares_routes)

section \<open>Properties\<close>

text \<open>A run in which session 0 of a user is accepted and connected, for the witnesses.\<close>

definition demo_gsession :: gsession where
  "demo_gsession = \<lparr>gs_Type = ''tcp'', gs_ID = ''tmp'', gs_md = Map.empty, gs_RemoteAddr = ''10.0.0.1:99'',
     gs_LastRWTime = 5, gs_closed = False\<rparr>"

definition demo_accept :: "nat \<Rightarrow> Proxy \<Rightarrow> Proxy" where
  "demo_accept s px = accept_session True s demo_gsession px"

definition demo_connect :: "nat \<Rightarrow> Proxy \<Rightarrow> Proxy" where
  "demo_connect s px =
     (case onConnect (Inr (''u'', None)) None None s px of (px', r) \<Rightarrow> session_begin r s px')"

definition demo_px :: Proxy where
  "demo_px = demo_connect 0 (demo_accept 0 (init_Proxy ''gw''))"

lemma demo_steps_reach:
  "gw_reach px \<Longrightarrow> px_store px s = None \<Longrightarrow> gw_reach (demo_accept s px)"
  "gw_reach px \<Longrightarrow> px_phase px s = Connecting \<Longrightarrow> gw_reach (demo_connect s px)"
  unfolding demo_accept_def demo_connect_def
  by (auto intro: gw_accept gw_connect split: prod.split)

lemmas demo_run_simps = demo_px_def demo_connect_def demo_accept_def accept_session_def Let_def init_Proxy_def demo_gsession_def
  onConnect_def connectInit_def connectEvict_def connectCancelJob_def connectPublish_def session_begin_def
  hub_Store_def hub_Load_def sess_ID_def sess_Close_def

lemma demo_px_reach: "gw_reach demo_px"
  unfolding demo_px_def
  by (intro demo_steps_reach gw_init) (simp_all add: demo_accept_def accept_session_def Let_def init_Proxy_def)

lemma demo_px_open: "open_session demo_px ''u'' 0" "px_hub demo_px ''u'' = Some 0" "px_nodeID demo_px = ''gw''"
  "px_store demo_px 0 = Some (demo_gsession\<lparr>gs_ID := ''u''\<rparr>)"
  by (simp_all add: open_session_def demo_run_simps)

lemma open_session_unique:
  assumes "gw_reach px"
  shows "open_session px u s \<Longrightarrow> hub_Load u px = Some s"
    and "open_session px u s \<Longrightarrow> open_session px u r \<Longrightarrow> r = s"
    and "hub_Load u px = Some s \<Longrightarrow> sess_ID s px = u"
proof -
  note inv = gw_invD [OF gw_reach_inv [OF assms]]
  show "open_session px u s \<Longrightarrow> hub_Load u px = Some s" by (simp add: hub_Load_def inv(5))
  show "open_session px u s \<Longrightarrow> open_session px u r \<Longrightarrow> r = s" using inv(5) [of u s] inv(5) [of u r] by simp
  show "hub_Load u px = Some s \<Longrightarrow> sess_ID s px = u" by (simp add: hub_Load_def inv(1))
qed

text \<open>
  C3. One connection per user: in every run in which connects do not overlap, a user has at
  most one session that is served and open, the hub maps the user to exactly that session,
  and every entry of the hub is a session of the user it is stored under.
\<close>

theorem one_open_session:
  assumes "gw_reach px"
  shows "(open_session px u s \<longrightarrow> hub_Load u px = Some s \<and> (\<forall>r. open_session px u r \<longrightarrow> r = s)) \<and>
    (hub_Load u px = Some s \<longrightarrow> sess_ID s px = u)"
  using open_session_unique [OF assms] by blast

theorem one_open_session_witness:
  "gw_reach demo_px \<and> open_session demo_px ''u'' 0 \<and> hub_Load ''u'' demo_px = Some 0 \<and> sess_ID 0 demo_px = ''u''"
  using demo_px_reach demo_px_open(1) one_open_session [OF demo_px_reach, of "''u''" 0] by blast

text \<open>
  The users in the hub are as many as the sessions it maps them to; where every served
  session is open and none is on its way out, these are the served sessions.
\<close>

lemma hub_serving:
  assumes "gw_inv px" and "\<And>s. px_phase px s \<noteq> Leaving"
    and "\<And>s sess. px_phase px s = Serving \<Longrightarrow> px_store px s = Some sess \<Longrightarrow> \<not> gs_closed sess"
  shows "card (dom (px_hub px)) = card (serving px)"
proof -
  note inv = gw_invD [OF assms(1)]
  have "inj_on (px_hub px) (dom (px_hub px))"
    by (rule inj_onI) (metis domD inv(1) option.inject)
  then have "card (dom (px_hub px)) = card (px_hub px ` dom (px_hub px))" by (rule card_image [symmetric])
  moreover have "px_hub px ` dom (px_hub px) = Some ` serving px"
  proof (intro equalityI subsetI)
    fix x assume "x \<in> px_hub px ` dom (px_hub px)"
    then obtain u s where "x = Some s" "px_hub px u = Some s" by auto
    then show "x \<in> Some ` serving px" using inv(2) [of u s] assms(2) [of s] by (auto simp: serving_def)
  next
    fix x assume "x \<in> Some ` serving px"
    then obtain s where s: "x = Some s" "px_phase px s = Serving" by (auto simp: serving_def)
    then obtain sess where "px_store px s = Some sess" using inv(6) [of s] by (cases "px_store px s") auto
    then have "open_session px (gs_ID sess) s" using s(2) assms(3) by (simp add: open_session_def)
    then have "px_hub px (gs_ID sess) = Some s" by (rule inv(5))
    then show "x \<in> px_hub px ` dom (px_hub px)" using s(1) by (metis domI imageI)
  qed
  ultimately show ?thesis by (simp add: card_image)
qed

lemma sint_of_nat32: "n < 2 ^ 31 \<Longrightarrow> sint (of_nat n :: 32 word) = int n"
  by (simp add: signed_of_nat signed_take_bit_int_eq_self)

text \<open>
  C30. The 32-bit session counter that the management service reports is exact below \<open>2 ^ 31\<close>
  sessions: it is the number of sessions whose request loop is running, and whenever these are
  all open and none is being left, it is the number of users in the hub.
\<close>

theorem session_count_exact:
  assumes "gw_reach px" and "card (serving px) < 2 ^ 31"
  shows "proxy_SessionCount px = int (card (serving px)) \<and> finite (serving px) \<and>
    ((\<forall>s. px_phase px s \<noteq> Leaving) \<longrightarrow>
     (\<forall>s sess. px_phase px s = Serving \<longrightarrow> px_store px s = Some sess \<longrightarrow> \<not> gs_closed sess) \<longrightarrow>
     proxy_SessionCount px = int (card (dom (px_hub px))))"
proof -
  note inv = gw_reach_inv [OF assms(1)]
  have "proxy_SessionCount px = int (card (serving px))"
    using gw_invD(4) [OF inv] sint_of_nat32 [OF assms(2)] by (simp add: proxy_SessionCount_def)
  then show ?thesis using gw_invD(3) [OF inv] hub_serving [OF inv] by auto
qed

theorem session_count_exact_witness:
  "gw_reach demo_px \<and> proxy_SessionCount demo_px = 1 \<and> card (dom (px_hub demo_px)) = 1"
proof -
  have "serving demo_px = {0}" "px_hub demo_px = [''u'' \<mapsto> 0]" "px_phase demo_px = (\<lambda>_. Ended)(0 := Serving)"
    by (auto simp: serving_def demo_run_simps fun_eq_iff)
  then show ?thesis using session_count_exact [OF demo_px_reach] demo_px_reach demo_px_open(4) by (simp add: demo_gsession_def)
qed

text \<open>
  The stages of two connects of the same user, one stage of each at a time: both look for a
  previous session before either is stored.
\<close>

definition connect_interleaved :: "string \<Rightarrow> nat \<Rightarrow> nat \<Rightarrow> Proxy \<Rightarrow> Proxy option" where
  "connect_interleaved u s1 s2 px =
     (let v = fst (connectInit (Inr (u, None)) None s1 px);
          v = fst (connectInit (Inr (u, None)) None s2 v);
          v = connectEvict s2 (connectEvict s1 v)
      in case connectCancelJob s1 v of
           None \<Rightarrow> None
         | Some v \<Rightarrow>
             (case connectCancelJob s2 v of
                None \<Rightarrow> None
              | Some v \<Rightarrow>
                  let v = fst (connectPublish None s2 (fst (connectPublish None s1 v)));
                      v = session_begin Connected s1 (hub_Store s1 v)
                  in Some (session_begin Connected s2 (hub_Store s2 v))))"

text \<open>
  Two connects of one user that overlap are both accepted: each of them finds no previous
  session to close, so both sessions are served and open, and the hub knows only the one
  stored last.
\<close>

theorem connect_race:
  assumes "s1 \<noteq> s2" and "u \<noteq> []" and "px_hub px u = None" and "px_jobs px u = None"
    and "px_store px s1 = Some a" and "\<not> gs_closed a" and "px_store px s2 = Some b" and "\<not> gs_closed b"
  shows "\<exists>px'. connect_interleaved u s1 s2 px = Some px' \<and>
    open_session px' u s1 \<and> open_session px' u s2 \<and> hub_Load u px' = Some s2"
  using assms
  by (simp add: connect_interleaved_def Let_def connectInit_def connectEvict_def connectCancelJob_def
      connectPublish_def session_begin_def hub_Store_def hub_Load_def sess_ID_def open_session_def)

theorem connect_race_witness:
  "\<exists>px'. connect_interleaved ''u'' 0 1 (demo_accept 1 (demo_accept 0 (init_Proxy ''gw''))) = Some px' \<and>
    open_session px' ''u'' 0 \<and> open_session px' ''u'' 1 \<and> hub_Load ''u'' px' = Some 1"
  by (rule connect_race [where a = demo_gsession and b = demo_gsession]) (simp_all add: demo_accept_def accept_session_def Let_def init_Proxy_def demo_gsession_def)

lemma connectInit_accepted:
  assumes "connectInit i c s px = (px1, None)"
  shows "px_jobs px1 = px_jobs px" and "px_timers px1 = px_timers px" and "px_state px1 = px_state px"
    and "px_hub px1 = px_hub px"
  using assms by (auto simp: connectInit_def Let_def split: sum.splits if_splits option.splits)

lemma connectEvict_keeps:
  "px_jobs (connectEvict s px) = px_jobs px" "px_timers (connectEvict s px) = px_timers px"
  "px_state (connectEvict s px) = px_state px" "sess_ID s (connectEvict s px) = sess_ID s px"
  by (auto simp: connectEvict_def sess_Close_def sess_ID_def split: option.splits)

text \<open>The stages of a connect that succeeds.\<close>

lemma onConnect_Connected:
  assumes "onConnect i c p s px = (px', Connected)"
  obtains u md px1 px2 where "i = Inr (u, md)" and "connectInit i c s px = (px1, None)"
    and "connectCancelJob s (connectEvict s px1) = Some px2" and "p = None" and "px' = hub_Store s (fst (connectPublish None s px2))"
    and "sess_ID s px2 = sess_ID s px1" and "sess_ID s px' = sess_ID s px1"
proof -
  obtain px1 where i: "connectInit i c s px = (px1, None)"
    using assms by (auto simp: onConnect_def split: prod.splits option.splits)
  then obtain u md where a: "i = Inr (u, md)" by (auto simp: connectInit_def split: sum.splits)
  obtain px2 where c: "connectCancelJob s (connectEvict s px1) = Some px2"
    and px': "px' = hub_Store s (fst (connectPublish p s px2))" and p: "p = None"
    using assms i by (auto simp: onConnect_def connectPublish_def split: prod.splits option.splits)
  have "sess_ID s px2 = sess_ID s px1" "sess_ID s px' = sess_ID s px1"
    using c px' connectEvict_keeps(4) [of s px1]
    by (auto simp: hub_Store_def connectPublish_def connectCancelJob_def sess_ID_def split: option.splits timer.splits)
  then show thesis using that a i c px' p by simp
qed

text \<open>A connected session is open under the user's id, and the connect has been announced.\<close>

lemma connected_user:
  assumes "gw_inv px" and "px_phase px s = Connecting" and "px_store px s = Some sess" and "\<not> gs_closed sess"
    and "onConnect (Inr (u, md)) c p s px = (px', Connected)"
  shows "open_session (session_begin Connected s px') u s" and "px_nodeID px' = px_nodeID px"
    and "\<exists>ev. px_events px' = px_events px @ [EvConnected ev] \<and> uc_GatewayID ev = px_nodeID px \<and> uc_UserID ev = u"
proof -
  obtain px1 px2 where i: "connectInit (Inr (u, md)) c s px = (px1, None)"
    and c: "connectCancelJob s (connectEvict s px1) = Some px2" and px': "px' = hub_Store s (fst (connectPublish None s px2))"
    and ids: "sess_ID s px2 = sess_ID s px1" using assms(5) by (elim onConnect_Connected) auto
  obtain sess1 where s1: "px_store px1 s = Some sess1" "gs_ID sess1 = u" "\<not> gs_closed sess1" and px1: "px_hub px1 = px_hub px"
      "px_nodeID px1 = px_nodeID px" "px_events px1 = px_events px"
    using i assms(3,4) by (auto simp: connectInit_def Let_def split: if_splits)
  have "px_hub px1 u \<noteq> Some s" using gw_invD(2) [OF assms(1), of u s] assms(2) px1(1) by auto
  then have e: "px_store (connectEvict s px1) s = Some sess1" "px_nodeID (connectEvict s px1) = px_nodeID px"
      "px_events (connectEvict s px1) = px_events px"
    using s1 px1(2,3) by (auto simp: connectEvict_def sess_ID_def hub_Load_def sess_Close_def split: option.splits)
  then have px2: "px_store px2 s = Some sess1" "px_nodeID px2 = px_nodeID px" "px_events px2 = px_events px"
    using c by (auto simp: connectCancelJob_def split: option.splits timer.splits)
  then show "open_session (session_begin Connected s px') u s" "px_nodeID px' = px_nodeID px"
    "\<exists>ev. px_events px' = px_events px @ [EvConnected ev] \<and> uc_GatewayID ev = px_nodeID px \<and> uc_UserID ev = u"
    using px' s1 by (simp_all add: open_session_def session_begin_def hub_Store_def connectPublish_def sess_ID_def)
qed

text \<open>The user of \<open>demo_px\<close> leaves, and its cleanup timer has fired but not yet returned.\<close>

definition demo_left :: Proxy where
  "demo_left = session_end None 0 (session_leaves 0 demo_px)"

lemmas demo_left_simps = demo_left_def session_end_def session_leaves_def onDisconnect_def hub_Delete_def
  sess_RemoteAddr_def Let_def


lemma demo_left_reach: "gw_reach demo_left"
  unfolding demo_left_def
  by (intro gw_end gw_leave demo_px_reach) (use demo_px_open(1) in \<open>simp_all add: session_leaves_def open_session_def\<close>)




text \<open>The user of \<open>demo_px\<close> has a route.\<close>

definition demo_routed :: Proxy where
  "demo_routed = demo_px\<lparr>px_state := st_Store ''u'' 7 (ULID 1 0) (px_state demo_px)\<rparr>"


text \<open>
  The cleanup function does not check that its timer is the user's current job: a timer
  of an earlier session of the user that is still active cleans the user's routes as soon
  as it fires while the user is away, however short that is, and then drops the job of the
  later timer.
\<close>

theorem stale_timer_cleans:
  assumes "px_timers px t = Some (TimerActive u)" and "px_jobs px u = Some t'" and "t' \<noteq> t"
    and "px_timers px t' = Some (TimerActive u)" and "hub_Load u px = None"
  shows "st_Find (px_state (timer_fires t px)) u svc = None \<and>
    px_timers (timer_returns t (timer_fires t px)) t' = Some (TimerActive u) \<and>
    px_jobs (timer_returns t (timer_fires t px)) u = None"
  using assms by (simp add: timer_fires_def timer_returns_def Let_def hub_Load_def st.find_clean_session)

text \<open>Session 1 of the user evicts session 0; session 0 ends, then session 1.\<close>

definition demo_evicted :: Proxy where
  "demo_evicted = session_end None 1 (session_leaves 1
     (session_end None 0 (session_leaves 0 (demo_connect 1 (demo_accept 1 demo_px)))))"

theorem stale_timer_cleans_witness:
  "gw_reach demo_evicted \<and> px_jobs demo_evicted ''u'' = Some 1 \<and>
   st_Find (px_state (timer_fires 0 demo_evicted)) ''u'' 7 = None \<and>
   px_jobs (timer_returns 0 (timer_fires 0 demo_evicted)) ''u'' = None"
proof -
  have "gw_reach demo_evicted"
    unfolding demo_evicted_def
    by (intro gw_end gw_leave demo_steps_reach demo_px_reach)
      (simp_all add: demo_left_simps demo_run_simps)
  moreover have j: "px_jobs demo_evicted ''u'' = Some 1" "px_timers demo_evicted 0 = Some (TimerActive ''u'')"
    "px_timers demo_evicted 1 = Some (TimerActive ''u'')" "hub_Load ''u'' demo_evicted = None"
    by (simp_all add: demo_evicted_def demo_left_simps demo_run_simps)
  moreover have "(1::nat) \<noteq> 0" by simp
  ultimately show ?thesis
    using stale_timer_cleans [OF j(2) j(1) _ j(3,4), of 7] by simp
qed

lemma open_session_state [simp]: "open_session (px\<lparr>px_state := x\<rparr>) u s = open_session px u s"
  by (simp add: open_session_def)

lemma open_session_sess_Close:
  "sess_ID r px \<noteq> u \<Longrightarrow> open_session (sess_Close r px) u s = open_session px u s"
  by (cases "px_store px r"; cases "r = s") (simp_all add: sess_Close_def open_session_def sess_ID_def)

lemma on_UserConnected_closes:
  assumes "gw_inv px" and "uc_GatewayID ev \<noteq> px_nodeID px"
  shows "\<not> open_session (on_UserConnected ev px) (uc_UserID ev) s"
proof
  assume o: "open_session (on_UserConnected ev px) (uc_UserID ev) s"
  then have "open_session px (uc_UserID ev) s" by (rule only_closesD(6) [OF only_closes_steps(3)])
  then have "hub_Load (uc_UserID ev) px = Some s" by (simp add: hub_Load_def gw_invD(5) [OF assms(1)])
  then show False
    using assms(2) o sess_Close_not_open by (simp add: on_UserConnected_def Let_def)
qed

lemma on_UserConnected_facts:
  assumes "gw_reach px"
  shows "uc_GatewayID ev = px_nodeID px \<Longrightarrow> on_UserConnected ev px = px"
    and "uc_GatewayID ev \<noteq> px_nodeID px \<Longrightarrow> \<not> open_session (on_UserConnected ev px) (uc_UserID ev) s"
    and "uc_GatewayID ev \<noteq> px_nodeID px \<Longrightarrow> st_Find (px_state (on_UserConnected ev px)) u svc =
      (if u = uc_UserID ev then None else st_Find (px_state px) u svc)"
    and "u \<noteq> uc_UserID ev \<Longrightarrow> open_session (on_UserConnected ev px) u s = open_session px u s"
proof -
  note inv = gw_invD [OF gw_reach_inv [OF assms]]
  show "uc_GatewayID ev = px_nodeID px \<Longrightarrow> on_UserConnected ev px = px" by (simp add: on_UserConnected_def)
  have **: "hub_Load (uc_UserID ev) px = Some r \<Longrightarrow> sess_ID r px = uc_UserID ev" for r
    by (simp add: hub_Load_def inv(1))
  show "uc_GatewayID ev \<noteq> px_nodeID px \<Longrightarrow> \<not> open_session (on_UserConnected ev px) (uc_UserID ev) s"
    by (rule on_UserConnected_closes [OF gw_reach_inv [OF assms]])
  show "st_Find (px_state (on_UserConnected ev px)) u svc =
      (if u = uc_UserID ev then None else st_Find (px_state px) u svc)" if "uc_GatewayID ev \<noteq> px_nodeID px"
    using that by (auto simp: on_UserConnected_def Let_def sess_Close_def st.find_clean_session split: option.splits)
  show "open_session (on_UserConnected ev px) u s = open_session px u s" if "u \<noteq> uc_UserID ev"
    using that ** open_session_sess_Close
    by (cases "hub_Load (uc_UserID ev) px") (simp_all add: on_UserConnected_def Let_def)
qed

text \<open>
  One gateway per user: when another gateway announces that a user has connected to it,
  this gateway closes the user's session and forgets all of the user's routes, and neither
  closes another session nor touches a route of another user; its own announcements change
  nothing.
\<close>

theorem elsewhere_connected:
  assumes "gw_reach px"
  shows "if uc_GatewayID ev = px_nodeID px then on_UserConnected ev px = px
    else (\<forall>s. \<not> open_session (on_UserConnected ev px) (uc_UserID ev) s) \<and>
      (\<forall>u svc. st_Find (px_state (on_UserConnected ev px)) u svc =
        (if u = uc_UserID ev then None else st_Find (px_state px) u svc)) \<and>
      (\<forall>u s. u \<noteq> uc_UserID ev \<longrightarrow> open_session (on_UserConnected ev px) u s = open_session px u s)"
  using on_UserConnected_facts [OF assms] by simp

theorem elsewhere_connected_witness:
  "gw_reach demo_px \<and> open_session demo_px ''u'' 0 \<and>
   \<not> open_session (on_UserConnected \<lparr>uc_GatewayID = ''gw2'', uc_UserID = ''u'', uc_RemoteAddr = [],
      uc_Metadata = Map.empty\<rparr> demo_px) ''u'' 0"
  using elsewhere_connected [OF demo_px_reach, of "\<lparr>uc_GatewayID = ''gw2'', uc_UserID = ''u'',
      uc_RemoteAddr = [], uc_Metadata = Map.empty\<rparr>"] demo_px_reach demo_px_open by simp

lemma zombie_loop:
  assumes "\<And>u s. hub u = Some s \<Longrightarrow> s \<in> dom (px_store px)"
  shows "px_store (map_range (\<lambda>_ s v. case px_store v s of
      Some sess \<Rightarrow> if now - gs_LastRWTime sess > k then (sess_Close s v, True) else (v, True)
    | None \<Rightarrow> (v, True)) visit hub px) r =
    map_option (\<lambda>sess. if (\<exists>u\<in>set visit. hub u = Some r) \<and> now - gs_LastRWTime sess > k
      then sess\<lparr>gs_closed := True\<rparr> else sess) (px_store px r)"
  using assms
proof (induction visit arbitrary: px)
  case Nil
  then show ?case by (simp add: option.map_ident)
next
  case (Cons u visit)
  show ?case
  proof (cases "hub u")
    case None
    then show ?thesis using Cons by simp
  next
    case (Some s)
    obtain sess where s: "px_store px s = Some sess" using Cons.prems [OF Some] by auto
    let ?px = "if now - gs_LastRWTime sess > k then sess_Close s px else px"
    have d: "dom (px_store ?px) = dom (px_store px)" using s by (auto simp: sess_Close_def)
    have px: "px_store ?px r = map_option (\<lambda>x. if s = r \<and> now - gs_LastRWTime x > k
        then x\<lparr>gs_closed := True\<rparr> else x) (px_store px r)"
      using s by (auto simp: sess_Close_def option.map_ident)
    have "px_store (map_range (\<lambda>_ s v. case px_store v s of
        Some sess \<Rightarrow> if now - gs_LastRWTime sess > k then (sess_Close s v, True) else (v, True)
      | None \<Rightarrow> (v, True)) (u # visit) hub px) r =
      px_store (map_range (\<lambda>_ s v. case px_store v s of
        Some sess \<Rightarrow> if now - gs_LastRWTime sess > k then (sess_Close s v, True) else (v, True)
      | None \<Rightarrow> (v, True)) visit hub ?px) r"
      using Some s by simp
    also have "\<dots> = map_option (\<lambda>sess. if (\<exists>u\<in>set visit. hub u = Some r) \<and> now - gs_LastRWTime sess > k
      then sess\<lparr>gs_closed := True\<rparr> else sess) (px_store ?px r)"
      using Cons.prems d by (intro Cons.IH) auto
    also have "\<dots> = map_option (\<lambda>sess. if (\<exists>u\<in>set (u # visit). hub u = Some r) \<and> now - gs_LastRWTime sess > k
      then sess\<lparr>gs_closed := True\<rparr> else sess) (px_store px r)"
      unfolding px using Some by (cases "px_store px r") auto
    finally show ?thesis .
  qed
qed

text \<open>
  C31. The heartbeat check closes exactly the sessions in the hub that have been idle for
  longer than the keepalive interval, and leaves every other session as it is.
\<close>

theorem removeZombie_exact:
  assumes "gw_reach px" and "enumerates visit (px_hub px)" and "px_store px s = Some sess"
  shows "px_store (removeZombie keepalive now visit px) s =
    Some (if hub_Load (gs_ID sess) px = Some s \<and> now - gs_LastRWTime sess > keepalive
          then sess\<lparr>gs_closed := True\<rparr> else sess)"
proof -
  note inv = gw_invD [OF gw_reach_inv [OF assms(1)]]
  have "r \<in> dom (px_store px)" if "px_hub px u = Some r" for u r
    using inv(2) [OF that] inv(6) [of r] by (cases "px_store px r") auto
  moreover have "(\<exists>u\<in>set visit. px_hub px u = Some s) \<longleftrightarrow> hub_Load (gs_ID sess) px = Some s"
    using assms(2,3) inv(1) [of _ s] by (auto simp: enumerates_def hub_Load_def sess_ID_def)
  ultimately show ?thesis
    using assms(3) by (simp add: removeZombie_def hub_Range_def zombie_loop)
qed

theorem removeZombie_exact_witness:
  "px_store (removeZombie 10 16 [''u''] demo_px) 0 = Some (demo_gsession\<lparr>gs_ID := ''u'', gs_closed := True\<rparr>) \<and>
   px_store (removeZombie 10 15 [''u''] demo_px) 0 = Some (demo_gsession\<lparr>gs_ID := ''u''\<rparr>)"
proof -
  have e: "enumerates [''u''] (px_hub demo_px)" by (auto simp: enumerates_def demo_run_simps)
  show ?thesis
    using removeZombie_exact [OF demo_px_reach e demo_px_open(4), of 10 16]
      removeZombie_exact [OF demo_px_reach e demo_px_open(4), of 10 15] demo_px_open(2)
    by (simp add: hub_Load_def demo_gsession_def)
qed

text \<open>
  C17. Requests of one stream of a session are handled strictly in the order the session
  received them, one at a time, as long as the ticker only closes workers that are done:
  what was handled of a stream is always a prefix of it with at most the last request still
  running, and when nothing is pending every request of the stream was handled.
\<close>

theorem request_stream_order:
  assumes "sw_run req_Stream req_chan_cap req_idle reqs w"
  shows "(\<exists>dn rest. stream_of req_Stream s reqs = dn @ rest \<and>
      (log_of req_Stream s w = script dn \<or>
       (\<exists>m rest'. rest = m # rest' \<and> log_of req_Stream s w = script dn @ [Enter m]))) \<and>
    ((\<forall>g. drained w g) \<longrightarrow> log_of req_Stream s w = script (stream_of req_Stream s reqs))"
  using reqs.in_order [OF assms] reqs.nothing_lost [OF assms] by blast

definition demo_stream_req :: Request where
  "demo_stream_req = \<lparr>req_Id = 1, req_ServiceCode = 7, req_Method = ''Say'', req_Data = [], req_NodeId = [],
     req_NoReply = False, req_Stream = ''s''\<rparr>"

theorem request_stream_order_witness:
  "\<exists>w. sw_run req_Stream req_chan_cap req_idle [demo_stream_req] w \<and>
     (\<exists>dn rest. stream_of req_Stream ''s'' [demo_stream_req] = dn @ rest \<and>
      (log_of req_Stream ''s'' w = script dn \<or>
       (\<exists>m rest'. rest = m # rest' \<and> log_of req_Stream ''s'' w = script dn @ [Enter m])))"
proof -
  obtain w where "sw_recv req_Stream req_chan_cap 0 demo_stream_req sw_init = Some w"
    by (simp add: sw_recv_def sw_worker_def sw_init_def req_chan_cap_def)
  then have run: "sw_run req_Stream req_chan_cap req_idle ([] @ [demo_stream_req]) w"
    by (rule run_recv [OF run_init])
  from request_stream_order [OF run, of "''s''"] have
    "\<exists>dn rest. stream_of req_Stream ''s'' ([] @ [demo_stream_req]) = dn @ rest \<and>
      (log_of req_Stream ''s'' w = script dn \<or>
       (\<exists>m rest'. rest = m # rest' \<and> log_of req_Stream ''s'' w = script dn @ [Enter m]))"
    by (rule conjunct1)
  with run show ?thesis unfolding append_Nil by blast
qed

end
