(* ===== verification/Gateway_Service.thy ===== *)
theory Gateway_Service
  imports Gateway_Lifecycle
begin

text \<open>
  The management service of a gateway (\<open>src/component/gateway/grpc.go\<close>), which other nodes
  call to look at sessions, close them, push replies and manage stateful routes. It works on
  the hub, the counter and the route table of the proxy. \<open>ulid.Parse\<close> and the writing of a
  reply to a session's connection are arguments.
\<close>

section \<open>Operations\<close>

definition IsSessionExist :: "string \<Rightarrow> Proxy \<Rightarrow> bool" where
  "IsSessionExist sessionId px = (hub_Load sessionId px \<noteq> None)"

record nh_Session =
  ns_SessionId :: string
  ns_RemoteAddr :: string
  ns_Type :: string
  ns_Metadata :: "(string \<times> string list) list"

text \<open>\<open>lo.MapToSlice\<close> visits the metadata in the order \<open>keys\<close>.\<close>

definition nh_Session_of :: "string list \<Rightarrow> gsession \<Rightarrow> nh_Session" where
  "nh_Session_of keys sess = \<lparr>ns_SessionId = gs_ID sess, ns_RemoteAddr = gs_RemoteAddr sess,
     ns_Type = gs_Type sess,
     ns_Metadata = List.map_filter (\<lambda>k. map_option (Pair k) (gs_md sess k)) keys\<rparr>"

text \<open>The range stops at the first failed \<open>Send\<close>, whose error is returned.\<close>

definition ListSessions ::
  "(nh_Session \<Rightarrow> go_error option) \<Rightarrow> (nat \<Rightarrow> string list) \<Rightarrow> string list \<Rightarrow> Proxy \<Rightarrow>
   nh_Session list \<times> go_error option" where
  "ListSessions send keys visit px =
     hub_Range (\<lambda>s (sent, err).
       case px_store px s of
         None \<Rightarrow> ((sent, err), True)
       | Some sess \<Rightarrow>
           (let m = nh_Session_of (keys s) sess
            in case send m of
                 None \<Rightarrow> ((sent @ [m], None), True)
               | Some e \<Rightarrow> ((sent, Some e), False))) visit (px_hub px) ([], None)"

definition gw_SessionCount :: "Proxy \<Rightarrow> int" where
  "gw_SessionCount px = proxy_SessionCount px"

text \<open>\<open>closeErr\<close> is what closing the connection of the session answers.\<close>

definition CloseSession :: "go_error option \<Rightarrow> string \<Rightarrow> Proxy \<Rightarrow> Proxy \<times> (go_error + bool)" where
  "CloseSession closeErr sessionId px =
     (case hub_Load sessionId px of
        Some s \<Rightarrow> (sess_Close s px, case closeErr of Some err \<Rightarrow> Inl err | None \<Rightarrow> Inr True)
      | None \<Rightarrow> (px, Inr False))"

definition SetServiceRoute ::
  "(string \<Rightarrow> go_error + ulid) \<Rightarrow> string \<Rightarrow> int \<Rightarrow> string \<Rightarrow> Proxy \<Rightarrow> Proxy \<times> go_error option" where
  "SetServiceRoute ulid_Parse sessionId serviceCode nodeId px =
     (case hub_Load sessionId px of
        None \<Rightarrow> (px, None)
      | Some _ \<Rightarrow>
          (case ulid_Parse nodeId of
             Inl err \<Rightarrow> (px, Some (ErrStatus codes_InvalidArgument (''invalid node id, '' @ err_text err)))
           | Inr nodeID \<Rightarrow> (px\<lparr>px_state := st_Store sessionId serviceCode nodeID (px_state px)\<rparr>, None)))"

definition RemoveServiceRoute :: "string \<Rightarrow> int \<Rightarrow> Proxy \<Rightarrow> Proxy" where
  "RemoveServiceRoute sessionId serviceCode px =
     px\<lparr>px_state := st_Remove sessionId serviceCode (px_state px)\<rparr>"

definition ReplaceServiceRoute ::
  "(string \<Rightarrow> go_error + ulid) \<Rightarrow> string \<Rightarrow> string \<Rightarrow> string list \<Rightarrow> inner_order \<Rightarrow> Proxy \<Rightarrow>
   Proxy \<times> go_error option" where
  "ReplaceServiceRoute ulid_Parse oldNodeId newNodeId sessions inner px =
     (case ulid_Parse oldNodeId of
        Inl err \<Rightarrow> (px, Some (ErrStatus codes_InvalidArgument (''invalid node id, '' @ err_text err)))
      | Inr oldID \<Rightarrow>
          (case ulid_Parse newNodeId of
             Inl err \<Rightarrow> (px, Some (ErrStatus codes_InvalidArgument (''invalid node id, '' @ err_text err)))
           | Inr newID \<Rightarrow> (px\<lparr>px_state := ReplaceNode oldID newID sessions inner (px_state px)\<rparr>, None)))"

text \<open>The replies handed to sessions are collected; \<open>send\<close> is the session's \<open>Send\<close>.\<close>

definition gw_SendReply ::
  "(nat \<Rightarrow> Reply \<Rightarrow> go_error option) \<Rightarrow> string \<Rightarrow> Reply \<Rightarrow> Proxy \<Rightarrow>
   (nat \<times> Reply) option \<times> (go_error + bool)" where
  "gw_SendReply send sessionId reply px =
     (case hub_Load sessionId px of
        None \<Rightarrow> (None, Inr False)
      | Some s \<Rightarrow>
          if rep_ServiceCode reply = 0 then
            (None, Inl (ErrStatus codes_InvalidArgument ''invalid reply, from_service is empty''))
          else if rep_Code reply = 0 then
            (None, Inl (ErrStatus codes_InvalidArgument ''invalid reply, message_type is empty''))
          else (case send s reply of
                  Some err \<Rightarrow> (None, Inl err)
                | None \<Rightarrow> (Some (s, reply), Inr True)))"

text \<open>A client of the service runs over the connection to the gateway's node.\<close>

definition NewGatewayClient :: "(string \<Rightarrow> go_error + nat) \<Rightarrow> ulid \<Rightarrow> Registry \<Rightarrow> Registry \<times> nat go" where
  "NewGatewayClient dial nodeID r = GetGRPCConn dial nodeID r"

section \<open>Runs with management calls\<close>

text \<open>Management calls only close sessions or change routes, so they are steps of a gateway run.\<close>

lemma service_only_closes:
  "only_closes px (fst (CloseSession e sid px))"
  "only_closes px (fst (SetServiceRoute parse sid c n px))"
  "only_closes px (RemoveServiceRoute sid c px)"
  "only_closes px (fst (ReplaceServiceRoute parse old new ss inner px))"
  by (auto simp: CloseSession_def SetServiceRoute_def RemoveServiceRoute_def ReplaceServiceRoute_def
      split: option.splits sum.splits)

inductive managed :: "Proxy \<Rightarrow> bool" where
  managed_run: "gw_reach px \<Longrightarrow> managed px"
| managed_close: "managed px \<Longrightarrow> managed (fst (CloseSession e sid px))"
| managed_set: "managed px \<Longrightarrow> managed (fst (SetServiceRoute parse sid c n px))"
| managed_remove: "managed px \<Longrightarrow> managed (RemoveServiceRoute sid c px)"
| managed_replace: "managed px \<Longrightarrow> managed (fst (ReplaceServiceRoute parse old new ss inner px))"

lemma managed_inv: "managed px \<Longrightarrow> gw_inv px"
  by (induction rule: managed.induct)
    (blast intro: gw_reach_inv only_closes_inv service_only_closes)+

section \<open>Properties\<close>

text \<open>
  Managing routes: setting the route of a connected session makes exactly that route
  the given node, and removing it makes exactly that route disappear; a session that is not
  connected, or a node id that does not parse, changes nothing, and only the latter is an
  error.
\<close>

theorem service_routes:
  "(hub_Load sid px = None \<longrightarrow> SetServiceRoute parse sid c n px = (px, None)) \<and>
   (hub_Load sid px \<noteq> None \<longrightarrow> (case parse n of
      Inr nodeID \<Rightarrow> snd (SetServiceRoute parse sid c n px) = None \<and>
        st_Find (px_state (fst (SetServiceRoute parse sid c n px))) u svc =
          (if u = sid \<and> svc = c then Some nodeID else st_Find (px_state px) u svc)
    | Inl e \<Rightarrow> SetServiceRoute parse sid c n px =
        (px, Some (ErrStatus codes_InvalidArgument (''invalid node id, '' @ err_text e))))) \<and>
   st_Find (px_state (RemoveServiceRoute sid c px)) u svc =
     (if u = sid \<and> svc = c then None else st_Find (px_state px) u svc)"
  by (auto simp: SetServiceRoute_def RemoveServiceRoute_def st.find_store st.find_remove split: sum.split)

theorem service_routes_witness:
  "st_Find (px_state (fst (SetServiceRoute (\<lambda>_. Inr (ULID 1 2)) ''u'' 7 ''x'' demo_px))) ''u'' 7 = Some (ULID 1 2)"
  using service_routes [of "''u''" demo_px "\<lambda>_. Inr (ULID 1 2)" 7 "''x''" "''u''" 7] demo_px_open(2)
  by (simp add: hub_Load_def)

lemma close_send_facts:
  assumes "managed px"
  shows "CloseSession e sid px = (px', Inr ok) \<Longrightarrow>
      (ok \<longleftrightarrow> IsSessionExist sid px) \<and> \<not> open_session px' sid s \<and>
      (u \<noteq> sid \<longrightarrow> open_session px' u s = open_session px u s)"
    and "gw_SendReply send sid reply px = (out, Inr ok) \<Longrightarrow>
      (ok \<longleftrightarrow> IsSessionExist sid px) \<and>
      (ok \<longrightarrow> (\<exists>s. out = Some (s, reply) \<and> sess_ID s px = sid \<and> send s reply = None) \<and>
        rep_ServiceCode reply \<noteq> 0 \<and> rep_Code reply \<noteq> 0)"
proof -
  note inv = gw_invD [OF managed_inv [OF assms]]
  show "(ok \<longleftrightarrow> IsSessionExist sid px) \<and> \<not> open_session px' sid s \<and>
      (u \<noteq> sid \<longrightarrow> open_session px' u s = open_session px u s)" if run: "CloseSession e sid px = (px', Inr ok)"
  proof (cases "hub_Load sid px")
    case None
    then show ?thesis
      using run inv(5) [of sid s] by (auto simp: CloseSession_def IsSessionExist_def hub_Load_def)
  next
    case (Some r)
    have px': "px' = sess_Close r px" and ok using run Some by (simp_all add: CloseSession_def split: option.splits)
    have id: "sess_ID r px = sid" using inv(1) Some by (simp add: hub_Load_def)
    have "\<not> open_session px' sid s"
    proof
      assume o: "open_session px' sid s"
      then have "open_session px sid s" unfolding px' by (rule only_closesD(6) [OF only_closes_sess_Close])
      then have "r = s" using inv(5) [of sid s] Some by (simp add: hub_Load_def)
      then show False using o sess_Close_not_open unfolding px' by blast
    qed
    moreover have "u \<noteq> sid \<longrightarrow> open_session px' u s = open_session px u s"
      using open_session_sess_Close [of r px u s] id px' by simp
    ultimately show ?thesis using Some \<open>ok\<close> by (simp add: IsSessionExist_def)
  qed
  show "(ok \<longleftrightarrow> IsSessionExist sid px) \<and>
      (ok \<longrightarrow> (\<exists>s. out = Some (s, reply) \<and> sess_ID s px = sid \<and> send s reply = None) \<and>
        rep_ServiceCode reply \<noteq> 0 \<and> rep_Code reply \<noteq> 0)" if "gw_SendReply send sid reply px = (out, Inr ok)"
    using that inv(1) [of sid]
    by (auto simp: gw_SendReply_def IsSessionExist_def hub_Load_def split: option.splits if_splits)
qed

text \<open>
  Closing and pushing through the management service: \<open>CloseSession\<close> and \<open>SendReply\<close>
  report success only for a connected session; after closing, the user has no open session
  and other users' sessions are as before, and a pushed reply goes to the session of the
  user, unchanged, and only when it names a service and a code.
\<close>

theorem service_close_send:
  assumes "managed px"
  shows "(CloseSession e sid px = (px', Inr ok) \<longrightarrow>
      (ok \<longleftrightarrow> IsSessionExist sid px) \<and> (\<forall>s. \<not> open_session px' sid s) \<and>
      (\<forall>u s. u \<noteq> sid \<longrightarrow> open_session px' u s = open_session px u s)) \<and>
    (gw_SendReply send sid reply px = (sent, Inr ok) \<longrightarrow>
      (ok \<longleftrightarrow> IsSessionExist sid px) \<and>
      (ok \<longrightarrow> (\<exists>s. sent = Some (s, reply) \<and> sess_ID s px = sid \<and> send s reply = None) \<and>
        rep_ServiceCode reply \<noteq> 0 \<and> rep_Code reply \<noteq> 0))"
  using close_send_facts [OF assms] by blast

theorem service_close_send_witness:
  "managed demo_px \<and> (\<exists>px'. CloseSession None ''u'' demo_px = (px', Inr True) \<and> \<not> open_session px' ''u'' 0)"
proof -
  have m: "managed demo_px" by (rule managed_run [OF demo_px_reach])
  obtain px' where "CloseSession None ''u'' demo_px = (px', Inr True)"
    using demo_px_open(2) by (simp add: CloseSession_def hub_Load_def)
  with service_close_send [OF m] m show ?thesis by blast
qed

end
