(* ===== verification/Multicast_Bus.thy ===== *)
theory Multicast_Bus
  imports Nh_Messages Stream_Workers Message_Queue
begin

text \<open>
  The multicast bus (\<open>src/multicast/bus.go\<close>): publishing a message for clients and
  delivering it to the handler of every subscribed gateway, in order within a stream.
  \<open>marshal\<close> and \<open>unmarshal\<close> stand for the protobuf codec, the queue's outcome is an argument.
  A message whose time was never set has the time \<open>None\<close>.
\<close>

section \<open>Publishing\<close>

record multicast_msg =
  mm_msg :: Multicast
  mm_time :: "int option"

definition mc_Publish ::
  "(multicast_msg \<Rightarrow> go_error + byte list) \<Rightarrow> (byte list \<Rightarrow> go_error option) \<Rightarrow> int \<Rightarrow> multicast_msg \<Rightarrow>
   multicast_msg \<times> byte list go" where
  "mc_Publish marshal queue_Publish now message =
     (let reply = mc_Content (mm_msg message) in
      if rep_ServiceCode reply = 0 \<or> rep_Code reply = 0
      then (message, Error (ErrNew ''service code or message code is empty''))
      else if length (mc_Receiver (mm_msg message)) = 0 \<and> \<not> mc_ToEveryone (mm_msg message)
      then (message, Error (ErrNew ''receiver is empty''))
      else let message' = (if mm_time message = None then message\<lparr>mm_time := Some now\<rparr> else message)
           in (message', case marshal message' of
                Inl err \<Rightarrow> Error err
              | Inr data \<Rightarrow> (case queue_Publish data of None \<Rightarrow> Ok data | Some err \<Rightarrow> Error err)))"

section \<open>Subscribing\<close>

text \<open>Messages without a stream are tasks of the goroutine pool; the others go to workers.\<close>

record mc_state =
  mcs_workers :: "Multicast workers"
  mcs_tasks :: "Multicast list"

definition mc_init :: mc_state where
  "mc_init = \<lparr>mcs_workers = sw_init, mcs_tasks = []\<rparr>"

definition mc_chan_cap :: nat where "mc_chan_cap = 100"
definition mc_idle :: int where "mc_idle = 300000000000"

definition mc_receive ::
  "(byte list \<Rightarrow> go_error + Multicast) \<Rightarrow> bool \<Rightarrow> int \<Rightarrow> byte list \<Rightarrow> mc_state \<Rightarrow> mc_state option" where
  "mc_receive unmarshal submitted now data s =
     (case unmarshal data of
        Inl err \<Rightarrow> Some s
      | Inr msg \<Rightarrow>
          if mc_Stream msg = []
          then Some (if submitted then s\<lparr>mcs_tasks := mcs_tasks s @ [msg]\<rparr> else s)
          else map_option (\<lambda>w. s\<lparr>mcs_workers := w\<rparr>) (sw_recv mc_Stream mc_chan_cap now msg (mcs_workers s)))"

definition mc_tick :: "int \<Rightarrow> string list \<Rightarrow> mc_state \<Rightarrow> mc_state" where
  "mc_tick now visit s = s\<lparr>mcs_workers := sw_tick mc_idle now visit (mcs_workers s)\<rparr>"

interpretation mcast: stream_dispatch mc_Stream mc_chan_cap mc_idle
  by unfold_locales (simp add: mc_chan_cap_def)

section \<open>Runs of a subscription\<close>

text \<open>
  What happens to a subscription: a message of the queue is received, with the pool's answer
  should it be a task for it; a worker enters and leaves the handler; the ticker closes idle
  workers, which have nothing left to do. The messages of the queue are kept in the order
  they came.
\<close>

inductive mc_run :: "(byte list \<Rightarrow> go_error + Multicast) \<Rightarrow> (byte list \<times> bool) list \<Rightarrow> mc_state \<Rightarrow> bool"
  for unmarshal where
  mc_starts: "mc_run unmarshal [] mc_init"
| mc_receives: "mc_run unmarshal ds s \<Longrightarrow> mc_receive unmarshal submitted now data s = Some s' \<Longrightarrow>
    mc_run unmarshal (ds @ [(data, submitted)]) s'"
| mc_enters: "mc_run unmarshal ds s \<Longrightarrow> sw_enter g (mcs_workers s) = Some w \<Longrightarrow> mc_run unmarshal ds (s\<lparr>mcs_workers := w\<rparr>)"
| mc_leaves: "mc_run unmarshal ds s \<Longrightarrow> sw_leave g (mcs_workers s) = Some w \<Longrightarrow> mc_run unmarshal ds (s\<lparr>mcs_workers := w\<rparr>)"
| mc_ticks: "mc_run unmarshal ds s \<Longrightarrow>
    (\<And>k g. sw_live (mcs_workers s) k = Some g \<Longrightarrow> now - sw_active (mcs_workers s) g > mc_idle \<Longrightarrow> drained (mcs_workers s) g) \<Longrightarrow>
    mc_run unmarshal ds (mc_tick now visit s)"

text \<open>The messages that could be decoded, with the pool's answer.\<close>

definition mc_decoded :: "(byte list \<Rightarrow> go_error + Multicast) \<Rightarrow> (byte list \<times> bool) list \<Rightarrow> (Multicast \<times> bool) list" where
  "mc_decoded unmarshal ds = List.map_filter (\<lambda>(data, submitted). case unmarshal data of
     Inl _ \<Rightarrow> None | Inr msg \<Rightarrow> Some (msg, submitted)) ds"

lemma mc_decoded_append [simp]: "mc_decoded unmarshal (ds @ es) = mc_decoded unmarshal ds @ mc_decoded unmarshal es"
  by (simp add: mc_decoded_def List.map_filter_def)

lemma mc_decoded_one [simp]:
  "mc_decoded unmarshal [(data, b)] = (case unmarshal data of Inl _ \<Rightarrow> [] | Inr msg \<Rightarrow> [(msg, b)])"
  by (simp add: mc_decoded_def List.map_filter_def split: sum.split)

lemma mc_run_workers:
  "mc_run unmarshal ds s \<Longrightarrow>
    sw_run mc_Stream mc_chan_cap mc_idle (filter (\<lambda>m. mc_Stream m \<noteq> []) (map fst (mc_decoded unmarshal ds))) (mcs_workers s) \<and>
    mcs_tasks s = map fst (filter (\<lambda>(m, b). mc_Stream m = [] \<and> b) (mc_decoded unmarshal ds))"
proof (induction rule: mc_run.induct)
  case mc_starts
  show ?case by (simp add: mc_init_def mc_decoded_def List.map_filter_def run_init)
next
  case (mc_receives ds s submitted now data s')
  show ?case
  proof (cases "unmarshal data")
    case (Inl err)
    then show ?thesis using mc_receives by (simp add: mc_receive_def)
  next
    case (Inr msg)
    show ?thesis
    proof (cases "mc_Stream msg = []")
      case True
      then show ?thesis using mc_receives Inr by (auto simp: mc_receive_def)
    next
      case False
      then obtain w where w: "sw_recv mc_Stream mc_chan_cap now msg (mcs_workers s) = Some w" "s' = s\<lparr>mcs_workers := w\<rparr>"
        using mc_receives(2) Inr by (auto simp: mc_receive_def)
      then show ?thesis using run_recv [OF conjunct1 [OF mc_receives(3)] w(1)] mc_receives(3) Inr False by simp
    qed
  qed
next
  case (mc_ticks ds s now visit)
  then show ?case using run_tick [of mc_Stream mc_chan_cap mc_idle _ "mcs_workers s" now visit] by (simp add: mc_tick_def)
qed (auto intro: run_enter run_leave)

section \<open>Options\<close>

record mc_Options =
  mo_ChannelName :: string
  mo_GoPool :: bool

definition mc_newOptions :: "(mc_Options \<Rightarrow> mc_Options) list \<Rightarrow> mc_Options" where
  "mc_newOptions fns = fold (\<lambda>fn opt. fn opt) fns \<lparr>mo_ChannelName = ''nodehub:multicast'', mo_GoPool = False\<rparr>"

definition mc_WithChannelName :: "string \<Rightarrow> mc_Options \<Rightarrow> mc_Options" where
  "mc_WithChannelName name opt = opt\<lparr>mo_ChannelName := name\<rparr>"

definition mc_WithGoPool :: "mc_Options \<Rightarrow> mc_Options" where
  "mc_WithGoPool opt = opt\<lparr>mo_GoPool := True\<rparr>"

section \<open>The bus\<close>

text \<open>Tasks go to the pool of the options, or to the default pool.\<close>

record 'q mc_Bus =
  mb_queue :: 'q
  mb_ownPool :: bool

definition mc_newBus :: "'q \<Rightarrow> mc_Options \<Rightarrow> 'q mc_Bus" where
  "mc_newBus queue opt = \<lparr>mb_queue = queue, mb_ownPool = mo_GoPool opt\<rparr>"

definition mc_NewBus :: "'q \<Rightarrow> (mc_Options \<Rightarrow> mc_Options) list \<Rightarrow> 'q mc_Bus" where
  "mc_NewBus queue options = mc_newBus queue (mc_newOptions options)"

definition mc_NewNatsBus :: "(mc_Options \<Rightarrow> mc_Options) list \<Rightarrow> natsMQ mc_Bus" where
  "mc_NewNatsBus options =
     (let opt = mc_newOptions options in mc_newBus (NewNatsMQ (mo_ChannelName opt)) opt)"

definition mc_NewRedisBus :: "(mc_Options \<Rightarrow> mc_Options) list \<Rightarrow> redisMQ mc_Bus" where
  "mc_NewRedisBus options =
     (let opt = mc_newOptions options in mc_newBus (NewRedisMQ (mo_ChannelName opt)) opt)"

definition mc_Close :: "('q \<Rightarrow> 'q go) \<Rightarrow> 'q mc_Bus \<Rightarrow> 'q mc_Bus go" where
  "mc_Close queue_Close bus = go_bind (queue_Close (mb_queue bus)) (\<lambda>q. Ok (bus\<lparr>mb_queue := q\<rparr>))"

text \<open>Publishing over a bus's queue; a message goes to the broker under the bus's topic only.\<close>

context mq_queue
begin

lemma multicast_topic:
  assumes "mc_Publish marshal (\<lambda>data. Publish broker data (mb_queue bus)) now message = (message', Ok data)"
  shows "broker (Topic (mb_queue bus)) data = None \<and> marshal message' = Inr data"
  using assms by (auto simp: mc_Publish_def Let_def publish_topic split: if_splits sum.splits option.splits)

end

lemmas nats_multicast_topic = nats_q.multicast_topic
lemmas redis_multicast_topic = redis_q.multicast_topic

section \<open>Properties\<close>

text \<open>
  Only deliverable messages are published: \<open>Publish\<close> hands a message to the queue only
  when its content names a service and a code and it has receivers or is for everyone; it
  is then stamped with a time, and the time of a message that has one is kept.
\<close>

theorem mc_Publish_checked:
  assumes "mc_Publish marshal queue now message = (message', Ok data)"
  shows "rep_ServiceCode (mc_Content (mm_msg message)) \<noteq> 0 \<and> rep_Code (mc_Content (mm_msg message)) \<noteq> 0 \<and>
    (mc_Receiver (mm_msg message) \<noteq> [] \<or> mc_ToEveryone (mm_msg message)) \<and>
    mm_msg message' = mm_msg message \<and>
    mm_time message' = Some (case mm_time message of None \<Rightarrow> now | Some t \<Rightarrow> t) \<and> marshal message' = Inr data"
  using assms
  by (auto simp: mc_Publish_def Let_def split: if_splits sum.splits option.splits)

theorem mc_Publish_checked_witness:
  "\<exists>m'. mc_Publish (\<lambda>m. Inr []) (\<lambda>_. None) 4 \<lparr>mm_msg = NewMulticast 0 [''u1'']
       (empty_Reply\<lparr>rep_ServiceCode := 7, rep_Code := 2\<rparr>), mm_time = None\<rparr> = (m', Ok []) \<and> mm_time m' = Some 4"
proof -
  let ?m = "\<lparr>mm_msg = NewMulticast 0 [''u1''] (empty_Reply\<lparr>rep_ServiceCode := 7, rep_Code := 2\<rparr>), mm_time = None\<rparr>"
  obtain m' where run: "mc_Publish (\<lambda>m. Inr []) (\<lambda>_. None) 4 ?m = (m', Ok [])"
    by (simp add: mc_Publish_def NewMulticast_def empty_Reply_def)
  with mc_Publish_checked [OF run] show ?thesis by auto
qed

text \<open>
  C27. What a subscription does with the messages of the queue, as long as the ticker only
  closes workers that are done: the messages of one stream are handled strictly in the order
  they came from the queue, one at a time, so that at any moment what the handler has seen of
  the stream is a prefix of it with at most the last message still being handled, and when
  nothing is pending all of it was handled; a message without a stream goes to the pool, once
  when the pool takes it, and never to a worker; a message that cannot be decoded is dropped.
\<close>

theorem multicast_stream_order:
  assumes "mc_run unmarshal ds st" and "s \<noteq> []"
  shows "(\<exists>dn rest. stream_of mc_Stream s (map fst (mc_decoded unmarshal ds)) = dn @ rest \<and>
      (log_of mc_Stream s (mcs_workers st) = script dn \<or>
       (\<exists>m rest'. rest = m # rest' \<and> log_of mc_Stream s (mcs_workers st) = script dn @ [Enter m]))) \<and>
    ((\<forall>g. drained (mcs_workers st) g) \<longrightarrow>
       log_of mc_Stream s (mcs_workers st) = script (stream_of mc_Stream s (map fst (mc_decoded unmarshal ds)))) \<and>
    mcs_tasks st = map fst (filter (\<lambda>(m, b). mc_Stream m = [] \<and> b) (mc_decoded unmarshal ds)) \<and>
    log_of mc_Stream [] (mcs_workers st) = []"
proof -
  note run = mc_run_workers [OF assms(1)]
  let ?ms = "filter (\<lambda>m. mc_Stream m \<noteq> []) (map fst (mc_decoded unmarshal ds))"
  have same: "stream_of mc_Stream s ?ms = stream_of mc_Stream s (map fst (mc_decoded unmarshal ds))"
    using assms(2) by (auto simp: stream_of_def intro: filter_cong)
  have "stream_of mc_Stream [] ?ms = []" by (simp add: stream_of_def)
  then have "log_of mc_Stream [] (mcs_workers st) = []" using mcast.in_order [OF conjunct1 [OF run], of "[]"] by auto
  then show ?thesis
    using mcast.in_order [OF conjunct1 [OF run], of s] mcast.nothing_lost [OF conjunct1 [OF run], of s] run unfolding same by blast
qed

definition mc_demo :: Multicast where
  "mc_demo = (NewMulticast 0 [''u1''] empty_Reply)\<lparr>mc_Stream := ''news''\<rparr>"

theorem multicast_stream_order_witness:
  "\<exists>st. mc_run (\<lambda>_. Inr mc_demo) [([1], True)] st \<and> (\<forall>g. drained (mcs_workers st) g) \<and>
     log_of mc_Stream ''news'' (mcs_workers st) = [Enter mc_demo, Leave mc_demo] \<and> mcs_tasks st = []"
proof -
  have key: "mc_Stream mc_demo = ''news''" by (simp add: mc_demo_def)
  obtain w where w: "sw_recv mc_Stream mc_chan_cap 0 mc_demo sw_init = Some w" "sw_chan w = (\<lambda>_. [])(0 := [mc_demo])" "sw_busy w = (\<lambda>_. None)"
    by (simp add: sw_recv_def sw_worker_def sw_init_def mc_chan_cap_def key)
  then have "mc_receive (\<lambda>_. Inr mc_demo) True 0 [1] mc_init = Some (mc_init\<lparr>mcs_workers := w\<rparr>)"
    by (simp add: mc_receive_def mc_init_def key)
  from mc_receives [OF mc_starts this] have r1: "mc_run (\<lambda>_. Inr mc_demo) [([1], True)] (mc_init\<lparr>mcs_workers := w\<rparr>)" by simp
  obtain w1 where w1: "sw_enter 0 w = Some w1" "sw_chan w1 = (\<lambda>_. [])" "sw_busy w1 = (\<lambda>_. None)(0 \<mapsto> mc_demo)"
    using w(2,3) by (auto simp: sw_enter_def)
  obtain w2 where w2: "sw_leave 0 w1 = Some w2" "\<And>g. drained w2 g"
    using w1(2,3) by (auto simp: sw_leave_def drained_def)
  have "mc_run (\<lambda>_. Inr mc_demo) [([1], True)] (mc_init\<lparr>mcs_workers := w1\<rparr>)" using mc_enters [OF r1, of 0 w1] w1(1) by simp
  from mc_leaves [OF this, of 0 w2] have r2: "mc_run (\<lambda>_. Inr mc_demo) [([1], True)] (mc_init\<lparr>mcs_workers := w2\<rparr>)" using w2(1) by simp
  from multicast_stream_order [OF r2, of "''news''"] w2(2) show ?thesis
    by (intro exI [of _ "mc_init\<lparr>mcs_workers := w2\<rparr>"]) (simp add: r2 key stream_of_def)
qed
end
