(* ===== verification/Gateway_Client.thy ===== *)
theory Gateway_Client
  imports Gateway_Session
begin

text \<open>
  The Go client of a gateway (\<open>src/component/gateway/client/client.go\<close>): the three kinds of
  connection, sending requests, matching replies to waiting calls, subscriptions and
  closing. The network is an argument: \<open>write\<close> is the outcome of writing, and a connection
  keeps what was written. \<open>proto.Marshal\<close> and \<open>proto.Unmarshal\<close> are arguments.
\<close>

section \<open>Connections\<close>

record tcpConn =
  tc_out :: "byte list"
  tc_done :: bool

definition newTCPConn :: "(string \<Rightarrow> go_error option) \<Rightarrow> string \<Rightarrow> go_error + tcpConn" where
  "newTCPConn dial address =
     (case dial address of Some err \<Rightarrow> Inl err | None \<Rightarrow> Inr \<lparr>tc_out = [], tc_done = False\<rparr>)"

definition tcpc_send ::
  "(byte list \<Rightarrow> go_error option) \<Rightarrow> int \<Rightarrow> byte list \<Rightarrow> tcpConn \<Rightarrow> tcpConn \<times> go_error option" where
  "tcpc_send write service data tc =
     (case SendBytes data write of
        Some err \<Rightarrow> (tc, Some err)
      | None \<Rightarrow> (tc\<lparr>tc_out := tc_out tc @ frame data\<rparr>, None))"

definition tcpc_ping :: "(byte list \<Rightarrow> go_error option) \<Rightarrow> tcpConn \<Rightarrow> tcpConn \<times> go_error option" where
  "tcpc_ping write tc = tcpc_send write 0 [] tc"

text \<open>
  The goroutine of \<open>replyStream\<close>: the replies it hands over and how it ends. The first
  argument is the number of rounds before \<open>done\<close> is closed; an undecodable reply panics.
\<close>

datatype stream_end = StreamDone | StreamErr go_error | StreamPanic string

fun tcp_replyStream ::
  "nat \<Rightarrow> (nat \<Rightarrow> nat) \<Rightarrow> (byte list \<Rightarrow> go_error + Reply) \<Rightarrow> io_Reader \<Rightarrow> Message \<Rightarrow> Reply list \<times> stream_end" where
  "tcp_replyStream 0 growcap unmarshal r msg = ([], StreamDone)"
| "tcp_replyStream (Suc n) growcap unmarshal r msg =
     (case ReadMessage growcap r msg of
        Ok (r', msg', Some err) \<Rightarrow> ([], StreamErr err)
      | Ok (r', msg', None) \<Rightarrow>
          (case msg_Bytes msg' of
             Ok data \<Rightarrow>
               (case unmarshal data of
                  Inl err \<Rightarrow> ([], StreamPanic (err_text err))
                | Inr reply \<Rightarrow>
                    (case tcp_replyStream n growcap unmarshal r' msg' of (rs, e) \<Rightarrow> (reply # rs, e)))
           | Error err \<Rightarrow> ([], StreamErr err)
           | Panic p \<Rightarrow> ([], StreamPanic p))
      | Error err \<Rightarrow> ([], StreamErr err)
      | Panic p \<Rightarrow> ([], StreamPanic p))"

text \<open>\<open>Close\<close> closes the channel \<open>done\<close>; a second call panics.\<close>

definition tcpc_Close :: "tcpConn \<Rightarrow> tcpConn go" where
  "tcpc_Close tc = (if tc_done tc then Panic ''close of closed channel'' else Ok (tc\<lparr>tc_done := True\<rparr>))"

text \<open>A QUIC connection opens three streams and sends the requests of a service over one of them.\<close>

record quicConn =
  qc_streams :: "byte list list"
  qc_done :: bool

definition newQUICConn :: "go_error option \<Rightarrow> (nat \<Rightarrow> go_error option) \<Rightarrow> quicConn go" where
  "newQUICConn dialErr openStream =
     (case dialErr of
        Some err \<Rightarrow> Error err
      | None \<Rightarrow>
          go_bind (go_fold (\<lambda>i ss. case openStream i of
                     Some err \<Rightarrow> Error (ErrWrap ''open stream'' err)
                   | None \<Rightarrow> Ok (ss @ [[]])) [0..<3] [])
            (\<lambda>ss. Ok \<lparr>qc_streams = ss, qc_done = False\<rparr>))"

definition quicc_send ::
  "(byte list \<Rightarrow> go_error option) \<Rightarrow> int \<Rightarrow> byte list \<Rightarrow> quicConn \<Rightarrow> (quicConn \<times> go_error option) go" where
  "quicc_send write service data qc =
     (let i = go_rem service (int (length (qc_streams qc)))
      in go_bind (go_index (qc_streams qc) i) (\<lambda>s.
           case SendBytes data write of
             Some err \<Rightarrow> Ok (qc, Some err)
           | None \<Rightarrow> Ok (qc\<lparr>qc_streams := (qc_streams qc)[nat i := s @ frame data]\<rparr>, None)))"

definition quicc_ping :: "(byte list \<Rightarrow> go_error option) \<Rightarrow> quicConn \<Rightarrow> (quicConn \<times> go_error option) go" where
  "quicc_ping write qc = quicc_send write 0 [] qc"

text \<open>
  \<open>replyStream\<close> starts a goroutine per stream, with a loop like that of a TCP connection; what
  each hands over and how it ends. The shared channel interleaves them and is never closed.
\<close>

definition quic_replyStream ::
  "nat \<Rightarrow> (nat \<Rightarrow> nat) \<Rightarrow> (byte list \<Rightarrow> go_error + Reply) \<Rightarrow> (io_Reader \<times> Message) list \<Rightarrow> (Reply list \<times> stream_end) list" where
  "quic_replyStream rounds growcap unmarshal streams =
     map (\<lambda>(r, msg). tcp_replyStream rounds growcap unmarshal r msg) streams"

definition quicc_Close :: "quicConn \<Rightarrow> quicConn go" where
  "quicc_Close qc = (if qc_done qc then Panic ''close of closed channel'' else Ok (qc\<lparr>qc_done := True\<rparr>))"

text \<open>A websocket connection keeps the messages; pings are control messages.\<close>

record wsConn =
  wc_out :: "byte list list"
  wc_pings :: nat
  wc_done :: bool

definition newWSConn :: "(string \<Rightarrow> go_error option) \<Rightarrow> string \<Rightarrow> go_error + wsConn" where
  "newWSConn dial address =
     (case dial address of Some err \<Rightarrow> Inl err | None \<Rightarrow> Inr \<lparr>wc_out = [], wc_pings = 0, wc_done = False\<rparr>)"

definition wsc_send ::
  "(byte list \<Rightarrow> go_error option) \<Rightarrow> int \<Rightarrow> byte list \<Rightarrow> wsConn \<Rightarrow> wsConn \<times> go_error option" where
  "wsc_send write service data wc =
     (case write data of Some err \<Rightarrow> (wc, Some err) | None \<Rightarrow> (wc\<lparr>wc_out := wc_out wc @ [data]\<rparr>, None))"

definition wsc_ping :: "go_error option \<Rightarrow> wsConn \<Rightarrow> wsConn \<times> go_error option" where
  "wsc_ping writeControl wc =
     (case writeControl of Some err \<Rightarrow> (wc, Some err) | None \<Rightarrow> (wc\<lparr>wc_pings := Suc (wc_pings wc)\<rparr>, None))"

text \<open>The websocket reader: what \<open>ReadMessage\<close> returns; other message types are skipped.\<close>

fun ws_replyStream ::
  "(byte list \<Rightarrow> go_error + Reply) \<Rightarrow> (go_error + int \<times> byte list) list \<Rightarrow> Reply list \<times> stream_end" where
  "ws_replyStream unmarshal [] = ([], StreamDone)"
| "ws_replyStream unmarshal (Inl err # ins) = ([], StreamErr err)"
| "ws_replyStream unmarshal (Inr (messageType, data) # ins) =
     (if messageType = BinaryMessage then
        (case unmarshal data of
           Inl err \<Rightarrow> ([], StreamPanic (err_text err))
         | Inr reply \<Rightarrow> (case ws_replyStream unmarshal ins of (rs, e) \<Rightarrow> (reply # rs, e)))
      else ws_replyStream unmarshal ins)"

definition wsc_Close :: "wsConn \<Rightarrow> wsConn go" where
  "wsc_Close wc = (if wc_done wc then Panic ''close of closed channel'' else Ok (wc\<lparr>wc_done := True\<rparr>))"

section \<open>The client\<close>

text \<open>
  The channel of a waiting call has room for one reply. \<open>cl_replyC\<close> is what was handed to
  the subscribers.
\<close>

record 'c Client =
  cl_seq :: "32 word"
  cl_conn :: 'c
  cl_await :: "32 word \<rightharpoonup> Reply list"
  cl_replyC :: "Reply list"
  cl_done :: bool

definition newClient :: "'c \<Rightarrow> 'c Client" where
  "newClient conn = \<lparr>cl_seq = 0, cl_conn = conn, cl_await = Map.empty, cl_replyC = [], cl_done = False\<rparr>"

text \<open>\<open>New\<close> chooses the connection by the scheme of the URL.\<close>

datatype any_conn = TcpC tcpConn | WsC wsConn

definition New ::
  "(string \<Rightarrow> go_error + string \<times> string) \<Rightarrow> (string \<Rightarrow> go_error option) \<Rightarrow> (string \<Rightarrow> go_error option) \<Rightarrow> string \<Rightarrow>
   go_error + any_conn Client" where
  "New url_Parse dialTCP dialWS dialURL =
     (case url_Parse dialURL of
        Inl err \<Rightarrow> Inl (ErrWrap ''parse dial url'' err)
      | Inr (scheme, host) \<Rightarrow>
          if scheme = ''tcp'' then
            (case newTCPConn dialTCP host of
               Inl err \<Rightarrow> Inl (ErrWrap ''dial tcp'' err)
             | Inr c \<Rightarrow> Inr (newClient (TcpC c)))
          else if scheme = ''ws'' then
            (case newWSConn dialWS dialURL of
               Inl err \<Rightarrow> Inl (ErrWrap ''dial websocket'' err)
             | Inr c \<Rightarrow> Inr (newClient (WsC c)))
          else Inl (ErrNew (''unsupported scheme: '' @ scheme)))"

definition NewQUIC ::
  "(string \<Rightarrow> go_error + string \<times> string) \<Rightarrow> go_error option \<Rightarrow> (nat \<Rightarrow> go_error option) \<Rightarrow> string \<Rightarrow>
   quicConn Client go" where
  "NewQUIC url_Parse dialErr openStream dialURL =
     (case url_Parse dialURL of
        Inl err \<Rightarrow> Error (ErrWrap ''parse dial url'' err)
      | Inr (scheme, host) \<Rightarrow>
          if scheme \<noteq> ''quic'' then Error (ErrNew (''unsupported scheme: '' @ scheme))
          else (case newQUICConn dialErr openStream of
                  Error err \<Rightarrow> Error (ErrWrap ''dial quic'' err)
                | Panic p \<Rightarrow> Panic p
                | Ok qc \<Rightarrow> Ok (newClient qc)))"

definition WithNode :: "string \<Rightarrow> Request \<Rightarrow> Request" where
  "WithNode nodeID req = req\<lparr>req_NodeId := nodeID\<rparr>"

definition WithNoReply :: "Request \<Rightarrow> Request" where
  "WithNoReply req = req\<lparr>req_NoReply := True\<rparr>"

definition WithStream :: "string \<Rightarrow> Request \<Rightarrow> Request" where
  "WithStream stream req = req\<lparr>req_Stream := stream\<rparr>"

text \<open>\<open>send\<close>: the sequence number is taken even when sending fails later.\<close>

definition cli_send ::
  "('i \<Rightarrow> go_error + byte list) \<Rightarrow> (Request \<Rightarrow> go_error + byte list) \<Rightarrow>
   (int \<Rightarrow> byte list \<Rightarrow> 'c \<Rightarrow> 'c \<times> go_error option) \<Rightarrow> int \<Rightarrow> string \<Rightarrow> 'i \<Rightarrow> (Request \<Rightarrow> Request) list \<Rightarrow>
   'c Client \<Rightarrow> 'c Client \<times> Request option \<times> go_error option" where
  "cli_send marshalIn marshalReq conn_send serviceCode meth input options cli =
     (case marshalIn input of
        Inl err \<Rightarrow> (cli, None, Some (ErrWrap ''marshal request message'' err))
      | Inr data \<Rightarrow>
          let n = cl_seq cli + 1;
              req0 = empty_Request\<lparr>req_Id := n, req_Data := data, req_ServiceCode := serviceCode, req_Method := meth\<rparr>;
              req = fold (\<lambda>opt req. opt req) options req0;
              cli1 = cli\<lparr>cl_seq := n\<rparr>
          in case marshalReq req of
               Inl err \<Rightarrow> (cli1, None, Some (ErrWrap ''marshal request payload'' err))
             | Inr payload \<Rightarrow>
                 (case conn_send serviceCode payload (cl_conn cli1) of
                    (conn', err) \<Rightarrow> (cli1\<lparr>cl_conn := conn'\<rparr>, Some req, err)))"

text \<open>\<open>Call\<close> after sending: it registers its channel, waits, and removes the channel.\<close>

definition call_register :: "32 word \<Rightarrow> 'c Client \<Rightarrow> 'c Client" where
  "call_register reqId cli = cli\<lparr>cl_await := (cl_await cli)(reqId \<mapsto> [])\<rparr>"

definition call_unregister :: "32 word \<Rightarrow> 'c Client \<Rightarrow> 'c Client" where
  "call_unregister reqId cli = cli\<lparr>cl_await := (cl_await cli)(reqId := None)\<rparr>"

text \<open>What \<open>Call\<close> makes of its reply; an RPC error with code OK is no error.\<close>

definition call_result ::
  "(byte list \<Rightarrow> go_error + RPCError) \<Rightarrow> (byte list \<Rightarrow> go_error + 'o) \<Rightarrow> Reply \<Rightarrow> go_error + 'o option" where
  "call_result unmarshalErr unmarshalOut reply =
     (if rep_ServiceCode reply = 0 \<and> rep_Code reply = ReplyCode_RPC_ERROR then
        (case unmarshalErr (rep_Data reply) of
           Inl err \<Rightarrow> Inl (ErrWrap ''unmarshal rpc error'' err)
         | Inr e \<Rightarrow>
             if st_Code (re_Status e) = codes_OK then Inr None
             else Inl (ErrStatus (st_Code (re_Status e)) (st_Message (re_Status e))))
      else (case unmarshalOut (rep_Data reply) of
              Inl err \<Rightarrow> Inl (ErrWrap ''unmarshal reply'' err)
            | Inr res \<Rightarrow> Inr (Some res)))"

text \<open>
  A whole \<open>Call\<close>: \<open>wait\<close> is what other goroutines do to the client while the call waits,
  \<open>ctxErr\<close> the error of the context when it ends first.
\<close>

definition Call ::
  "('i \<Rightarrow> go_error + byte list) \<Rightarrow> (Request \<Rightarrow> go_error + byte list) \<Rightarrow>
   (int \<Rightarrow> byte list \<Rightarrow> 'c \<Rightarrow> 'c \<times> go_error option) \<Rightarrow> (byte list \<Rightarrow> go_error + RPCError) \<Rightarrow>
   (byte list \<Rightarrow> go_error + 'o) \<Rightarrow> ('c Client \<Rightarrow> 'c Client) \<Rightarrow> go_error \<Rightarrow> int \<Rightarrow> string \<Rightarrow> 'i \<Rightarrow>
   (Request \<Rightarrow> Request) list \<Rightarrow> 'c Client \<Rightarrow> 'c Client \<times> (go_error + 'o option)" where
  "Call marshalIn marshalReq conn_send unmarshalErr unmarshalOut wait ctxErr serviceCode meth input options cli =
     (case cli_send marshalIn marshalReq conn_send serviceCode meth input options cli of
        (cli1, _, Some err) \<Rightarrow> (cli1, Inl (ErrWrap ''send request'' err))
      | (cli1, None, None) \<Rightarrow> (cli1, Inr None)
      | (cli1, Some req, None) \<Rightarrow>
          if req_NoReply req then (cli1, Inr None)
          else let cli2 = wait (call_register (req_Id req) cli1)
               in (call_unregister (req_Id req) cli2,
                   case cl_await cli2 (req_Id req) of
                     Some (reply # _) \<Rightarrow> call_result unmarshalErr unmarshalOut reply
                   | _ \<Rightarrow> Inl ctxErr))"

definition CallNoReply ::
  "('i \<Rightarrow> go_error + byte list) \<Rightarrow> (Request \<Rightarrow> go_error + byte list) \<Rightarrow>
   (int \<Rightarrow> byte list \<Rightarrow> 'c \<Rightarrow> 'c \<times> go_error option) \<Rightarrow> (byte list \<Rightarrow> go_error + RPCError) \<Rightarrow>
   (byte list \<Rightarrow> go_error + 'o) \<Rightarrow> ('c Client \<Rightarrow> 'c Client) \<Rightarrow> go_error \<Rightarrow> int \<Rightarrow> string \<Rightarrow> 'i \<Rightarrow>
   (Request \<Rightarrow> Request) list \<Rightarrow> 'c Client \<Rightarrow> 'c Client \<times> (go_error + 'o option)" where
  "CallNoReply marshalIn marshalReq conn_send unmarshalErr unmarshalOut wait ctxErr serviceCode meth input options cli =
     Call marshalIn marshalReq conn_send unmarshalErr unmarshalOut wait ctxErr serviceCode meth input
       (options @ [WithNoReply]) cli"

text \<open>
  A round of \<open>receiveLoop\<close>. A full channel blocks it. After \<open>Close\<close> both cases of its
  select are ready, and choosing the send on the closed channel panics.
\<close>

datatype 'c recv_outcome = RecvOk "'c Client" | RecvBlocked | RecvReturned | RecvPanic string

definition cli_receive :: "bool \<Rightarrow> Reply \<Rightarrow> 'c Client \<Rightarrow> 'c recv_outcome" where
  "cli_receive choose_done reply cli =
     (case cl_await cli (rep_RequestId reply) of
        Some [] \<Rightarrow> RecvOk (cli\<lparr>cl_await := (cl_await cli)(rep_RequestId reply \<mapsto> [reply])\<rparr>)
      | Some (_ # _) \<Rightarrow> RecvBlocked
      | None \<Rightarrow>
          if cl_done cli then (if choose_done then RecvReturned else RecvPanic ''send on closed channel'')
          else RecvOk (cli\<lparr>cl_replyC := cl_replyC cli @ [reply]\<rparr>))"

text \<open>What a subscription's callback sees of the replies; an undecodable one panics.\<close>

definition cli_Subscribe ::
  "(byte list \<Rightarrow> go_error + 'm) \<Rightarrow> int \<Rightarrow> int \<Rightarrow> Reply list \<Rightarrow> ('m \<times> Reply) list go" where
  "cli_Subscribe unmarshal serviceCode messageCode replies =
     go_fold (\<lambda>reply acc.
         case unmarshal (rep_Data reply) of Inl err \<Rightarrow> Panic (err_text err) | Inr m \<Rightarrow> Ok (acc @ [(m, reply)]))
       (filter (\<lambda>r. rep_ServiceCode r = serviceCode \<and> rep_Code r = messageCode) replies) []"

text \<open>The checks of \<open>newHandler\<close>.\<close>

record callback_sig =
  cb_isFunc :: bool
  cb_firstIsMessage :: bool
  cb_secondIsReply :: bool
  cb_numIn :: nat

definition newHandler :: "callback_sig \<Rightarrow> unit go" where
  "newHandler h =
     (if \<not> cb_isFunc h then Panic ''callback must be a function''
      else if cb_numIn h \<noteq> 2 then Panic ''callback must have to arguments''
      else if \<not> cb_firstIsMessage h then Panic ''callback's first argument must be proto.Message''
      else if \<not> cb_secondIsReply h then Panic ''callback's second argument must be *nh.Reply''
      else Ok ())"

definition cli_Close :: "('c \<Rightarrow> 'c go) \<Rightarrow> 'c Client \<Rightarrow> 'c Client go" where
  "cli_Close conn_Close cli =
     go_bind (conn_Close (cl_conn cli)) (\<lambda>conn'.
       if cl_done cli then Panic ''close of closed channel'' else Ok (cli\<lparr>cl_conn := conn', cl_done := True\<rparr>))"

text \<open>\<open>pingLoop\<close> over its ticks: \<open>done\<close> may be seen closed, and a failed ping is only logged.\<close>

fun pingLoop :: "('c \<Rightarrow> 'c \<times> go_error option) \<Rightarrow> bool list \<Rightarrow> 'c \<Rightarrow> 'c" where
  "pingLoop ping [] conn = conn"
| "pingLoop ping (is_done # ticks) conn = (if is_done then conn else pingLoop ping ticks (fst (ping conn)))"

section \<open>The transport a client relies on\<close>

text \<open>
  What the client needs of a connection: \<open>sent c ms\<close> says that \<open>ms\<close> is the sequence of
  messages the peer can read from \<open>c\<close>, pings left out.
\<close>

locale client_transport =
  fixes send :: "int \<Rightarrow> byte list \<Rightarrow> 'c \<Rightarrow> 'c \<times> go_error option"
    and ping :: "'c \<Rightarrow> 'c \<times> go_error option"
    and sent :: "'c \<Rightarrow> byte list list \<Rightarrow> bool"
  assumes send_ok: "sent c ms \<Longrightarrow> d \<noteq> [] \<Longrightarrow> send svc d c = (c', None) \<Longrightarrow> sent c' (ms @ [d])"
    and send_fail: "send svc d c = (c', Some e) \<Longrightarrow> c' = c"
    and ping_keeps: "sent c ms \<Longrightarrow> sent (fst (ping c)) ms"
begin

lemma pingLoop_keeps: "sent c ms \<Longrightarrow> sent (pingLoop ping ticks c) ms"
  by (induction ticks arbitrary: c) (auto intro: ping_keeps)

lemma cli_send_sent:
  assumes "sent (cl_conn cli) ms"
    and "cli_send marshalIn marshalReq send svc m input opts cli = (cli', Some req, None)"
    and "marshalReq req = Inr d" and "d \<noteq> []"
  shows "sent (cl_conn cli') (ms @ [d])"
  using assms send_ok [OF assms(1,4)]
  by (auto simp: cli_send_def Let_def split: sum.splits prod.splits)

lemma cli_send_failed:
  assumes "cli_send marshalIn marshalReq send svc m input opts cli = (cli', req, Some e)"
  shows "cl_conn cli' = cl_conn cli"
  using assms send_fail by (fastforce simp: cli_send_def Let_def split: sum.splits prod.splits)

end

definition tcp_sent :: "tcpConn \<Rightarrow> byte list list \<Rightarrow> bool" where
  "tcp_sent tc ms \<longleftrightarrow> (\<exists>fs. tc_out tc = concat (map frame fs) \<and> filter (\<lambda>d. d \<noteq> []) fs = ms)"

definition ws_sent :: "wsConn \<Rightarrow> byte list list \<Rightarrow> bool" where
  "ws_sent wc ms \<longleftrightarrow> wc_out wc = ms"

lemma tcp_sent_snoc:
  assumes "tcp_sent tc ms"
  shows "tcp_sent (tc\<lparr>tc_out := tc_out tc @ frame d\<rparr>) (ms @ (if d = [] then [] else [d]))"
proof -
  obtain fs where "tc_out tc = concat (map frame fs)" "filter (\<lambda>d. d \<noteq> []) fs = ms"
    using assms by (auto simp: tcp_sent_def)
  then show ?thesis unfolding tcp_sent_def by (intro exI [of _ "fs @ [d]"]) simp
qed

interpretation tcp_tr: client_transport "tcpc_send w" "tcpc_ping w" tcp_sent
proof unfold_locales
  show "tcp_sent c ms \<Longrightarrow> d \<noteq> [] \<Longrightarrow> tcpc_send w svc d c = (c', None) \<Longrightarrow> tcp_sent c' (ms @ [d])" for c ms d svc c'
    using tcp_sent_snoc [of c ms d] by (auto simp: tcpc_send_def split: option.splits)
  show "tcpc_send w svc d c = (c', Some e) \<Longrightarrow> c' = c" for svc d c c' e
    by (auto simp: tcpc_send_def split: option.splits)
  show "tcp_sent c ms \<Longrightarrow> tcp_sent (fst (tcpc_ping w c)) ms" for c ms
    using tcp_sent_snoc [of c ms "[]"] by (auto simp: tcpc_ping_def tcpc_send_def split: option.splits)
qed

interpretation ws_tr: client_transport "wsc_send w" "wsc_ping e" ws_sent
  by unfold_locales (auto simp: wsc_send_def wsc_ping_def ws_sent_def split: option.splits)

section \<open>Requests arrive\<close>

text \<open>The gateway's side: \<open>n\<close> calls of \<open>Recv\<close>.\<close>

fun tcp_recvs ::
  "(nat \<Rightarrow> nat) \<Rightarrow> (byte list \<Rightarrow> go_error + Request) \<Rightarrow> int \<Rightarrow> nat \<Rightarrow> tcpSession \<Rightarrow> Message \<Rightarrow> Request list option" where
  "tcp_recvs growcap unmarshal now 0 ts msg = Some []"
| "tcp_recvs growcap unmarshal now (Suc n) ts msg =
     (case tcp_Recv growcap unmarshal now ts msg of
        Ok (ts', Inr req) \<Rightarrow> map_option (Cons req) (tcp_recvs growcap unmarshal now n ts' msg)
      | _ \<Rightarrow> None)"

lemma filter_first:
  "filter (\<lambda>d. d \<noteq> []) fs = d # ms \<Longrightarrow> \<exists>k fs'. fs = replicate k [] @ d # fs' \<and> filter (\<lambda>d. d \<noteq> []) fs' = ms"
proof (induction fs)
  case (Cons f fs)
  show ?case
  proof (cases "f = []")
    case True
    then obtain k fs' where "fs = replicate k [] @ d # fs'" "filter (\<lambda>d. d \<noteq> []) fs' = ms"
      using Cons by auto
    then show ?thesis using True by (intro exI [of _ "Suc k"] exI [of _ fs']) simp
  next
    case False
    then show ?thesis using Cons.prems by (intro exI [of _ 0] exI [of _ fs]) simp
  qed
qed simp

lemma tcp_recvs_frames:
  assumes "msg_ok msg" and "\<And>s. s \<le> growcap s"
    and "\<forall>r \<in> set reqs. enc r \<noteq> [] \<and> int (length (enc r)) \<le> MaxMessageSize \<and> unmarshal (enc r) = Inr r"
    and "rd_bytes (ts_r ts) = concat (map frame fs)" and "filter (\<lambda>d. d \<noteq> []) fs = map enc reqs"
  shows "tcp_recvs growcap unmarshal now (length reqs) ts msg = Some reqs"
  using assms(3-5)
proof (induction reqs arbitrary: fs ts)
  case (Cons r reqs)
  obtain k fs' where fs: "fs = replicate k [] @ enc r # fs'" "filter (\<lambda>d. d \<noteq> []) fs' = map enc reqs"
    using filter_first [of fs "enc r" "map enc reqs"] Cons.prems(3) by auto
  let ?ts = "ts\<lparr>ts_r := (ts_r ts)\<lparr>rd_bytes := concat (map frame fs')\<rparr>, ts_lastRWTime := now\<rparr>"
  have "rd_bytes (ts_r ts) = concat (replicate k (frame [])) @ frame (enc r) @ concat (map frame fs')"
    using Cons.prems(2) fs(1) by (simp add: map_replicate_const)
  then have "tcp_Recv growcap unmarshal now ts msg = Ok (?ts, Inr r)"
    using tcp_Recv_frame [of msg growcap "enc r" ts k "concat (map frame fs')" unmarshal r now]
      assms(1,2) Cons.prems(1) by simp
  then show ?case using Cons.IH [of ?ts fs'] Cons.prems(1) fs(2) by simp
qed simp

section \<open>Properties\<close>

text \<open>
  C14. Requests reach the gateway as they were sent: when a TCP client has sent the requests
  \<open>reqs\<close>, with any number of pings in between, then after one more \<open>send\<close> the gateway's
  session, reading from the connection, receives exactly these requests and the new one, in
  order.
\<close>

theorem client_requests_arrive:
  assumes "tcp_sent (cl_conn cli) (map enc reqs)"
    and "cli_send marshalIn marshalReq (tcpc_send w) svc m input opts cli = (cli', Some req, None)"
    and "\<forall>r \<in> set (reqs @ [req]). marshalReq r = Inr (enc r) \<and> enc r \<noteq> [] \<and>
      int (length (enc r)) \<le> MaxMessageSize \<and> unmarshal (enc r) = Inr r"
    and "rd_bytes (ts_r ts) = tc_out (pingLoop (tcpc_ping w) ticks (cl_conn cli'))"
    and "msg_ok msg" and "\<And>s. s \<le> growcap s"
  shows "tcp_recvs growcap unmarshal now (Suc (length reqs)) ts msg = Some (reqs @ [req])"
proof -
  have "tcp_sent (cl_conn cli') (map enc (reqs @ [req]))"
    using tcp_tr.cli_send_sent [OF assms(1,2), of "enc req"] assms(3) by simp
  then have "tcp_sent (pingLoop (tcpc_ping w) ticks (cl_conn cli')) (map enc (reqs @ [req]))"
    by (rule tcp_tr.pingLoop_keeps)
  then obtain fs where "rd_bytes (ts_r ts) = concat (map frame fs)" "filter (\<lambda>d. d \<noteq> []) fs = map enc (reqs @ [req])"
    using assms(4) by (auto simp: tcp_sent_def)
  from tcp_recvs_frames [OF assms(5,6) _ this, of unmarshal now] show ?thesis
    using assms(3) by simp
qed

definition demo_client :: "tcpConn Client" where
  "demo_client = newClient \<lparr>tc_out = frame [], tc_done = False\<rparr>"

text \<open>A request and a codec for it, for the witnesses.\<close>

definition demo_say :: Request where
  "demo_say = empty_Request\<lparr>req_Id := 1, req_ServiceCode := 7, req_Method := ''Say''\<rparr>"

theorem client_requests_arrive_witness:
  "\<exists>cli'. cli_send (\<lambda>i. Inr []) (\<lambda>r. Inr [8, 7]) (tcpc_send (\<lambda>_. None)) 7 ''Say'' () [] demo_client =
      (cli', Some demo_say, None) \<and>
    tcp_recvs id (\<lambda>d. Inr demo_say) 3 1
      (newTCPSession ''s'' 0 \<lparr>rd_bytes = tc_out (cl_conn cli'), rd_err = EOF\<rparr> [] []) pool_msg = Some [demo_say]"
proof -
  let ?send = "cli_send (\<lambda>i. Inr []) (\<lambda>r. Inr [8, 7]) (tcpc_send (\<lambda>_. None)) 7 ''Say'' () [] demo_client"
  obtain cli' where run: "?send = (cli', Some demo_say, None)"
    by (simp add: cli_send_def demo_client_def newClient_def tcpc_send_def SendBytes_frame demo_say_def
        empty_Request_def)
  have "tcp_sent (cl_conn demo_client) (map (\<lambda>_. [8, 7]) ([] :: Request list))"
    unfolding tcp_sent_def by (intro exI [of _ "[[]]"]) (simp add: demo_client_def newClient_def)
  from client_requests_arrive [OF this run, where ticks = "[]" and msg = pool_msg and growcap = id and now = 3
      and unmarshal = "\<lambda>d. Inr demo_say"
      and ts = "newTCPSession ''s'' 0 \<lparr>rd_bytes = tc_out (cl_conn cli'), rd_err = EOF\<rparr> [] []"]
  show ?thesis using run by (simp add: MaxMessageSize_def newTCPSession_def del: tcp_recvs.simps)
qed

section \<open>Sequence numbers\<close>

fun cli_sends ::
  "('i \<Rightarrow> go_error + byte list) \<Rightarrow> (Request \<Rightarrow> go_error + byte list) \<Rightarrow>
   (int \<Rightarrow> byte list \<Rightarrow> 'c \<Rightarrow> 'c \<times> go_error option) \<Rightarrow> (int \<times> string \<times> 'i \<times> (Request \<Rightarrow> Request) list) list \<Rightarrow>
   'c Client \<Rightarrow> Request list" where
  "cli_sends marshalIn marshalReq send [] cli = []"
| "cli_sends marshalIn marshalReq send ((svc, m, input, opts) # ps) cli =
     (case cli_send marshalIn marshalReq send svc m input opts cli of
        (cli', req, err) \<Rightarrow>
          (case req of Some r \<Rightarrow> [r] | None \<Rightarrow> []) @ cli_sends marshalIn marshalReq send ps cli')"

text \<open>Options that leave the number of a request alone, as the three of the package do.\<close>

definition keeps_Id :: "(Request \<Rightarrow> Request) \<Rightarrow> bool" where
  "keeps_Id opt \<longleftrightarrow> (\<forall>req. req_Id (opt req) = req_Id req)"

lemma option_keeps_Id: "keeps_Id (WithNode n)" "keeps_Id WithNoReply" "keeps_Id (WithStream s)"
  by (simp_all add: keeps_Id_def WithNode_def WithNoReply_def WithStream_def)

lemma fold_keeps_Id:
  "\<forall>opt \<in> set opts. keeps_Id opt \<Longrightarrow> req_Id (fold (\<lambda>opt req. opt req) opts req) = req_Id req"
  by (induction opts arbitrary: req) (simp_all add: keeps_Id_def)

lemma cli_send_Id:
  assumes "\<forall>opt \<in> set opts. keeps_Id opt" and "marshalIn input = Inr d"
    and "\<And>r. \<exists>p. marshalReq r = Inr p"
  shows "\<exists>cli' req err. cli_send marshalIn marshalReq send svc m input opts cli = (cli', Some req, err) \<and>
    req_Id req = cl_seq cli + 1 \<and> cl_seq cli' = cl_seq cli + 1"
proof -
  let ?req = "fold (\<lambda>opt req. opt req) opts
    (empty_Request\<lparr>req_Id := cl_seq cli + 1, req_Data := d, req_ServiceCode := svc, req_Method := m\<rparr>)"
  obtain p where "marshalReq ?req = Inr p" using assms(3) by blast
  then show ?thesis
    using assms(2) fold_keeps_Id [OF assms(1)] by (simp add: cli_send_def Let_def split: prod.split)
qed

lemma cli_sends_Ids:
  assumes "\<forall>(svc, m, input, opts) \<in> set ps. (\<forall>opt \<in> set opts. keeps_Id opt) \<and> (\<exists>d. marshalIn input = Inr d)"
    and "\<And>r. \<exists>p. marshalReq r = Inr p"
  shows "map req_Id (cli_sends marshalIn marshalReq send ps cli) =
    map (\<lambda>i. cl_seq cli + of_nat i) [1..<Suc (length ps)]"
  using assms(1)
proof (induction ps arbitrary: cli)
  case (Cons a ps)
  obtain svc m input opts where a: "a = (svc, m, input, opts)" by (cases a)
  obtain d where d: "marshalIn input = Inr d" "\<forall>opt \<in> set opts. keeps_Id opt" using Cons.prems a by auto
  obtain cli' req err where s: "cli_send marshalIn marshalReq send svc m input opts cli = (cli', Some req, err)"
    "req_Id req = cl_seq cli + 1" "cl_seq cli' = cl_seq cli + 1"
    using cli_send_Id [of opts marshalIn input d marshalReq send svc m cli] d assms(2) by auto
  have "map (\<lambda>i. cl_seq cli + of_nat i) [1..<Suc (length (a # ps))] =
      (cl_seq cli + 1) # map (\<lambda>i. cl_seq cli + of_nat i) (map Suc [1..<Suc (length ps)])"
    unfolding map_Suc_upt by (subst upt_conv_Cons) (simp_all del: upt_Suc)
  also have "map (\<lambda>i. cl_seq cli + of_nat i) (map Suc [1..<Suc (length ps)]) =
      map (\<lambda>i. cl_seq cli' + of_nat i) [1..<Suc (length ps)]"
    unfolding map_map comp_def s(3) by (simp add: algebra_simps del: upt_Suc)
  finally show ?case
    using Cons.IH [of cli'] Cons.prems s a by (simp del: upt_Suc)
qed simp

lemma mod_range_inj: "inj_on (\<lambda>x. x mod N) {1..n} \<longleftrightarrow> n \<le> N" if "0 < N" for n N :: nat
proof
  assume inj: "inj_on (\<lambda>x. x mod N) {1..n}"
  show "n \<le> N"
  proof (rule ccontr)
    assume "\<not> n \<le> N"
    then have "1 \<in> {1..n}" "N + 1 \<in> {1..n}" using that by auto
    moreover have "1 mod N = (N + 1) mod N" using mod_add_self1 [of N 1] by simp
    ultimately have "1 = N + 1" using inj_onD [OF inj] by blast
    then show False using that by simp
  qed
next
  assume n: "n \<le> N"
  have "x mod N = (if x = N then 0 else x)" if "x \<in> {1..n}" for x using that n by auto
  then show "inj_on (\<lambda>x. x mod N) {1..n}"
    using that by (intro inj_onI) (auto split: if_splits)
qed

lemma of_nat_32_inj: "inj_on (of_nat :: nat \<Rightarrow> 32 word) {1..n} \<longleftrightarrow> n \<le> 2 ^ 32"
proof -
  have "inj_on (of_nat :: nat \<Rightarrow> 32 word) {1..n} \<longleftrightarrow> inj_on (\<lambda>x. x mod 2 ^ 32) {1..n}"
    unfolding inj_on_def word_of_nat_eq_iff take_bit_eq_mod by (simp only: len_num1 len_num0 len_bit0 len_bit1) simp
  also have "\<dots> \<longleftrightarrow> n \<le> 2 ^ 32" by (rule mod_range_inj) (rule zero_less_power, simp)
  finally show ?thesis .
qed

lemma multiple_in_range: "(\<exists>i\<in>{1..n}. N dvd i) \<longleftrightarrow> N \<le> n" if "0 < N" for n N :: nat
proof
  assume "\<exists>i\<in>{1..n}. N dvd i"
  then show "N \<le> n" by (auto dest!: dvd_imp_le)
next
  assume "N \<le> n"
  then show "\<exists>i\<in>{1..n}. N dvd i" using that by (intro bexI [of _ N]) auto
qed

lemma of_nat_32_zero: "(of_nat i :: 32 word) = 0 \<longleftrightarrow> 2 ^ 32 dvd i"
  unfolding word_of_nat_eq_0_iff by simp

text \<open>
  Sequence numbers at their width: the requests of a fresh client are numbered from 1 on
  modulo two to the 32; they have pairwise different numbers exactly as long as there are
  at most that many, and reach the number 0 of unsolicited messages only when the counter
  wraps.
\<close>

theorem request_numbers:
  fixes conn :: 'c and send :: "int \<Rightarrow> byte list \<Rightarrow> 'c \<Rightarrow> 'c \<times> go_error option"
    and ps :: "(int \<times> string \<times> 'i \<times> (Request \<Rightarrow> Request) list) list"
  assumes "\<forall>(svc, m, input, opts) \<in> set ps. (\<forall>opt \<in> set opts. keeps_Id opt) \<and> (\<exists>d. marshalIn input = Inr d)"
    and "\<And>r. \<exists>p. marshalReq r = Inr p"
  defines "ids \<equiv> map req_Id (cli_sends marshalIn marshalReq send ps (newClient conn))"
  shows "ids = map of_nat [1..<Suc (length ps)] \<and> (distinct ids \<longleftrightarrow> length ps \<le> 2 ^ 32) \<and>
    (0 \<in> set ids \<longleftrightarrow> 2 ^ 32 \<le> length ps)"
proof -
  have ids: "ids = map of_nat [1..<Suc (length ps)]"
    using cli_sends_Ids [where send = send and cli = "newClient conn", OF assms(1,2)]
    by (simp add: ids_def newClient_def del: upt_Suc)
  have rng: "set [1..<Suc (length ps)] = {1..length ps}" by (simp only: set_upt atLeastLessThanSuc_atLeastAtMost)
  have "distinct ids \<longleftrightarrow> length ps \<le> 2 ^ 32"
    unfolding ids distinct_map rng of_nat_32_inj by (simp only: distinct_upt simp_thms)
  moreover have "0 \<in> set ids \<longleftrightarrow> (\<exists>i\<in>{1..length ps}. 2 ^ 32 dvd i)"
    unfolding ids set_map rng image_iff using of_nat_32_zero by metis
  then have "0 \<in> set ids \<longleftrightarrow> 2 ^ 32 \<le> length ps"
    by (subst (asm) multiple_in_range) (rule zero_less_power, simp)
  ultimately show ?thesis using ids by blast
qed

theorem request_numbers_witness:
  "map req_Id (cli_sends (\<lambda>i. Inr []) (\<lambda>r. Inr []) (tcpc_send (\<lambda>_. None))
     [(7, ''Say'', (), [WithNode ''n'']), (7, ''Bye'', (), [WithNoReply])] (newClient \<lparr>tc_out = [], tc_done = False\<rparr>)) = [1, 2]"
proof -
  let ?ps = "[(7 :: int, ''Say'', (), [WithNode ''n'']), (7, ''Bye'', (), [WithNoReply])]"
  have "\<forall>(svc, m, input, opts) \<in> set ?ps. (\<forall>opt \<in> set opts. keeps_Id opt) \<and> (\<exists>d. Inr [] = (Inr d :: go_error + byte list))"
    by (simp add: option_keeps_Id)
  from request_numbers [where ps = ?ps and marshalIn = "\<lambda>i. Inr []" and marshalReq = "\<lambda>r. Inr []"
      and send = "tcpc_send (\<lambda>_. None)" and conn = "\<lparr>tc_out = [], tc_done = False\<rparr>", OF this]
  show ?thesis by (simp add: upt_rec del: cli_sends.simps)
qed

section \<open>Replies and calls\<close>

text \<open>Everything that can happen to a client, in any order.\<close>

inductive cli_reach :: "'c Client \<Rightarrow> bool" where
  cr_new: "cli_reach (newClient conn)"
| cr_send: "cli_reach cli \<Longrightarrow> cli_send (\<lambda>_. encoded) marshalReq send svc m () opts cli = (cli', req, err) \<Longrightarrow> cli_reach cli'"
| cr_register: "cli_reach cli \<Longrightarrow> cli_reach (call_register i cli)"
| cr_unregister: "cli_reach cli \<Longrightarrow> cli_reach (call_unregister i cli)"
| cr_receive: "cli_reach cli \<Longrightarrow> cli_receive ch reply cli = RecvOk cli' \<Longrightarrow> cli_reach cli'"
| cr_close: "cli_reach cli \<Longrightarrow> cli_Close conn_Close cli = Ok cli' \<Longrightarrow> cli_reach cli'"

lemma cli_send_await:
  "cli_send marshalIn marshalReq send svc m input opts cli = (cli', req, err) \<Longrightarrow> cl_await cli' = cl_await cli"
  by (auto simp: cli_send_def Let_def split: sum.splits prod.splits)

lemma cli_send_encoded:
  "cli_send marshalIn marshalReq send svc m input opts cli = cli_send (\<lambda>_. marshalIn input) marshalReq send svc m () opts cli"
  by (simp add: cli_send_def)

definition await_ok :: "'c Client \<Rightarrow> bool" where
  "await_ok cli \<longleftrightarrow> (\<forall>i rs. cl_await cli i = Some rs \<longrightarrow> length rs \<le> 1 \<and> (\<forall>r \<in> set rs. rep_RequestId r = i))"

lemma await_ok_same: "cl_await cli' = cl_await cli \<Longrightarrow> await_ok cli \<Longrightarrow> await_ok cli'"
  by (simp add: await_ok_def)

lemma await_ok_upd:
  assumes "await_ok cli" and "length rs \<le> 1" and "\<forall>r \<in> set rs. rep_RequestId r = i"
  shows "await_ok (cli\<lparr>cl_await := (cl_await cli)(i \<mapsto> rs)\<rparr>)"
  using assms by (simp add: await_ok_def)

lemma cli_receive_Ok:
  assumes "cli_receive ch reply cli = RecvOk cli'"
  shows "cli' = cli\<lparr>cl_await := (cl_await cli)(rep_RequestId reply \<mapsto> [reply])\<rparr> \<or> cl_await cli' = cl_await cli"
  using assms by (auto simp: cli_receive_def split: option.splits list.splits if_splits)

lemma cli_reach_await: "cli_reach cli \<Longrightarrow> await_ok cli"
proof (induction rule: cli_reach.induct)
  case (cr_new conn)
  then show ?case by (simp add: await_ok_def newClient_def)
next
  case (cr_send cli encoded marshalReq send svc m opts cli' req err)
  from cli_send_await [OF cr_send.hyps(2)] cr_send.IH show ?case by (rule await_ok_same)
next
  case (cr_register cli j)
  then show ?case unfolding call_register_def by (intro await_ok_upd) simp_all
next
  case (cr_unregister cli j)
  then show ?case by (simp add: call_unregister_def await_ok_def)
next
  case (cr_receive cli ch reply cli')
  from cli_receive_Ok [OF cr_receive.hyps(2)] show ?case
  proof
    assume "cli' = cli\<lparr>cl_await := (cl_await cli)(rep_RequestId reply \<mapsto> [reply])\<rparr>"
    then show ?thesis using await_ok_upd [OF cr_receive.IH, of "[reply]"] by simp
  qed (rule await_ok_same [OF _ cr_receive.IH])
next
  case (cr_close cli conn_Close cli')
  have "cl_await cli' = cl_await cli"
    using cr_close.hyps(2) by (auto simp: cli_Close_def go_bind_Ok_iff split: if_splits)
  then show ?case using cr_close.IH by (rule await_ok_same)
qed

text \<open>
  C16. A call is answered with its own reply: whatever other goroutines do while it waits, a
  call returns the context's error or what it makes of a reply that carries the number of
  its request, and it leaves no channel behind.
\<close>

theorem call_own_reply:
  assumes "cli_reach cli" and "\<And>c. cli_reach c \<Longrightarrow> cli_reach (wait c)"
    and "cli_send marshalIn marshalReq send svc m input opts cli = (cli1, Some req, None)" and "\<not> req_NoReply req"
    and "Call marshalIn marshalReq send uerr uout wait ctxErr svc m input opts cli = (cli2, res)"
  shows "cl_await cli2 (req_Id req) = None \<and>
    (res = Inl ctxErr \<or> (\<exists>reply. rep_RequestId reply = req_Id req \<and> res = call_result uerr uout reply))"
proof -
  let ?w = "wait (call_register (req_Id req) cli1)"
  have "cli_reach cli1" by (rule cr_send [OF assms(1) assms(3) [unfolded cli_send_encoded [of marshalIn]]])
  then have r: "cli_reach ?w" by (intro assms(2) cr_register)
  have c: "cli2 = call_unregister (req_Id req) ?w"
    "res = (case cl_await ?w (req_Id req) of Some (reply # _) \<Rightarrow> call_result uerr uout reply | _ \<Rightarrow> Inl ctxErr)"
    using assms(3-5) by (simp_all add: Call_def Let_def)
  show ?thesis
  proof (cases "cl_await ?w (req_Id req)")
    case None
    then show ?thesis using c by (simp add: call_unregister_def)
  next
    case (Some rs)
    then have "\<forall>r \<in> set rs. rep_RequestId r = req_Id req"
      using cli_reach_await [OF r] by (simp add: await_ok_def)
    then show ?thesis using c Some by (cases rs) (auto simp: call_unregister_def)
  qed
qed

definition demo_wait :: "tcpConn Client \<Rightarrow> tcpConn Client" where
  "demo_wait c = (case cli_receive True (empty_Reply\<lparr>rep_RequestId := 1, rep_Code := 4\<rparr>) c of RecvOk c' \<Rightarrow> c' | _ \<Rightarrow> c)"

lemma demo_wait_reach: "cli_reach c \<Longrightarrow> cli_reach (demo_wait c)"
  unfolding demo_wait_def by (auto intro: cr_receive split: recv_outcome.split)

lemma demo_client_send:
  "\<exists>cli1. cli_send (\<lambda>i. Inr []) (\<lambda>r. Inr [8, 7]) (tcpc_send (\<lambda>_. None)) 7 ''Say'' () [] demo_client =
      (cli1, Some demo_say, None) \<and> cl_await cli1 = Map.empty \<and> \<not> cl_done cli1"
  by (simp add: cli_send_def demo_client_def newClient_def tcpc_send_def SendBytes_frame demo_say_def empty_Request_def)

theorem call_own_reply_witness:
  "\<exists>cli2 res. Call (\<lambda>i. Inr []) (\<lambda>r. Inr [8, 7]) (tcpc_send (\<lambda>_. None)) (\<lambda>d. Inl EOF) Inr demo_wait CtxDeadlineExceeded
     7 ''Say'' () [] demo_client = (cli2, res) \<and> res = Inr (Some []) \<and> cl_await cli2 1 = None"
proof -
  obtain cli1 where s: "cli_send (\<lambda>i. Inr []) (\<lambda>r. Inr [8, 7]) (tcpc_send (\<lambda>_. None)) 7 ''Say'' () [] demo_client =
      (cli1, Some demo_say, None)" "cl_await cli1 = Map.empty" using demo_client_send by blast
  have reach: "cli_reach demo_client" unfolding demo_client_def by (rule cr_new)
  have nr: "\<not> req_NoReply demo_say" "req_Id demo_say = 1" by (simp_all add: demo_say_def empty_Request_def)
  obtain cli2 res where c: "Call (\<lambda>i. Inr []) (\<lambda>r. Inr [8, 7]) (tcpc_send (\<lambda>_. None)) (\<lambda>d. Inl EOF) Inr demo_wait
      CtxDeadlineExceeded 7 ''Say'' () [] demo_client = (cli2, res)" by (rule prod.exhaust)
  have "res = Inr (Some [])"
    using c s nr by (simp add: Call_def Let_def demo_wait_def cli_receive_def call_register_def call_result_def
        empty_Reply_def ReplyCode_RPC_ERROR_def)
  moreover have "cl_await cli2 1 = None"
    using call_own_reply [OF reach demo_wait_reach s(1) nr(1) c] nr(2) by simp
  ultimately show ?thesis using c by blast
qed

text \<open>
  A reply that is faster than the caller is lost to it: \<open>Call\<close> registers its channel after
  sending, so a reply received in between is handed to the subscribers, and the call waits
  on an empty channel.
\<close>

theorem early_reply_lost:
  assumes "cli_send marshalIn marshalReq send svc m input opts cli = (cli1, Some req, None)"
    and "cl_await cli (req_Id req) = None" and "\<not> cl_done cli1" and "rep_RequestId reply = req_Id req"
  shows "\<exists>cli2. cli_receive ch reply cli1 = RecvOk cli2 \<and> reply \<in> set (cl_replyC cli2) \<and>
    cl_await (call_register (req_Id req) cli2) (req_Id req) = Some []"
  using assms cli_send_await [OF assms(1)] by (simp add: cli_receive_def call_register_def)

theorem early_reply_lost_witness:
  "\<exists>(cli1 :: tcpConn Client) cli2. cli_receive True (empty_Reply\<lparr>rep_RequestId := 1\<rparr>) cli1 = RecvOk cli2 \<and>
     cl_await (call_register 1 cli2) 1 = Some []"
proof -
  obtain cli1 where s: "cli_send (\<lambda>i. Inr []) (\<lambda>r. Inr [8, 7]) (tcpc_send (\<lambda>_. None)) 7 ''Say'' () [] demo_client =
      (cli1, Some demo_say, None)" "\<not> cl_done cli1" using demo_client_send by blast
  have "cl_await demo_client (req_Id demo_say) = None" "req_Id demo_say = 1"
    by (simp_all add: demo_client_def newClient_def demo_say_def)
  then show ?thesis
    using early_reply_lost [OF s(1) _ s(2), of "empty_Reply\<lparr>rep_RequestId := 1\<rparr>" True] by auto
qed

text \<open>
  Closing a client can crash it: after \<open>Close\<close> a reply that no call waits for meets a select
  in which sending on the closed channel is ready too, and choosing it panics.
\<close>

theorem receive_after_close:
  assumes "cli_Close conn_Close cli = Ok cli'" and "cl_await cli (rep_RequestId reply) = None"
  shows "cli_receive False reply cli' = RecvPanic ''send on closed channel'' \<and> cli_receive True reply cli' = RecvReturned"
  using assms by (auto simp: cli_Close_def go_bind_Ok_iff cli_receive_def split: if_splits)

text \<open>
  A QUIC client cannot call services with negative codes, such as the built-in node and
  gateway services: sending panics exactly for negative codes that are not divisible by the
  number of streams.
\<close>

theorem quicc_send_panics:
  assumes "qc_streams qc \<noteq> []"
  shows "(\<exists>p. quicc_send w svc data qc = Panic p) \<longleftrightarrow> svc < 0 \<and> \<not> int (length (qc_streams qc)) dvd svc"
proof -
  have "(\<exists>p. quicc_send w svc data qc = Panic p) \<longleftrightarrow>
      \<not> (\<exists>s. go_index (qc_streams qc) (go_rem svc (int (length (qc_streams qc)))) = Ok s)"
    using go_index_not_Error [of "qc_streams qc" "go_rem svc (int (length (qc_streams qc)))"]
    by (cases "go_index (qc_streams qc) (go_rem svc (int (length (qc_streams qc))))")
      (auto simp: quicc_send_def Let_def split: option.splits)
  also have "\<dots> \<longleftrightarrow> \<not> (0 \<le> svc \<or> int (length (qc_streams qc)) dvd svc)"
    using go_rem_index [of "qc_streams qc" svc] assms by auto
  finally show ?thesis by auto
qed

end
