(* ===== verification/Gateway_Cluster.thy ===== *)
theory Gateway_Cluster
  imports Gateway_Lifecycle
begin

text \<open>
  Several gateways and the event bus between them. Each gateway announces what happens to its
  users with \<open>Publish\<close> of \<open>src/event/bus.go\<close> and handles the announcements of the others with
  the handler that \<open>init\<close> of \<open>src/component/gateway/proxy.go\<close> subscribes. The bus keeps, for
  every gateway, the messages that have not been handled yet; they may be handled in any order.
  A connect is two steps, since a gateway announces a session before it stores it in its hub and
  handles announcements of others in between.
\<close>

section \<open>What the steps of a gateway announce\<close>

definition same_log :: "Proxy \<Rightarrow> Proxy \<Rightarrow> bool" where
  "same_log px px' \<longleftrightarrow> px_nodeID px' = px_nodeID px \<and> px_events px' = px_events px"

lemma same_log_trans: "same_log a b \<Longrightarrow> same_log b c \<Longrightarrow> same_log a c"
  by (simp add: same_log_def)

lemma same_log_refl [simp]: "same_log px px"
  by (simp add: same_log_def)

lemma same_log_close [simp]: "same_log px (sess_Close s px)"
  by (simp add: same_log_def sess_Close_def split: option.splits)

lemma same_log_fields [simp]:
  "same_log px (px'\<lparr>px_hub := h\<rparr>) = same_log px px'" "same_log px (px'\<lparr>px_phase := ph\<rparr>) = same_log px px'"
  "same_log px (px'\<lparr>px_state := st\<rparr>) = same_log px px'" "same_log px (px'\<lparr>px_done := d\<rparr>) = same_log px px'"
  "same_log px (px'\<lparr>px_hubClosed := b\<rparr>) = same_log px px'" "same_log px (px'\<lparr>px_store := sto\<rparr>) = same_log px px'"
  "same_log px (px'\<lparr>px_count := n\<rparr>) = same_log px px'" "same_log px (px'\<lparr>px_jobs := j\<rparr>) = same_log px px'"
  "same_log px (px'\<lparr>px_timers := ti\<rparr>) = same_log px px'" "same_log px (px'\<lparr>px_nextTimer := nt\<rparr>) = same_log px px'"
  by (simp_all add: same_log_def)

lemma same_log_steps:
  "same_log px (accept_session submitted s sess px)" "same_log px (timer_fires t px)" "same_log px (timer_returns t px)"
  "same_log px (session_leaves s px)" "same_log px (on_nodeDeleted ss inner n px)" "same_log px (connectEvict s px)"
  "same_log px (on_UserConnected ev px)" "same_log px (fst (connectInit i c s px))" "same_log px (hub_Store s px)"
  "same_log px (hub_Delete s px)" "connectCancelJob s px = Some px' \<Longrightarrow> same_log px px'"
proof -
  show "same_log px (accept_session submitted s sess px)"
    using same_log_trans [OF _ same_log_close] by (simp add: accept_session_def Let_def)
  show "connectCancelJob s px = Some px' \<Longrightarrow> same_log px px'"
    by (auto simp: connectCancelJob_def split: option.splits timer.splits)
qed (auto simp: timer_fires_def timer_returns_def session_leaves_def on_nodeDeleted_def connectEvict_def on_UserConnected_def
    connectInit_def hub_Store_def hub_Delete_def Let_def split: option.splits timer.splits sum.splits)

lemma same_log_zombie: "same_log px (removeZombie k now visit px)"
  unfolding removeZombie_def hub_Range_def
  by (rule map_range_inv [where P = "same_log px"]) (auto intro: same_log_trans split: option.splits)

lemma same_log_hub_Close: "same_log px (hub_Close visit px)"
proof -
  have "same_log px (map_range (\<lambda>sessID s v. let v' = sess_Close s v in (v'\<lparr>px_hub := (px_hub v')(sessID := None)\<rparr>, True))
      visit (px_hub px) (px\<lparr>px_hubClosed := True\<rparr>))"
    by (rule map_range_inv [where P = "same_log px"]) (auto simp: Let_def intro: same_log_trans)
  then show ?thesis by (simp add: hub_Close_def)
qed

lemma same_log_Stop: "proxy_Stop visit px = Ok px' \<Longrightarrow> same_log px px'"
  using same_log_hub_Close [of "px\<lparr>px_done := True\<rparr>" visit] same_log_trans [of px "px\<lparr>px_done := True\<rparr>"]
  by (auto simp: proxy_Stop_def split: if_splits)

text \<open>
  The first part of a connect: other sessions are at most closed, and when the session is still to
  be stored, the connect has been announced once, with the gateway and the user.
\<close>

lemma connectAnnounce_log:
  assumes "connectAnnounce i c p s px = (px', e)"
  shows "px_nodeID px' = px_nodeID px" and "e \<noteq> None \<Longrightarrow> px_events px' = px_events px"
    and "e = None \<Longrightarrow> \<exists>ev. px_events px' = px_events px @ [EvConnected ev] \<and> uc_GatewayID ev = px_nodeID px \<and>
      uc_UserID ev = sess_ID s px'"
proof -
  obtain px1 e1 where i: "connectInit i c s px = (px1, e1)" by (cases "connectInit i c s px")
  have l1: "same_log px px1" using same_log_steps(8) [of px i c s] i by simp
  then have l2: "same_log px (connectEvict s px1)" using same_log_trans same_log_steps(6) by blast
  have l3: "same_log px px2" if "connectCancelJob s (connectEvict s px1) = Some px2" for px2
    using same_log_trans [OF l2 same_log_steps(11) [OF that]] .
  show "px_nodeID px' = px_nodeID px" "e \<noteq> None \<Longrightarrow> px_events px' = px_events px"
    "e = None \<Longrightarrow> \<exists>ev. px_events px' = px_events px @ [EvConnected ev] \<and> uc_GatewayID ev = px_nodeID px \<and>
      uc_UserID ev = sess_ID s px'"
    using assms i l1 l2 l3
    by (auto simp: connectAnnounce_def connectPublish_def same_log_def sess_ID_def split: option.splits)
qed

lemma connectAnnounce_others:
  assumes "gw_inv px" and "px_phase px s = Connecting" and "connectAnnounce i c p s px = (px', e)"
  shows "open_session px' u q \<Longrightarrow> open_session px u q" and "q \<noteq> s \<Longrightarrow> sess_ID q px' = sess_ID q px"
proof -
  obtain px1 e1 where i: "connectInit i c s px = (px1, e1)" by (cases "connectInit i c s px")
  have "only_closes px1 px'"
  proof (cases "e1 = None \<and> connectCancelJob s (connectEvict s px1) \<noteq> None")
    case True
    then obtain px2 where c: "connectCancelJob s (connectEvict s px1) = Some px2" by auto
    have "only_closes px1 (fst (connectPublish p s px2))"
      using only_closes_trans [OF only_closes_trans [OF only_closes_steps(5) only_closes_steps(6) [OF c]] only_closes_steps(7)] .
    then show ?thesis using assms(3) i True c by (auto simp: connectAnnounce_def split: prod.splits option.splits)
  next
    case False
    then show ?thesis
      using assms(3) i only_closes_steps(5) by (auto simp: connectAnnounce_def split: option.splits)
  qed
  note oc = only_closesD [OF this]
  have ph: "px_phase px1 s = Connecting" using connectInit_inv(2) [OF assms(1,2) i] assms(2) by simp
  have *: "open_session px u q" if "open_session px1 u q"
    using that ph i by (auto simp: connectInit_def open_session_def Let_def split: sum.splits if_splits option.splits)
  show "open_session px' u q \<Longrightarrow> open_session px u q" using oc(6) * by blast
  have "q \<noteq> s \<Longrightarrow> sess_ID q px1 = sess_ID q px"
    using i by (auto simp: connectInit_def sess_ID_def Let_def split: sum.splits if_splits option.splits)
  then show "q \<noteq> s \<Longrightarrow> sess_ID q px' = sess_ID q px" using oc(4) [of q] by simp
qed

lemma hub_Close_opens: "open_session (hub_Close visit px) u s \<Longrightarrow> open_session px u s"
proof -
  let ?P = "\<lambda>v. open_session v u s \<longrightarrow> open_session px u s"
  have "?P (map_range (\<lambda>sessID s v. let v' = sess_Close s v in (v'\<lparr>px_hub := (px_hub v')(sessID := None)\<rparr>, True))
      visit (px_hub px) (px\<lparr>px_hubClosed := True\<rparr>))"
  proof (rule map_range_inv [where P = ?P])
    fix k q v assume "?P v"
    moreover have "open_session v u s" if "open_session (sess_Close q v) u s"
      using that by (rule only_closesD(6) [OF only_closes_sess_Close])
    ultimately show "?P (fst (let v' = sess_Close q v in (v'\<lparr>px_hub := (px_hub v')(k := None)\<rparr>, True)))"
      by (simp add: Let_def open_session_def)
  qed (simp add: open_session_def)
  then show "open_session (hub_Close visit px) u s \<Longrightarrow> open_session px u s" by (simp add: hub_Close_def split: if_splits)
qed

text \<open>
  The steps of a gateway other than connecting leave the sessions that are connecting alone, and
  open no session.
\<close>

definition keeps_connecting :: "Proxy \<Rightarrow> Proxy \<Rightarrow> bool" where
  "keeps_connecting px px' \<longleftrightarrow> (\<forall>s. px_phase px s = Connecting \<longrightarrow> px_phase px' s = Connecting)"

lemma session_begin_phase: "px_phase (session_begin r s px) s \<noteq> Connecting"
  by (simp add: session_begin_def split: connect_result.split)

lemma other_step_opens:
  assumes "gw_step px px'" and "keeps_connecting px px'" and "open_session px' u s"
  shows "open_session px u s"
  using assms
proof (induction rule: gw_step.induct)
  case (step_accept px q submitted sess)
  then show ?case
    by (cases "s = q") (auto simp: accept_session_def open_session_def sess_Close_def Let_def split: if_splits)
next
  case (step_connect px q i c p px' r)
  then show ?case using session_begin_phase by (auto simp: keeps_connecting_def)
next
  case (step_leave px q)
  then show ?case by (auto simp: session_leaves_def open_session_def split: if_splits)
next
  case (step_end px q p)
  have "open_session (sess_Close q px) u s"
    using step_end(3) by (auto simp: open_session_def session_end_fields sess_Close_def split: if_splits option.splits)
  then show ?case using only_closesD(6) [OF only_closes_sess_Close] by blast
next
  case (step_stop visit px px')
  then have "open_session (hub_Close visit (px\<lparr>px_done := True\<rparr>)) u s" by (simp add: proxy_Stop_def split: if_splits)
  then have "open_session (px\<lparr>px_done := True\<rparr>) u s" by (rule hub_Close_opens)
  then show ?case by (simp add: open_session_def)
qed (blast intro: only_closesD(6) only_closes_steps only_closes_sess_Close only_closes_zombie)+

lemma hub_Close_ids: "sess_ID s (hub_Close visit px) = sess_ID s px"
proof -
  let ?P = "\<lambda>v. sess_ID s v = sess_ID s px"
  have "?P (map_range (\<lambda>sessID s v. let v' = sess_Close s v in (v'\<lparr>px_hub := (px_hub v')(sessID := None)\<rparr>, True))
      visit (px_hub px) (px\<lparr>px_hubClosed := True\<rparr>))"
  proof (rule map_range_inv [where P = ?P])
    fix k q v assume "?P v"
    then show "?P (fst (let v' = sess_Close q v in (v'\<lparr>px_hub := (px_hub v')(k := None)\<rparr>, True)))"
      using only_closesD(4) [OF only_closes_sess_Close [of v q], of s] by (simp add: Let_def sess_ID_def)
  qed (simp add: sess_ID_def)
  then show ?thesis by (simp add: hub_Close_def)
qed

lemma other_step_ids:
  assumes "gw_step px px'" and "keeps_connecting px px'" and "px_store px s \<noteq> None"
  shows "sess_ID s px' = sess_ID s px"
  using assms
proof (induction rule: gw_step.induct)
  case (step_accept px q submitted sess)
  then show ?case by (cases "s = q") (auto simp: accept_session_def sess_ID_def sess_Close_def Let_def)
next
  case (step_connect px q i c p px' r)
  then show ?case using session_begin_phase by (auto simp: keeps_connecting_def)
next
  case (step_leave px q)
  then show ?case by (simp add: sess_ID_def session_leaves_fields)
next
  case (step_end px q p)
  show ?case using only_closesD(4) [OF only_closes_sess_Close [of px q], of s] by (simp add: sess_ID_def session_end_fields)
next
  case (step_stop visit px px')
  then show ?case using hub_Close_ids [of s visit "px\<lparr>px_done := True\<rparr>"]
    by (auto simp: proxy_Stop_def sess_ID_def split: if_splits)
qed (blast intro: only_closesD(4) only_closes_steps only_closes_sess_Close only_closes_zombie)+

lemma other_step_node:
  assumes "gw_step px px'" and "keeps_connecting px px'"
  shows "px_nodeID px' = px_nodeID px"
  using assms
proof (induction rule: gw_step.induct)
  case (step_connect px q i c p px' r)
  then show ?case using session_begin_phase by (auto simp: keeps_connecting_def)
next
  case (step_end px s p)
  show ?case
    using same_log_steps(10) [of px s]
    by (auto simp: session_end_def onDisconnect_def Let_def sess_Close_def same_log_def split: option.splits)
next
  case (step_stop visit px px')
  then show ?case using same_log_Stop by (auto simp: same_log_def)
qed (use same_log_steps same_log_zombie same_log_close in \<open>auto simp: same_log_def\<close>)

section \<open>The cluster\<close>

text \<open>
  The subscription of a gateway: what one message of the bus does to it. The handler is a
  function of \<open>UserConnected\<close>, so messages of other types are not handed to it.
\<close>

definition gw_connected_sig :: handler_sig where
  "gw_connected_sig = \<lparr>hs_isFunc = True, hs_args = [Named ''UserConnected'', timeTime]\<rparr>"

definition gw_on_event :: "cluster_event \<times> int \<Rightarrow> Proxy \<Rightarrow> Proxy" where
  "gw_on_event call px = (case fst call of EvConnected ev \<Rightarrow> on_UserConnected ev px | EvDisconnected _ \<Rightarrow> px)"

definition gw_subscription ::
  "event_types \<Rightarrow> (byte list \<Rightarrow> go_error + payload) \<Rightarrow> (byte list \<Rightarrow> go_error + cluster_event) \<Rightarrow> byte list \<Rightarrow> Proxy \<Rightarrow> Proxy" where
  "gw_subscription et unmarshalP unmarshal data px =
     (case bus_Subscribe et unmarshalP unmarshal gw_connected_sig [data] of
        Ok calls \<Rightarrow> fold gw_on_event calls px
      | _ \<Rightarrow> px)"

text \<open>A message that the bus took for an event.\<close>

definition published ::
  "event_types \<Rightarrow> (cluster_event \<Rightarrow> go_error + byte list) \<Rightarrow> (payload \<Rightarrow> go_error + byte list) \<Rightarrow> cluster_event \<Rightarrow> byte list \<Rightarrow> bool" where
  "published et marshal marshalP ev data \<longleftrightarrow>
     (\<exists>now. bus_Publish et event_typeOf marshal marshalP (\<lambda>_. None) now ev = Ok data)"

lemma gw_subscription_inv:
  assumes "P px" and "\<And>ev v. P v \<Longrightarrow> P (on_UserConnected ev v)"
  shows "P (gw_subscription et unmarshalP unmarshal data px)"
proof -
  have "P (fold gw_on_event calls px)" for calls
    by (rule fold_invariant [where Q = "\<lambda>_. True"]) (use assms in \<open>simp_all add: gw_on_event_def split: cluster_event.split\<close>)
  then show ?thesis using assms(1) by (simp add: gw_subscription_def split: go.split)
qed

lemma gw_subscription_only_closes: "only_closes px (gw_subscription et unmarshalP unmarshal data px)"
  by (rule gw_subscription_inv) (use only_closes_trans only_closes_steps(3) in \<open>blast intro: only_closes_refl\<close>)+

lemma gw_subscription_nodeID: "px_nodeID (gw_subscription et unmarshalP unmarshal data px) = px_nodeID px"
  by (rule gw_subscription_inv) (use same_log_steps(7) in \<open>simp_all add: same_log_def\<close>)

text \<open>What a gateway makes of an announcement that was published.\<close>

lemma gw_subscription_published:
  assumes "initEvents = Ok et" and "published et marshal marshalP (EvConnected ev) data"
    and "\<And>e d. marshal e = Inr d \<Longrightarrow> unmarshal d = Inr e" and "\<And>p d. marshalP p = Inr d \<Longrightarrow> unmarshalP d = Inr p"
  shows "gw_subscription et unmarshalP unmarshal data px = on_UserConnected ev px"
proof -
  obtain now where p: "bus_Publish et event_typeOf marshal marshalP (\<lambda>_. None) now (EvConnected ev) = Ok data"
    using assms(2) by (auto simp: published_def)
  have et: "et_types et (Named ''UserConnected'') = Some ''user:connected''" "et_types et timeTime = None"
    using assms(1) by (auto simp: initEvents_def Register_def timeTime_def)
  have "bus_Subscribe et unmarshalP unmarshal gw_connected_sig [data] = Ok [(EvConnected ev, now)]"
    using p
  proof (rule bus_Publish_Ok)
    fix eventType detail
    assume "et_types et (deref (event_typeOf (EvConnected ev))) = Some eventType" and m: "marshal (EvConnected ev) = Inr detail"
      "marshalP \<lparr>p_Time = now, p_Type = eventType, p_Detail = detail\<rparr> = Inr data"
    then have "eventType = ''user:connected''" using et by (simp add: event_typeOf_def)
    then show ?thesis using assms(3) [OF m(1)] assms(4) [OF m(2)] et
      by (simp add: bus_Subscribe_def checkHandler_def gw_connected_sig_def observe_def dispatch_def)
  qed
  then show ?thesis by (simp add: gw_subscription_def gw_on_event_def)
qed

text \<open>A gateway has been told that a user is connected to another one.\<close>

definition told_of ::
  "event_types \<Rightarrow> (cluster_event \<Rightarrow> go_error + byte list) \<Rightarrow> (payload \<Rightarrow> go_error + byte list) \<Rightarrow> string \<Rightarrow> string \<Rightarrow> byte list list \<Rightarrow> bool" where
  "told_of et marshal marshalP u g msgs \<longleftrightarrow>
     (\<exists>data \<in> set msgs. \<exists>ev. published et marshal marshalP (EvConnected ev) data \<and> uc_UserID ev = u \<and> uc_GatewayID ev = g)"

lemma told_of_append [simp]:
  "told_of et marshal marshalP u g (xs @ ys) \<longleftrightarrow> told_of et marshal marshalP u g xs \<or> told_of et marshal marshalP u g ys"
  by (auto simp: told_of_def)

lemma told_of_step:
  assumes "list_all2 (published et marshal marshalP) evs ds" and "EvConnected ev \<in> set evs"
  shows "told_of et marshal marshalP (uc_UserID ev) (uc_GatewayID ev) ds"
proof -
  obtain d where "d \<in> set ds" "published et marshal marshalP (EvConnected ev) d"
    using assms by (metis in_set_conv_nth list_all2_conv_all_nth)
  then show ?thesis by (auto simp: told_of_def)
qed

text \<open>
  Gateways are named by the id of their node. A gateway announces a connect before it stores the
  session in its hub, and in between its goroutines go on: \<open>cs_pending\<close> are the sessions of a gateway
  that have been announced and are not stored yet. \<open>cs_missed\<close> collects the sessions that were
  pending while their gateway handled another gateway's announcement of the same user: the handler
  could not find them in the hub.
\<close>

record cluster =
  cs_gw :: "string \<Rightarrow> Proxy"
  cs_inbox :: "string \<Rightarrow> byte list list"
  cs_pending :: "string \<Rightarrow> nat set"
  cs_missed :: "(string \<times> nat) set"

definition missed_by ::
  "event_types \<Rightarrow> (cluster_event \<Rightarrow> go_error + byte list) \<Rightarrow> (payload \<Rightarrow> go_error + byte list) \<Rightarrow> byte list \<Rightarrow> string \<Rightarrow> cluster \<Rightarrow>
   (string \<times> nat) set" where
  "missed_by et marshal marshalP data g c =
     {(g, s) |s h. s \<in> cs_pending c g \<and> h \<noteq> g \<and> told_of et marshal marshalP (sess_ID s (cs_gw c g)) h [data]}"

text \<open>
  What a step of a gateway announces goes to the inbox of every gateway; a gateway handles any
  message of its inbox; one that has not started to serve yet subscribes and misses what was
  announced before. Two connects of the same user to the same gateway do not overlap.
\<close>

inductive cluster_reach ::
  "event_types \<Rightarrow> (cluster_event \<Rightarrow> go_error + byte list) \<Rightarrow> (payload \<Rightarrow> go_error + byte list) \<Rightarrow>
   (byte list \<Rightarrow> go_error + payload) \<Rightarrow> (byte list \<Rightarrow> go_error + cluster_event) \<Rightarrow> cluster \<Rightarrow> bool"
  for et marshal marshalP unmarshalP unmarshal where
  cl_init: "cluster_reach et marshal marshalP unmarshalP unmarshal
      \<lparr>cs_gw = init_Proxy, cs_inbox = (\<lambda>_. []), cs_pending = (\<lambda>_. {}), cs_missed = {}\<rparr>"
| cl_step: "cluster_reach et marshal marshalP unmarshalP unmarshal c \<Longrightarrow> gw_step (cs_gw c g) px' \<Longrightarrow>
    keeps_connecting (cs_gw c g) px' \<Longrightarrow>
    px_events px' = px_events (cs_gw c g) @ evs \<Longrightarrow> list_all2 (published et marshal marshalP) evs ds \<Longrightarrow>
    cluster_reach et marshal marshalP unmarshalP unmarshal
      (c\<lparr>cs_gw := (cs_gw c)(g := px'), cs_inbox := (\<lambda>h. cs_inbox c h @ ds)\<rparr>)"
| cl_refused: "cluster_reach et marshal marshalP unmarshalP unmarshal c \<Longrightarrow> px_phase (cs_gw c g) s = Connecting \<Longrightarrow>
    s \<notin> cs_pending c g \<Longrightarrow> connectAnnounce i ic p s (cs_gw c g) = (px', Some r) \<Longrightarrow>
    cluster_reach et marshal marshalP unmarshalP unmarshal (c\<lparr>cs_gw := (cs_gw c)(g := session_begin r s px')\<rparr>)"
| cl_announce: "cluster_reach et marshal marshalP unmarshalP unmarshal c \<Longrightarrow> px_phase (cs_gw c g) s = Connecting \<Longrightarrow>
    s \<notin> cs_pending c g \<Longrightarrow> connectAnnounce i ic p s (cs_gw c g) = (px', None) \<Longrightarrow>
    (\<And>t. t \<in> cs_pending c g \<Longrightarrow> sess_ID t px' \<noteq> sess_ID s px') \<Longrightarrow>
    px_events px' = px_events (cs_gw c g) @ evs \<Longrightarrow> list_all2 (published et marshal marshalP) evs ds \<Longrightarrow>
    cluster_reach et marshal marshalP unmarshalP unmarshal
      (c\<lparr>cs_gw := (cs_gw c)(g := px'), cs_inbox := (\<lambda>h. cs_inbox c h @ ds),
         cs_pending := (cs_pending c)(g := insert s (cs_pending c g))\<rparr>)"
| cl_store: "cluster_reach et marshal marshalP unmarshalP unmarshal c \<Longrightarrow> s \<in> cs_pending c g \<Longrightarrow>
    cluster_reach et marshal marshalP unmarshalP unmarshal
      (c\<lparr>cs_gw := (cs_gw c)(g := session_begin Connected s (hub_Store s (cs_gw c g))),
         cs_pending := (cs_pending c)(g := cs_pending c g - {s})\<rparr>)"
| cl_handle: "cluster_reach et marshal marshalP unmarshalP unmarshal c \<Longrightarrow> cs_inbox c g = xs @ data # ys \<Longrightarrow>
    cluster_reach et marshal marshalP unmarshalP unmarshal
      (c\<lparr>cs_gw := (cs_gw c)(g := gw_subscription et unmarshalP unmarshal data (cs_gw c g)), cs_inbox := (cs_inbox c)(g := xs @ ys),
         cs_missed := cs_missed c \<union> missed_by et marshal marshalP data g c\<rparr>)"
| cl_subscribe: "cluster_reach et marshal marshalP unmarshalP unmarshal c \<Longrightarrow> cs_gw c g = init_Proxy g \<Longrightarrow>
    cluster_reach et marshal marshalP unmarshalP unmarshal (c\<lparr>cs_inbox := (cs_inbox c)(g := [])\<rparr>)"

section \<open>One session per user in the cluster\<close>

text \<open>
  One gateway with its pending sessions: the user of a pending session has no open session, and
  pending sessions have different users.
\<close>

definition gw_ok :: "Proxy \<Rightarrow> nat set \<Rightarrow> string \<Rightarrow> bool" where
  "gw_ok px P g \<longleftrightarrow> gw_inv px \<and> px_nodeID px = g \<and> (\<forall>t\<in>P. px_phase px t = Connecting \<and> evicted t px) \<and>
     inj_on (\<lambda>t. sess_ID t px) P"

lemma gw_okD:
  assumes "gw_ok px P g"
  shows "gw_inv px" and "px_nodeID px = g" and "t \<in> P \<Longrightarrow> px_phase px t = Connecting" and "t \<in> P \<Longrightarrow> evicted t px"
    and "inj_on (\<lambda>t. sess_ID t px) P" and "t \<in> P \<Longrightarrow> px_store px t \<noteq> None"
proof -
  show "gw_inv px" "px_nodeID px = g" "t \<in> P \<Longrightarrow> px_phase px t = Connecting" "t \<in> P \<Longrightarrow> evicted t px"
    "inj_on (\<lambda>t. sess_ID t px) P" using assms by (auto simp: gw_ok_def)
  then show "t \<in> P \<Longrightarrow> px_store px t \<noteq> None" using gw_invD(6) [of px t] by auto
qed

text \<open>A session of a user that is open, or announced and about to be stored.\<close>

definition present :: "Proxy \<Rightarrow> nat set \<Rightarrow> string \<Rightarrow> nat \<Rightarrow> bool" where
  "present px P u s \<longleftrightarrow> open_session px u s \<or> s \<in> P \<and> sess_ID s px = u"

text \<open>A change that opens nothing and leaves the pending sessions alone.\<close>

definition calm :: "Proxy \<Rightarrow> nat set \<Rightarrow> Proxy \<Rightarrow> bool" where
  "calm px P px' \<longleftrightarrow> (\<forall>u s. open_session px' u s \<longrightarrow> open_session px u s) \<and> px_nodeID px' = px_nodeID px \<and>
     (\<forall>t\<in>P. px_phase px' t = Connecting \<and> sess_ID t px' = sess_ID t px)"

lemma calm_ok: "gw_ok px P g \<Longrightarrow> calm px P px' \<Longrightarrow> gw_inv px' \<Longrightarrow> gw_ok px' P g"
  unfolding gw_ok_def calm_def by (auto simp: evicted_def cong: inj_on_cong) (metis inj_on_cong)

lemma calm_present: "calm px P px' \<Longrightarrow> present px' P u s \<Longrightarrow> present px P u s"
  by (auto simp: calm_def present_def)

lemma calm_step:
  assumes "gw_ok px P g" and "gw_step px px'" and "keeps_connecting px px'"
  shows "calm px P px'" and "gw_ok px' P g"
proof -
  show c: "calm px P px'"
    using gw_okD(3,6) [OF assms(1)] other_step_opens [OF assms(2,3)] other_step_ids [OF assms(2,3)] other_step_node [OF assms(2,3)]
      assms(3) by (auto simp: calm_def keeps_connecting_def)
  show "gw_ok px' P g" by (rule calm_ok [OF assms(1) c gw_step_inv [OF assms(2) gw_okD(1) [OF assms(1)]]])
qed

lemma calm_event:
  assumes "gw_ok px P g"
  shows "calm px P (gw_subscription et unmarshalP unmarshal data px)" and "gw_ok (gw_subscription et unmarshalP unmarshal data px) P g"
proof -
  let ?px = "gw_subscription et unmarshalP unmarshal data px"
  note oc = gw_subscription_only_closes [of px et unmarshalP unmarshal data]
  show c: "calm px P ?px"
    using gw_okD(3) [OF assms] only_closesD(2,4,6) [OF oc] gw_subscription_nodeID by (auto simp: calm_def)
  show "gw_ok ?px P g" by (rule calm_ok [OF assms c only_closes_inv [OF gw_okD(1) [OF assms] oc]])
qed

lemma calm_announce:
  assumes "gw_ok px P g" and "px_phase px s = Connecting" and "s \<notin> P" and "connectAnnounce i c p s px = (px', e)"
  shows "calm px P px'" and "gw_ok px' P g"
proof -
  note ok = gw_okD [OF assms(1)]
  note inv = connectAnnounce_inv [OF ok(1) assms(2,4)] and oth = connectAnnounce_others [OF ok(1) assms(2,4)]
  have "\<And>t. t \<in> P \<Longrightarrow> t \<noteq> s" using assms(3) by blast
  then show c: "calm px P px'"
    using ok(3) inv(2) oth connectAnnounce_log(1) [OF assms(4)] by (auto simp: calm_def)
  show "gw_ok px' P g" by (rule calm_ok [OF assms(1) c inv(1)])
qed

lemma calm_over:
  assumes "gw_ok px P g" and "px_phase px s = Connecting" and "s \<notin> P" and "r \<noteq> Connected"
  shows "calm px P (session_begin r s px)" and "gw_ok (session_begin r s px) P g"
proof -
  have ne: "\<And>t. t \<in> P \<Longrightarrow> t \<noteq> s" using assms(3) by blast
  have "open_session (sess_Close s px) u q \<Longrightarrow> open_session px u q" for u q by (rule only_closesD(6) [OF only_closes_sess_Close])
  moreover have "sess_ID q (sess_Close s px) = sess_ID q px" for q by (rule only_closesD(4) [OF only_closes_sess_Close])
  moreover have "px_phase (sess_Close s px) = px_phase px" by (rule only_closesD(2) [OF only_closes_sess_Close])
  moreover have "px_nodeID (sess_Close s px) = px_nodeID px" using same_log_close by (simp add: same_log_def)
  ultimately show c: "calm px P (session_begin r s px)"
    using gw_okD(3) [OF assms(1)] ne assms(4)
    by (cases r) (auto simp: calm_def session_begin_def open_session_def sess_ID_def split: if_splits)
  show "gw_ok (session_begin r s px) P g"
    by (rule calm_ok [OF assms(1) c session_over_inv [OF gw_okD(1) [OF assms(1)] assms(2,4)]])
qed

lemma pending_insert:
  assumes "gw_ok px P g" and "px_phase px s = Connecting" and "evicted s px" and "\<And>t. t \<in> P \<Longrightarrow> sess_ID t px \<noteq> sess_ID s px"
  shows "gw_ok px (insert s P) g"
  using assms(1-3) by (auto simp: gw_ok_def dest: assms(4))

text \<open>Storing a pending session opens it, unless it was closed meanwhile.\<close>

lemma pending_stored:
  assumes "gw_ok px P g" and "s \<in> P"
  shows "gw_ok (session_begin Connected s (hub_Store s px)) (P - {s}) g"
    and "present (session_begin Connected s (hub_Store s px)) (P - {s}) u r \<Longrightarrow> present px P u r"
proof -
  let ?px = "session_begin Connected s (hub_Store s px)"
  note ok = gw_okD [OF assms(1)]
  have ids: "sess_ID t ?px = sess_ID t px" for t by (simp add: session_begin_def hub_Store_def sess_ID_def)
  have ph: "px_phase ?px = (px_phase px)(s := Serving)" "px_nodeID ?px = px_nodeID px" by (simp_all add: session_begin_def hub_Store_def)
  have op: "open_session px u r \<or> r = s \<and> u = sess_ID s px" if "open_session ?px u r" for u r
    using that by (auto simp: open_session_def session_begin_def hub_Store_def sess_ID_def split: if_splits)
  show "present ?px (P - {s}) u r \<Longrightarrow> present px P u r"
    using op [of u r] ids assms(2) by (auto simp: present_def)
  have "evicted t ?px" if "t \<in> P" "t \<noteq> s" for t
    using op [of "sess_ID t px"] ok(4) [OF that(1)] inj_onD [OF ok(5) _ that(1) assms(2)] that(2) by (auto simp: evicted_def ids)
  moreover have "gw_inv ?px" by (rule gw_inv_store [OF ok(1) ok(3,4) [OF assms(2)]])
  ultimately show "gw_ok ?px (P - {s}) g"
    using ok(2,3) inj_on_subset [OF ok(5), of "P - {s}"] by (auto simp: gw_ok_def ids ph)
qed

text \<open>
  The invariant: of two gateways that both have a session of a user, one has still to handle an
  announcement of the other, or has missed one.
\<close>

definition cluster_inv ::
  "event_types \<Rightarrow> (cluster_event \<Rightarrow> go_error + byte list) \<Rightarrow> (payload \<Rightarrow> go_error + byte list) \<Rightarrow> cluster \<Rightarrow> bool" where
  "cluster_inv et marshal marshalP c \<longleftrightarrow>
     (\<forall>g. gw_ok (cs_gw c g) (cs_pending c g) g) \<and>
     (\<forall>g h u s r. g \<noteq> h \<longrightarrow> present (cs_gw c g) (cs_pending c g) u s \<longrightarrow> present (cs_gw c h) (cs_pending c h) u r \<longrightarrow>
        told_of et marshal marshalP u h (cs_inbox c g) \<or> told_of et marshal marshalP u g (cs_inbox c h) \<or>
        (g, s) \<in> cs_missed c \<or> (h, r) \<in> cs_missed c)"

lemma cluster_invD:
  assumes "cluster_inv et marshal marshalP c"
  shows "gw_ok (cs_gw c g) (cs_pending c g) g"
    and "g \<noteq> h \<Longrightarrow> present (cs_gw c g) (cs_pending c g) u s \<Longrightarrow> present (cs_gw c h) (cs_pending c h) u r \<Longrightarrow>
      told_of et marshal marshalP u h (cs_inbox c g) \<or> told_of et marshal marshalP u g (cs_inbox c h) \<or>
      (g, s) \<in> cs_missed c \<or> (h, r) \<in> cs_missed c"
  using assms unfolding cluster_inv_def by blast+

text \<open>A change of one gateway: only the pairs it is part of are new.\<close>

lemma cluster_inv_update:
  assumes inv: "cluster_inv et marshal marshalP c" and px': "gw_ok px' P g"
    and pair: "\<And>h u s r. h \<noteq> g \<Longrightarrow> present px' P u s \<Longrightarrow> present (cs_gw c h) (cs_pending c h) u r \<Longrightarrow>
      told_of et marshal marshalP u h (inbox g) \<or> told_of et marshal marshalP u g (inbox h) \<or> (g, s) \<in> M \<or> (h, r) \<in> M"
    and mono: "\<And>h k u. h \<noteq> g \<Longrightarrow> told_of et marshal marshalP u k (cs_inbox c h) \<Longrightarrow> told_of et marshal marshalP u k (inbox h)"
    and M: "cs_missed c \<subseteq> M"
  shows "cluster_inv et marshal marshalP
    (c\<lparr>cs_gw := (cs_gw c)(g := px'), cs_inbox := inbox, cs_pending := (cs_pending c)(g := P), cs_missed := M\<rparr>)"
  unfolding cluster_inv_def
proof (intro conjI allI impI)
  fix k h u s r
  let ?c = "c\<lparr>cs_gw := (cs_gw c)(g := px'), cs_inbox := inbox, cs_pending := (cs_pending c)(g := P), cs_missed := M\<rparr>"
  assume o: "k \<noteq> h" "present (cs_gw ?c k) (cs_pending ?c k) u s" "present (cs_gw ?c h) (cs_pending ?c h) u r"
  consider "k = g" | "h = g" | "k \<noteq> g" "h \<noteq> g" by blast
  then show "told_of et marshal marshalP u h (cs_inbox ?c k) \<or> told_of et marshal marshalP u k (cs_inbox ?c h) \<or>
      (k, s) \<in> cs_missed ?c \<or> (h, r) \<in> cs_missed ?c"
  proof cases
    case 1
    then show ?thesis using o pair [of h u s r] by simp
  next
    case 2
    then show ?thesis using o pair [of k u r s] by auto
  next
    case 3
    then show ?thesis using o cluster_invD(2) [OF inv, of k h u s r] mono M by auto
  qed
qed (use px' cluster_invD(1) [OF inv] in \<open>simp add: fun_upd_def\<close>)

text \<open>A calm change keeps it whatever is announced.\<close>

lemma cluster_inv_calm:
  assumes inv: "cluster_inv et marshal marshalP c" and ok: "gw_ok px' P g" and c: "\<And>u s. present px' P u s \<Longrightarrow> present (cs_gw c g) (cs_pending c g) u s"
  shows "cluster_inv et marshal marshalP
    (c\<lparr>cs_gw := (cs_gw c)(g := px'), cs_inbox := (\<lambda>h. cs_inbox c h @ ds), cs_pending := (cs_pending c)(g := P), cs_missed := cs_missed c\<rparr>)"
proof (rule cluster_inv_update [OF inv ok])
  fix h u s r
  assume "h \<noteq> g" "present px' P u s" "present (cs_gw c h) (cs_pending c h) u r"
  then show "told_of et marshal marshalP u h (cs_inbox c g @ ds) \<or> told_of et marshal marshalP u g (cs_inbox c h @ ds) \<or>
      (g, s) \<in> cs_missed c \<or> (h, r) \<in> cs_missed c"
    using cluster_invD(2) [OF inv, of g h u s r] c by auto
qed simp_all

lemma cluster_announce_inv:
  assumes inv: "cluster_inv et marshal marshalP c" and s: "px_phase (cs_gw c g) s = Connecting" "s \<notin> cs_pending c g"
    and a: "connectAnnounce i ic p s (cs_gw c g) = (px', None)" and other: "\<And>t. t \<in> cs_pending c g \<Longrightarrow> sess_ID t px' \<noteq> sess_ID s px'"
    and evs: "px_events px' = px_events (cs_gw c g) @ evs" "list_all2 (published et marshal marshalP) evs ds"
  shows "cluster_inv et marshal marshalP
    (c\<lparr>cs_gw := (cs_gw c)(g := px'), cs_inbox := (\<lambda>h. cs_inbox c h @ ds),
       cs_pending := (cs_pending c)(g := insert s (cs_pending c g)), cs_missed := cs_missed c\<rparr>)"
proof -
  note ok = gw_okD [OF cluster_invD(1) [OF inv, of g]]
  note calm = calm_announce [OF cluster_invD(1) [OF inv, of g] s a]
  note ann = connectAnnounce_inv [OF ok(1) s(1) a]
  have told: "told_of et marshal marshalP (sess_ID s px') g ds"
    using connectAnnounce_log(3) [OF a refl] evs told_of_step [OF evs(2)] ok(2) by fastforce
  show ?thesis
  proof (rule cluster_inv_update [OF inv])
    show "gw_ok px' (insert s (cs_pending c g)) g"
      by (rule pending_insert [OF calm(2) _ ann(3) [OF refl] other]) (use ann(2) s(1) in simp)
    fix h u q r
    assume h: "h \<noteq> g" "present px' (insert s (cs_pending c g)) u q" "present (cs_gw c h) (cs_pending c h) u r"
    show "told_of et marshal marshalP u h (cs_inbox c g @ ds) \<or> told_of et marshal marshalP u g (cs_inbox c h @ ds) \<or>
        (g, q) \<in> cs_missed c \<or> (h, r) \<in> cs_missed c"
    proof (cases "present px' (cs_pending c g) u q")
      case True
      then show ?thesis using cluster_invD(2) [OF inv, of g h u q r] calm_present [OF calm(1)] h by auto
    next
      case False
      then show ?thesis using h(2) told by (auto simp: present_def)
    qed
  qed simp_all
qed

lemma cluster_handle_inv:
  assumes inv: "cluster_inv et marshal marshalP c" and msg: "cs_inbox c g = xs @ data # ys" and et: "initEvents = Ok et"
    and codec: "\<And>e d. marshal e = Inr d \<Longrightarrow> unmarshal d = Inr e" "\<And>p d. marshalP p = Inr d \<Longrightarrow> unmarshalP d = Inr p"
  shows "cluster_inv et marshal marshalP
    (c\<lparr>cs_gw := (cs_gw c)(g := gw_subscription et unmarshalP unmarshal data (cs_gw c g)), cs_inbox := (cs_inbox c)(g := xs @ ys),
       cs_pending := (cs_pending c)(g := cs_pending c g), cs_missed := cs_missed c \<union> missed_by et marshal marshalP data g c\<rparr>)"
proof -
  note ok = gw_okD [OF cluster_invD(1) [OF inv, of g]]
  note calm = calm_event [OF cluster_invD(1) [OF inv, of g], of et unmarshalP unmarshal data]
  let ?px = "gw_subscription et unmarshalP unmarshal data (cs_gw c g)"
  have closed: "(g, s) \<in> missed_by et marshal marshalP data g c"
    if told: "told_of et marshal marshalP u h [data]" and ne: "h \<noteq> g" and pr: "present ?px (cs_pending c g) u s" for u s h
  proof -
    obtain ev where ev: "published et marshal marshalP (EvConnected ev) data" "uc_UserID ev = u" "uc_GatewayID ev = h"
      using told by (auto simp: told_of_def)
    have "?px = on_UserConnected ev (cs_gw c g)" by (rule gw_subscription_published [OF et ev(1)]) (fact codec)+
    then have "\<not> open_session ?px u s" using on_UserConnected_closes [OF ok(1), of ev s] ev(2,3) ne ok(2) by auto
    then have "s \<in> cs_pending c g" "sess_ID s (cs_gw c g) = u" using pr calm(1) by (auto simp: present_def calm_def)
    then show ?thesis using told ne by (auto simp: missed_by_def)
  qed
  show ?thesis
  proof (rule cluster_inv_update [OF inv calm(2)])
    show "told_of et marshal marshalP u h (((cs_inbox c)(g := xs @ ys)) g) \<or> told_of et marshal marshalP u g (((cs_inbox c)(g := xs @ ys)) h) \<or>
        (g, s) \<in> cs_missed c \<union> missed_by et marshal marshalP data g c \<or> (h, r) \<in> cs_missed c \<union> missed_by et marshal marshalP data g c"
      if "h \<noteq> g" "present ?px (cs_pending c g) u s" "present (cs_gw c h) (cs_pending c h) u r" for h u s r
      using cluster_invD(2) [OF inv, of g h u s r] calm_present [OF calm(1) that(2)] closed [of u h s] that
        told_of_append [of et marshal marshalP u h "[data]" ys] by (auto simp: msg)
  qed auto
qed

lemma init_ok: "gw_ok (init_Proxy g) {} g"
  using gw_reach_inv [OF gw_init] by (simp add: gw_ok_def) (simp add: init_Proxy_def)

lemma init_not_open: "\<not> open_session (init_Proxy g) u s"
  by (simp add: init_Proxy_def open_session_def)

lemma init_not_pending: "gw_ok (init_Proxy g) P g \<Longrightarrow> P = {}"
  by (auto simp: gw_ok_def init_Proxy_def)

lemma cluster_reach_inv:
  assumes "cluster_reach et marshal marshalP unmarshalP unmarshal c" and et: "initEvents = Ok et"
    and codec: "\<And>e d. marshal e = Inr d \<Longrightarrow> unmarshal d = Inr e" "\<And>p d. marshalP p = Inr d \<Longrightarrow> unmarshalP d = Inr p"
  shows "cluster_inv et marshal marshalP c"
  using assms(1)
proof (induction rule: cluster_reach.induct)
  case cl_init
  show ?case by (simp add: cluster_inv_def init_ok present_def init_not_open)
next
  case (cl_step c g px' evs ds)
  note ok = cluster_invD(1) [OF cl_step(6), of g]
  note calm = calm_step [OF ok cl_step(2,3)]
  show ?case using cluster_inv_calm [OF cl_step(6) calm(2) calm_present [OF calm(1)], of ds] by simp
next
  case (cl_refused c g s i ic p px' r)
  note ok = cluster_invD(1) [OF cl_refused(5), of g]
  note inv = connectAnnounce_inv [OF gw_okD(1) [OF ok] cl_refused(2,4)]
  note one = calm_announce [OF ok cl_refused(2-4)]
  have r: "px_phase px' s = Connecting" "r \<noteq> Connected" using inv cl_refused(2) by auto
  note two = calm_over [OF one(2) r(1) cl_refused(3) r(2)]
  show ?case
    using cluster_inv_calm [OF cl_refused(5) two(2) calm_present [OF one(1) calm_present [OF two(1)]], of "[]"] by simp
next
  case (cl_announce c g s i ic p px' evs ds)
  then show ?case using cluster_announce_inv [OF cl_announce(8,2-7)] by simp
next
  case (cl_store c s g)
  note st = pending_stored [OF cluster_invD(1) [OF cl_store(3), of g] cl_store(2)]
  show ?case using cluster_inv_calm [OF cl_store(3) st(1) st(2), of "[]"] by simp
next
  case (cl_handle c g xs data ys)
  have "cluster_inv et marshal marshalP
    (c\<lparr>cs_gw := (cs_gw c)(g := gw_subscription et unmarshalP unmarshal data (cs_gw c g)), cs_inbox := (cs_inbox c)(g := xs @ ys),
       cs_pending := (cs_pending c)(g := cs_pending c g), cs_missed := cs_missed c \<union> missed_by et marshal marshalP data g c\<rparr>)"
    by (rule cluster_handle_inv [OF cl_handle(3,2) et]) (fact codec)+
  then show ?case by simp
next
  case (cl_subscribe c g)
  note ok = cluster_invD(1) [OF cl_subscribe(3), of g]
  have "\<not> present (cs_gw c g) (cs_pending c g) u s" for u s
    using init_not_pending [of g "cs_pending c g"] ok cl_subscribe(2) by (simp add: present_def init_not_open)
  then have "cluster_inv et marshal marshalP
    (c\<lparr>cs_gw := (cs_gw c)(g := cs_gw c g), cs_inbox := (cs_inbox c)(g := []), cs_pending := (cs_pending c)(g := cs_pending c g), cs_missed := cs_missed c\<rparr>)"
    by (intro cluster_inv_update cl_subscribe(3) ok) auto
  then show ?case by simp
qed

text \<open>
  C4. One session per user in the cluster: let the gateways do whatever they do, connects taken
  apart into announcing and storing, and handle announcements in whatever order. When two gateways
  have handled all the announcements they got and both hold an open session of a user, then one of
  the two handled another gateway's announcement of this user after it had announced its session
  and before it had stored it. Without that there is one session. Connects of one user to one
  gateway do not overlap.
\<close>

theorem cluster_single_session:
  assumes "cluster_reach et marshal marshalP unmarshalP unmarshal c" and "initEvents = Ok et"
    and "\<And>e d. marshal e = Inr d \<Longrightarrow> unmarshal d = Inr e" and "\<And>p d. marshalP p = Inr d \<Longrightarrow> unmarshalP d = Inr p"
    and "cs_inbox c g = []" and "cs_inbox c h = []"
    and "open_session (cs_gw c g) u s" and "open_session (cs_gw c h) u r"
  shows "g = h \<and> s = r \<or> g \<noteq> h \<and> ((g, s) \<in> cs_missed c \<or> (h, r) \<in> cs_missed c)"
proof (cases "g = h")
  case True
  have inv: "cluster_inv et marshal marshalP c" by (rule cluster_reach_inv [OF assms(1,2)]) (fact assms(3) assms(4))+
  have "px_hub (cs_gw c g) u = Some s" "px_hub (cs_gw c g) u = Some r"
    using gw_invD(5) [OF gw_okD(1) [OF cluster_invD(1) [OF inv]]] assms(7,8) True by blast+
  then show ?thesis using True by simp
next
  case False
  have inv: "cluster_inv et marshal marshalP c" by (rule cluster_reach_inv [OF assms(1,2)]) (fact assms(3) assms(4))+
  show ?thesis using cluster_invD(2) [OF inv False, of u s r] assms(5-8) False by (auto simp: told_of_def present_def)
qed

section \<open>Two gateways\<close>

text \<open>A user connects to the gateways \<open>a\<close> and \<open>b\<close>; the codecs know these two announcements.\<close>

definition demo_types :: event_types where
  "demo_types = (case initEvents of Ok et \<Rightarrow> et | _ \<Rightarrow> \<lparr>et_events = Map.empty, et_types = Map.empty\<rparr>)"

definition demo_joins :: "string \<Rightarrow> UserConnected" where
  "demo_joins g = \<lparr>uc_GatewayID = g, uc_UserID = ''u'', uc_RemoteAddr = ''10.0.0.1:99'', uc_Metadata = Map.empty\<rparr>"

definition demo_marshalE :: "cluster_event \<Rightarrow> go_error + byte list" where
  "demo_marshalE ev = (if ev = EvConnected (demo_joins ''a'') then Inr [1]
     else if ev = EvConnected (demo_joins ''b'') then Inr [2] else Inl EOF)"

definition demo_unmarshalE :: "byte list \<Rightarrow> go_error + cluster_event" where
  "demo_unmarshalE d = Inr (EvConnected (demo_joins (if d = [1] then ''a'' else ''b'')))"

definition demo_marshalP :: "payload \<Rightarrow> go_error + byte list" where
  "demo_marshalP p = (if p_Time p = 7 \<and> p_Type p = ''user:connected'' then Inr (p_Detail p) else Inl EOF)"

definition demo_unmarshalP :: "byte list \<Rightarrow> go_error + payload" where
  "demo_unmarshalP d = Inr \<lparr>p_Time = 7, p_Type = ''user:connected'', p_Detail = d\<rparr>"

definition demo_cluster :: "cluster \<Rightarrow> bool" where
  "demo_cluster = cluster_reach demo_types demo_marshalE demo_marshalP demo_unmarshalP demo_unmarshalE"

text \<open>A gateway that has announced its first session, one that has stored it too.\<close>

definition demo_waiting :: "string \<Rightarrow> Proxy" where
  "demo_waiting g = fst (connectAnnounce (Inr (''u'', None)) None None 0 (demo_accept 0 (init_Proxy g)))"

definition demo_store :: "Proxy \<Rightarrow> Proxy" where
  "demo_store px = session_begin Connected 0 (hub_Store 0 px)"

lemma demo_types_init: "initEvents = Ok demo_types"
  by (simp add: demo_types_def initEvents_def Register_def)

lemma demo_codecs:
  "demo_marshalE e = Inr d \<Longrightarrow> demo_unmarshalE d = Inr e" "demo_marshalP p = Inr d \<Longrightarrow> demo_unmarshalP d = Inr p"
  by (auto simp: demo_marshalE_def demo_unmarshalE_def demo_marshalP_def demo_unmarshalP_def split: if_splits)

lemma demo_published:
  "published demo_types demo_marshalE demo_marshalP (EvConnected (demo_joins ''a'')) [1]"
  "published demo_types demo_marshalE demo_marshalP (EvConnected (demo_joins ''b'')) [2]"
proof -
  have "et_types demo_types (Named ''UserConnected'') = Some ''user:connected''"
    by (simp add: demo_types_def initEvents_def Register_def)
  then show "published demo_types demo_marshalE demo_marshalP (EvConnected (demo_joins ''a'')) [1]"
    "published demo_types demo_marshalE demo_marshalP (EvConnected (demo_joins ''b'')) [2]"
    unfolding published_def
    by (auto intro!: exI [of _ 7] simp: bus_Publish_def newPayload_def event_typeOf_def demo_marshalE_def demo_marshalP_def demo_joins_def)
qed

lemma demo_waiting_run: "connectAnnounce (Inr (''u'', None)) None None 0 (demo_accept 0 (init_Proxy g)) = (demo_waiting g, None)"
  by (simp add: demo_waiting_def connectAnnounce_def demo_run_simps)

lemma demo_waiting_facts:
  "px_events (demo_waiting g) = [EvConnected (demo_joins g)]" "px_nodeID (demo_waiting g) = g" "px_phase (demo_waiting g) 0 = Connecting"
  by (simp_all add: demo_waiting_def connectAnnounce_def demo_run_simps demo_joins_def sess_RemoteAddr_def)

lemma demo_store_open: "open_session (demo_store (demo_waiting g)) ''u'' s \<longleftrightarrow> s = 0"
  by (simp add: demo_store_def demo_waiting_def connectAnnounce_def demo_run_simps open_session_def)

lemma demo_cluster_accept:
  assumes "demo_cluster c" and "cs_gw c g = init_Proxy g"
  shows "demo_cluster (c\<lparr>cs_gw := (cs_gw c)(g := demo_accept 0 (init_Proxy g))\<rparr>)"
proof -
  let ?px = "demo_accept 0 (init_Proxy g)"
  have "gw_step (cs_gw c g) ?px" "px_events ?px = px_events (cs_gw c g) @ []" "keeps_connecting (cs_gw c g) ?px"
    using assms(2) step_accept [of "init_Proxy g" 0 True demo_gsession]
    by (simp_all add: demo_accept_def keeps_connecting_def) (simp_all add: accept_session_def init_Proxy_def)
  then show ?thesis using cl_step [OF assms(1) [unfolded demo_cluster_def]] by (fastforce simp: demo_cluster_def)
qed

lemma demo_cluster_announce:
  assumes "demo_cluster c" and "cs_gw c g = init_Proxy g" and "cs_pending c g = {}"
    and "published demo_types demo_marshalE demo_marshalP (EvConnected (demo_joins g)) d"
  shows "demo_cluster (c\<lparr>cs_gw := (cs_gw c)(g := demo_waiting g), cs_inbox := (\<lambda>h. cs_inbox c h @ [d]),
    cs_pending := (cs_pending c)(g := {0})\<rparr>)"
proof -
  let ?c = "c\<lparr>cs_gw := (cs_gw c)(g := demo_accept 0 (init_Proxy g))\<rparr>"
  have "cluster_reach demo_types demo_marshalE demo_marshalP demo_unmarshalP demo_unmarshalE ?c"
    using demo_cluster_accept [OF assms(1,2)] by (simp add: demo_cluster_def)
  moreover have "px_phase (cs_gw ?c g) 0 = Connecting" "px_events (cs_gw ?c g) = []"
    by (simp_all add: demo_accept_def accept_session_def init_Proxy_def)
  ultimately have "cluster_reach demo_types demo_marshalE demo_marshalP demo_unmarshalP demo_unmarshalE
      (?c\<lparr>cs_gw := (cs_gw ?c)(g := demo_waiting g), cs_inbox := (\<lambda>h. cs_inbox ?c h @ [d]),
         cs_pending := (cs_pending ?c)(g := insert 0 (cs_pending ?c g))\<rparr>)"
    using assms(3,4) demo_waiting_run [of g] demo_waiting_facts(1) [of g]
    by (intro cl_announce [where evs = "[EvConnected (demo_joins g)]" and i = "Inr (''u'', None)" and ic = None and p = None]) simp_all
  then show ?thesis using assms(3) by (simp add: demo_cluster_def)
qed

text \<open>
  Clusters in which only \<open>a\<close> and \<open>b\<close> run, what they and the others have in their inboxes, and
  their pending sessions.
\<close>

definition demo_state ::
  "Proxy \<Rightarrow> Proxy \<Rightarrow> byte list list \<Rightarrow> byte list list \<Rightarrow> byte list list \<Rightarrow> nat set \<Rightarrow> nat set \<Rightarrow> (string \<times> nat) set \<Rightarrow> cluster" where
  "demo_state ga gb ia ib io pa pb M =
     \<lparr>cs_gw = init_Proxy(''a'' := ga, ''b'' := gb), cs_inbox = (\<lambda>h. if h = ''a'' then ia else if h = ''b'' then ib else io),
      cs_pending = (\<lambda>_. {})(''a'' := pa, ''b'' := pb), cs_missed = M\<rparr>"

lemma demo_state_fields [simp]:
  "cs_gw (demo_state ga gb ia ib io pa pb M) ''a'' = ga" "cs_gw (demo_state ga gb ia ib io pa pb M) ''b'' = gb"
  "cs_inbox (demo_state ga gb ia ib io pa pb M) ''a'' = ia" "cs_inbox (demo_state ga gb ia ib io pa pb M) ''b'' = ib"
  "cs_pending (demo_state ga gb ia ib io pa pb M) ''a'' = pa" "cs_pending (demo_state ga gb ia ib io pa pb M) ''b'' = pb"
  "cs_missed (demo_state ga gb ia ib io pa pb M) = M"
  by (simp_all add: demo_state_def)

lemma demo_state_steps:
  "demo_cluster (demo_state (init_Proxy ''a'') (init_Proxy ''b'') [] [] [] {} {} {})"
  "demo_cluster (demo_state (init_Proxy ''a'') gb ia ib io {} pb M) \<Longrightarrow>
     demo_cluster (demo_state (demo_waiting ''a'') gb (ia @ [[1]]) (ib @ [[1]]) (io @ [[1]]) {0} pb M)"
  "demo_cluster (demo_state ga (init_Proxy ''b'') ia ib io pa {} M) \<Longrightarrow>
     demo_cluster (demo_state ga (demo_waiting ''b'') (ia @ [[2]]) (ib @ [[2]]) (io @ [[2]]) pa {0} M)"
  "demo_cluster (demo_state ga gb ia ib io {0} pb M) \<Longrightarrow> demo_cluster (demo_state (demo_store ga) gb ia ib io {} pb M)"
  "demo_cluster (demo_state ga gb ia ib io pa {0} M) \<Longrightarrow> demo_cluster (demo_state ga (demo_store gb) ia ib io pa {} M)"
  "demo_cluster (demo_state ga (init_Proxy ''b'') ia ib io pa pb M) \<Longrightarrow> demo_cluster (demo_state ga (init_Proxy ''b'') ia [] io pa pb M)"
proof -
  have "demo_state (init_Proxy ''a'') (init_Proxy ''b'') [] [] [] {} {} {} =
      \<lparr>cs_gw = init_Proxy, cs_inbox = (\<lambda>_. []), cs_pending = (\<lambda>_. {}), cs_missed = {}\<rparr>" by (auto simp: demo_state_def fun_eq_iff)
  then show "demo_cluster (demo_state (init_Proxy ''a'') (init_Proxy ''b'') [] [] [] {} {} {})"
    using cl_init by (simp add: demo_cluster_def)
  have eqs: "demo_state (demo_waiting ''a'') gb (ia @ [[1]]) (ib @ [[1]]) (io @ [[1]]) {0} pb M =
      (let c = demo_state (init_Proxy ''a'') gb ia ib io {} pb M
       in c\<lparr>cs_gw := (cs_gw c)(''a'' := demo_waiting ''a''), cs_inbox := (\<lambda>h. cs_inbox c h @ [[1]]), cs_pending := (cs_pending c)(''a'' := {0})\<rparr>)"
    "demo_state ga (demo_waiting ''b'') (ia @ [[2]]) (ib @ [[2]]) (io @ [[2]]) pa {0} M =
      (let c = demo_state ga (init_Proxy ''b'') ia ib io pa {} M
       in c\<lparr>cs_gw := (cs_gw c)(''b'' := demo_waiting ''b''), cs_inbox := (\<lambda>h. cs_inbox c h @ [[2]]), cs_pending := (cs_pending c)(''b'' := {0})\<rparr>)"
    "demo_state (demo_store ga) gb ia ib io {} pb M =
      (let c = demo_state ga gb ia ib io {0} pb M
       in c\<lparr>cs_gw := (cs_gw c)(''a'' := demo_store (cs_gw c ''a'')), cs_pending := (cs_pending c)(''a'' := cs_pending c ''a'' - {0})\<rparr>)"
    "demo_state ga (demo_store gb) ia ib io pa {} M =
      (let c = demo_state ga gb ia ib io pa {0} M
       in c\<lparr>cs_gw := (cs_gw c)(''b'' := demo_store (cs_gw c ''b'')), cs_pending := (cs_pending c)(''b'' := cs_pending c ''b'' - {0})\<rparr>)"
    "demo_state ga (init_Proxy ''b'') ia [] io pa pb M =
      (let c = demo_state ga (init_Proxy ''b'') ia ib io pa pb M in c\<lparr>cs_inbox := (cs_inbox c)(''b'' := [])\<rparr>)"
    by (auto simp: demo_state_def fun_eq_iff)
  show "demo_cluster (demo_state (init_Proxy ''a'') gb ia ib io {} pb M) \<Longrightarrow>
     demo_cluster (demo_state (demo_waiting ''a'') gb (ia @ [[1]]) (ib @ [[1]]) (io @ [[1]]) {0} pb M)"
    unfolding eqs(1) Let_def by (rule demo_cluster_announce [OF _ _ _ demo_published(1)]) simp_all
  show "demo_cluster (demo_state ga (init_Proxy ''b'') ia ib io pa {} M) \<Longrightarrow>
     demo_cluster (demo_state ga (demo_waiting ''b'') (ia @ [[2]]) (ib @ [[2]]) (io @ [[2]]) pa {0} M)"
    unfolding eqs(2) Let_def by (rule demo_cluster_announce [OF _ _ _ demo_published(2)]) simp_all
  show "demo_cluster (demo_state ga gb ia ib io {0} pb M) \<Longrightarrow> demo_cluster (demo_state (demo_store ga) gb ia ib io {} pb M)"
    unfolding eqs(3) Let_def unfolding demo_cluster_def demo_store_def by (rule cl_store) simp_all
  show "demo_cluster (demo_state ga gb ia ib io pa {0} M) \<Longrightarrow> demo_cluster (demo_state ga (demo_store gb) ia ib io pa {} M)"
    unfolding eqs(4) Let_def unfolding demo_cluster_def demo_store_def by (rule cl_store) simp_all
  show "demo_cluster (demo_state ga (init_Proxy ''b'') ia ib io pa pb M) \<Longrightarrow>
      demo_cluster (demo_state ga (init_Proxy ''b'') ia [] io pa pb M)"
    unfolding eqs(5) Let_def unfolding demo_cluster_def by (rule cl_subscribe) simp_all
qed

text \<open>A handled announcement is missed by pending sessions only.\<close>

lemma demo_state_handles:
  assumes "published demo_types demo_marshalE demo_marshalP (EvConnected ev) d"
  shows "demo_cluster (demo_state ga gb (d # ia) ib io pa pb M) \<Longrightarrow>
      \<exists>N. (pa = {} \<longrightarrow> N = {}) \<and> demo_cluster (demo_state (on_UserConnected ev ga) gb ia ib io pa pb (M \<union> N))"
    and "demo_cluster (demo_state ga gb ia (d # ib) io pa pb M) \<Longrightarrow>
      \<exists>N. (pb = {} \<longrightarrow> N = {}) \<and> demo_cluster (demo_state ga (on_UserConnected ev gb) ia ib io pa pb (M \<union> N))"
proof -
  have sub: "gw_subscription demo_types demo_unmarshalP demo_unmarshalE d px = on_UserConnected ev px" for px
    by (rule gw_subscription_published [OF demo_types_init assms]) (fact demo_codecs)+
  have none: "missed_by demo_types demo_marshalE demo_marshalP d g c = {}" if "cs_pending c g = {}" for g c
    using that by (simp add: missed_by_def)
  let ?c = "demo_state ga gb (d # ia) ib io pa pb M" and ?d = "demo_state ga gb ia (d # ib) io pa pb M"
  let ?N = "missed_by demo_types demo_marshalE demo_marshalP d ''a'' ?c" and ?K = "missed_by demo_types demo_marshalE demo_marshalP d ''b'' ?d"
  have "demo_state (on_UserConnected ev ga) gb ia ib io pa pb (M \<union> ?N) =
      ?c\<lparr>cs_gw := (cs_gw ?c)(''a'' := gw_subscription demo_types demo_unmarshalP demo_unmarshalE d (cs_gw ?c ''a'')),
         cs_inbox := (cs_inbox ?c)(''a'' := [] @ ia), cs_missed := cs_missed ?c \<union> ?N\<rparr>"
    unfolding sub by (auto simp: demo_state_def fun_eq_iff)
  then have "demo_cluster (demo_state (on_UserConnected ev ga) gb ia ib io pa pb (M \<union> ?N))" if "demo_cluster ?c"
    using cl_handle [OF that [unfolded demo_cluster_def], of "''a''" "[]" d ia] by (simp add: demo_cluster_def)
  then show "demo_cluster ?c \<Longrightarrow> \<exists>N. (pa = {} \<longrightarrow> N = {}) \<and> demo_cluster (demo_state (on_UserConnected ev ga) gb ia ib io pa pb (M \<union> N))"
    using none [of ?c "''a''"] by auto
  have "demo_state ga (on_UserConnected ev gb) ia ib io pa pb (M \<union> ?K) =
      ?d\<lparr>cs_gw := (cs_gw ?d)(''b'' := gw_subscription demo_types demo_unmarshalP demo_unmarshalE d (cs_gw ?d ''b'')),
         cs_inbox := (cs_inbox ?d)(''b'' := [] @ ib), cs_missed := cs_missed ?d \<union> ?K\<rparr>"
    unfolding sub by (auto simp: demo_state_def fun_eq_iff)
  then have "demo_cluster (demo_state ga (on_UserConnected ev gb) ia ib io pa pb (M \<union> ?K))" if "demo_cluster ?d"
    using cl_handle [OF that [unfolded demo_cluster_def], of "''b''" "[]" d ib] by (simp add: demo_cluster_def)
  then show "demo_cluster ?d \<Longrightarrow> \<exists>N. (pb = {} \<longrightarrow> N = {}) \<and> demo_cluster (demo_state ga (on_UserConnected ev gb) ia ib io pa pb (M \<union> N))"
    using none [of ?d "''b''"] by auto
qed

lemma demo_handles_a:
  "published demo_types demo_marshalE demo_marshalP (EvConnected ev) d \<Longrightarrow> demo_cluster (demo_state ga gb (d # ia) ib io {} pb M) \<Longrightarrow>
   demo_cluster (demo_state (on_UserConnected ev ga) gb ia ib io {} pb M)"
  using demo_state_handles(1) by fastforce

lemma demo_handles_b:
  "published demo_types demo_marshalE demo_marshalP (EvConnected ev) d \<Longrightarrow> demo_cluster (demo_state ga gb ia (d # ib) io pa {} M) \<Longrightarrow>
   demo_cluster (demo_state ga (on_UserConnected ev gb) ia ib io pa {} M)"
  using demo_state_handles(2) by fastforce

text \<open>A gateway ignores its own announcements.\<close>

lemma demo_own [simp]:
  "on_UserConnected (demo_joins g) (demo_waiting g) = demo_waiting g"
  "on_UserConnected (demo_joins g) (demo_store (demo_waiting g)) = demo_store (demo_waiting g)"
  using demo_waiting_facts(2) [of g] by (simp_all add: on_UserConnected_def demo_joins_def demo_store_def session_begin_def hub_Store_def)

text \<open>The user connects to \<open>a\<close> before \<open>b\<close> has started, and then moves to \<open>b\<close>.\<close>

definition demo_moved :: cluster where
  "demo_moved = demo_state (on_UserConnected (demo_joins ''b'') (demo_store (demo_waiting ''a''))) (demo_store (demo_waiting ''b'')) [] [] [[1], [2]] {} {} {}"

lemma demo_moved_run: "demo_cluster demo_moved"
proof -
  have "demo_cluster (demo_state (demo_waiting ''a'') (init_Proxy ''b'') [[1]] [] [[1]] {0} {} {})"
    using demo_state_steps(6) [OF demo_state_steps(2) [OF demo_state_steps(1)]] by simp
  then have "demo_cluster (demo_state (demo_store (demo_waiting ''a'')) (demo_waiting ''b'') [[1], [2]] [[2]] [[1], [2]] {} {0} {})"
    using demo_state_steps(3) [OF demo_state_steps(4)] by fastforce
  then have "demo_cluster (demo_state (demo_store (demo_waiting ''a'')) (demo_store (demo_waiting ''b'')) [[1], [2]] [[2]] [[1], [2]] {} {} {})"
    by (rule demo_state_steps(5))
  then have "demo_cluster (demo_state (demo_store (demo_waiting ''a'')) (demo_store (demo_waiting ''b'')) [[2]] [[2]] [[1], [2]] {} {} {})"
    using demo_handles_a [OF demo_published(1)] by fastforce
  then show ?thesis
    using demo_handles_b [OF demo_published(2) demo_handles_a [OF demo_published(2)]] by (fastforce simp: demo_moved_def)
qed

theorem cluster_single_session_witness:
  "demo_cluster demo_moved \<and> open_session (cs_gw demo_moved ''b'') ''u'' 0 \<and> cs_missed demo_moved = {} \<and>
   (\<forall>s. \<not> open_session (cs_gw demo_moved ''a'') ''u'' s)"
proof -
  have b: "open_session (cs_gw demo_moved ''b'') ''u'' 0" "cs_inbox demo_moved ''a'' = []" "cs_inbox demo_moved ''b'' = []"
    "cs_missed demo_moved = {}"
    by (simp_all add: demo_moved_def demo_store_open)
  have "''a'' = ''b'' \<and> s = 0 \<or> ''a'' \<noteq> ''b'' \<and> ((''a'', s) \<in> cs_missed demo_moved \<or> (''b'', 0) \<in> cs_missed demo_moved)"
    if "open_session (cs_gw demo_moved ''a'') ''u'' s" for s
    by (rule cluster_single_session [OF demo_moved_run [unfolded demo_cluster_def] demo_types_init _ _ b(2,3) that b(1)])
      (fact demo_codecs)+
  then show ?thesis using b demo_moved_run by auto
qed

text \<open>
  The window is real: two gateways announce the user, each handles the announcement of the other
  before it stores its own session, and both sessions stay open with nothing left to handle.
\<close>

theorem announced_before_stored:
  "\<exists>c. demo_cluster c \<and> cs_inbox c ''a'' = [] \<and> cs_inbox c ''b'' = [] \<and> cs_pending c ''a'' = {} \<and> cs_pending c ''b'' = {} \<and>
     open_session (cs_gw c ''a'') ''u'' 0 \<and> open_session (cs_gw c ''b'') ''u'' 0"
proof -
  let ?ea = "demo_joins ''a''" and ?eb = "demo_joins ''b''"
  let ?a = "on_UserConnected ?eb (demo_waiting ''a'')" and ?b = "on_UserConnected ?eb (on_UserConnected ?ea (demo_waiting ''b''))"
  have "demo_cluster (demo_state (demo_waiting ''a'') (demo_waiting ''b'') [[1], [2]] [[1], [2]] [[1], [2]] {0} {0} {})"
    using demo_state_steps(3) [OF demo_state_steps(2) [OF demo_state_steps(1)]] by simp
  from demo_state_handles(1) [OF demo_published(1) this]
  obtain M1 where "demo_cluster (demo_state (demo_waiting ''a'') (demo_waiting ''b'') [[2]] [[1], [2]] [[1], [2]] {0} {0} ({} \<union> M1))"
    by auto
  from demo_state_handles(1) [OF demo_published(2) this]
  obtain M2 where "demo_cluster (demo_state ?a (demo_waiting ''b'') [] [[1], [2]] [[1], [2]] {0} {0} ({} \<union> M1 \<union> M2))" by blast
  from demo_state_handles(2) [OF demo_published(1) this]
  obtain M3 where "demo_cluster (demo_state ?a (on_UserConnected ?ea (demo_waiting ''b'')) [] [[2]] [[1], [2]] {0} {0} ({} \<union> M1 \<union> M2 \<union> M3))" by blast
  from demo_state_handles(2) [OF demo_published(2) this]
  obtain M where "demo_cluster (demo_state ?a ?b [] [] [[1], [2]] {0} {0} M)" by blast
  then have "demo_cluster (demo_state (demo_store ?a) (demo_store ?b) [] [] [[1], [2]] {} {} M)"
    by (rule demo_state_steps(5) [OF demo_state_steps(4)])
  moreover have "open_session (demo_store ?a) ''u'' 0" "open_session (demo_store ?b) ''u'' 0"
    by (simp_all add: demo_store_def demo_waiting_def connectAnnounce_def demo_run_simps open_session_def on_UserConnected_def demo_joins_def)
  ultimately show ?thesis by (intro exI [of _ "demo_state (demo_store ?a) (demo_store ?b) [] [] [[1], [2]] {} {} M"]) simp
qed

text \<open>
  Announcements do not say when their session connected: when a user connects to two gateways
  and each handles the other's announcement afterwards, both sessions are closed, the newer
  one too, and the user is left without a session.
\<close>

theorem announcements_cross:
  "\<exists>c. demo_cluster c \<and> cs_inbox c ''a'' = [] \<and> cs_inbox c ''b'' = [] \<and>
     px_phase (cs_gw c ''a'') 0 = Serving \<and> px_phase (cs_gw c ''b'') 0 = Serving \<and> (\<forall>g s. \<not> open_session (cs_gw c g) ''u'' s)"
proof -
  let ?ja = "demo_store (demo_waiting ''a'')" and ?jb = "demo_store (demo_waiting ''b'')"
  let ?a = "on_UserConnected (demo_joins ''b'') ?ja" and ?b = "on_UserConnected (demo_joins ''b'') (on_UserConnected (demo_joins ''a'') ?jb)"
  have "demo_cluster (demo_state (demo_waiting ''a'') (demo_waiting ''b'') [[1], [2]] [[1], [2]] [[1], [2]] {0} {0} {})"
    using demo_state_steps(3) [OF demo_state_steps(2) [OF demo_state_steps(1)]] by simp
  then have "demo_cluster (demo_state ?ja ?jb [[1], [2]] [[1], [2]] [[1], [2]] {} {} {})"
    by (rule demo_state_steps(5) [OF demo_state_steps(4)])
  then have "demo_cluster (demo_state ?ja ?jb [[2]] [[1], [2]] [[1], [2]] {} {} {})"
    using demo_handles_a [OF demo_published(1)] by fastforce
  then have "demo_cluster (demo_state ?a ?b [] [] [[1], [2]] {} {} {})"
    by (rule demo_handles_b [OF demo_published(2) demo_handles_b [OF demo_published(1) demo_handles_a [OF demo_published(2)]]])
  moreover have "\<not> open_session ?a ''u'' s" "\<not> open_session ?b ''u'' s" "px_phase ?a 0 = Serving" "px_phase ?b 0 = Serving" for s
    by (auto simp: demo_store_def demo_waiting_def connectAnnounce_def demo_run_simps open_session_def on_UserConnected_def demo_joins_def)
  ultimately show ?thesis
    by (intro exI [of _ "demo_state ?a ?b [] [] [[1], [2]] {} {} {}"]) (auto simp: demo_state_def init_not_open)
qed

end
