(* ===== verification/Gateway_Quic.thy ===== *)
theory Gateway_Quic
  imports Gateway_Client "HOL-Library.Sublist"
begin

text \<open>
  A QUIC session at work (\<open>handleRequest\<close> and \<open>Recv\<close> of \<open>src/component/gateway/quic.go\<close>): a
  goroutine per stream reads messages and offers them to \<open>Recv\<close> on one channel without
  buffer, while streams are accepted and end and the session may be closed at any time. With
  the client's side of the streams, which order of requests survives.
\<close>

section \<open>The goroutines of a session\<close>

text \<open>
  The reader of a stream: what is left to read, and the message it offers. Of a run are kept:
  the bytes each stream carries, the streams that were read to their end, and what the calls
  of \<open>Recv\<close> returned with the stream it came from.
\<close>

record quic_reader =
  qr_in :: io_Reader
  qr_offers :: "Message option"

record quic_run =
  qx_sess :: quicSession
  qx_readers :: "int \<rightharpoonup> quic_reader"
  qx_carries :: "int \<rightharpoonup> byte list"
  qx_ended :: "int set"
  qx_recvd :: "(int \<times> (go_error + Request)) list"

definition qx_init :: "quicSession \<Rightarrow> quic_run" where
  "qx_init q = \<lparr>qx_sess = q, qx_readers = Map.empty, qx_carries = Map.empty, qx_ended = {}, qx_recvd = []\<rparr>"

definition qx_accept :: "int \<Rightarrow> io_Reader \<Rightarrow> quic_run \<Rightarrow> quic_run" where
  "qx_accept s r x = x\<lparr>qx_sess := q_acceptStream s (qx_sess x),
     qx_readers := (qx_readers x)(s \<mapsto> \<lparr>qr_in = r, qr_offers = None\<rparr>), qx_carries := (qx_carries x)(s \<mapsto> rd_bytes r)\<rparr>"

text \<open>The deferred function of a reader.\<close>

definition qx_leave :: "int \<Rightarrow> quic_run \<Rightarrow> quic_run" where
  "qx_leave s x = x\<lparr>qx_sess := q_streamEnded s (qx_sess x), qx_readers := (qx_readers x)(s := None)\<rparr>"

text \<open>
  A round of the reader's loop: \<open>msg\<close> is what the pool hands out. Then it offers the message;
  when the session is done it may leave instead.
\<close>

definition qx_read :: "(nat \<Rightarrow> nat) \<Rightarrow> int \<Rightarrow> Message \<Rightarrow> int \<Rightarrow> quic_reader \<Rightarrow> quic_run \<Rightarrow> quic_run go" where
  "qx_read growcap now msg s rd x =
     go_bind (ReadMessage growcap (qr_in rd) msg) (\<lambda>(r', msg', err).
       case err of
         Some _ \<Rightarrow> Ok ((qx_leave s x)\<lparr>qx_ended := insert s (qx_ended x)\<rparr>)
       | None \<Rightarrow> Ok (x\<lparr>qx_sess := (qx_sess x)\<lparr>q_lastRWTime := now\<rparr>,
                      qx_readers := (qx_readers x)(s \<mapsto> \<lparr>qr_in = r', qr_offers = Some msg'\<rparr>)\<rparr>))"

text \<open>\<open>Recv\<close> takes the offered message: a ping is dropped and the loop goes on, anything else is decoded and returned.\<close>

definition qx_take :: "(byte list \<Rightarrow> go_error + Request) \<Rightarrow> int \<Rightarrow> quic_reader \<Rightarrow> Message \<Rightarrow> quic_run \<Rightarrow> quic_run go" where
  "qx_take unmarshal s rd msg x =
     (let x' = x\<lparr>qx_readers := (qx_readers x)(s \<mapsto> rd\<lparr>qr_offers := None\<rparr>)\<rparr>
      in if msg_Len msg = 0 then Ok x'
         else go_bind (msg_Bytes msg) (\<lambda>data.
           Ok (x'\<lparr>qx_recvd := qx_recvd x @ [(s, case unmarshal data of
             Inl err \<Rightarrow> Inl (ErrWrap ''unmarshal request'' err) | Inr req \<Rightarrow> Inr req)]\<rparr>)))"

text \<open>
  Any step may come next: a read that fails before the end of the stream, since the
  connection is closed or lost, ends its reader (\<open>qx_breaks\<close>).
\<close>

inductive quic_reach :: "(nat \<Rightarrow> nat) \<Rightarrow> (byte list \<Rightarrow> go_error + Request) \<Rightarrow> quic_run \<Rightarrow> bool"
  for growcap unmarshal where
  qx_start: "quic_reach growcap unmarshal (qx_init (newQuicSession new_id now))"
| qx_accepts: "quic_reach growcap unmarshal x \<Longrightarrow> qx_carries x s = None \<Longrightarrow> quic_reach growcap unmarshal (qx_accept s r x)"
| qx_accept_fails: "quic_reach growcap unmarshal x \<Longrightarrow>
    quic_reach growcap unmarshal (x\<lparr>qx_sess := q_acceptFailed (qx_sess x)\<rparr>)"
| qx_reads: "quic_reach growcap unmarshal x \<Longrightarrow> qx_readers x s = Some rd \<Longrightarrow> qr_offers rd = None \<Longrightarrow> msg_ok msg \<Longrightarrow>
    qx_read growcap now msg s rd x = Ok x' \<Longrightarrow> quic_reach growcap unmarshal x'"
| qx_takes: "quic_reach growcap unmarshal x \<Longrightarrow> qx_readers x s = Some rd \<Longrightarrow> qr_offers rd = Some msg \<Longrightarrow>
    qx_take unmarshal s rd msg x = Ok x' \<Longrightarrow> quic_reach growcap unmarshal x'"
| qx_stops: "quic_reach growcap unmarshal x \<Longrightarrow> qx_readers x s = Some rd \<Longrightarrow> qr_offers rd \<noteq> None \<Longrightarrow> q_done (qx_sess x) \<Longrightarrow>
    quic_reach growcap unmarshal (qx_leave s x)"
| qx_breaks: "quic_reach growcap unmarshal x \<Longrightarrow> qx_readers x s = Some rd \<Longrightarrow> qr_offers rd = None \<Longrightarrow>
    quic_reach growcap unmarshal (qx_leave s x)"
| qx_closes: "quic_reach growcap unmarshal x \<Longrightarrow> quic_reach growcap unmarshal (x\<lparr>qx_sess := q_Close (qx_sess x)\<rparr>)"

section \<open>What is received\<close>

text \<open>What \<open>Recv\<close> makes of the messages of a stream, and what it returned for a stream.\<close>

definition received :: "(byte list \<Rightarrow> go_error + Request) \<Rightarrow> byte list list \<Rightarrow> (go_error + Request) list" where
  "received unmarshal ms = map (\<lambda>m. case unmarshal m of Inl err \<Rightarrow> Inl (ErrWrap ''unmarshal request'' err) | Inr req \<Rightarrow> Inr req)
     (filter (\<lambda>m. m \<noteq> []) ms)"

definition recvd_from :: "int \<Rightarrow> quic_run \<Rightarrow> (go_error + Request) list" where
  "recvd_from s x = map snd (filter (\<lambda>p. fst p = s) (qx_recvd x))"

text \<open>
  The reader of a stream that carries the messages \<open>ms\<close>: those before were received, it offers
  at most one, and the rest is still to be read.
\<close>

definition reader_at :: "(byte list \<Rightarrow> go_error + Request) \<Rightarrow> byte list list \<Rightarrow> int \<Rightarrow> quic_run \<Rightarrow> bool" where
  "reader_at unmarshal ms s x \<longleftrightarrow>
     (case qx_readers x s of
        None \<Rightarrow> (\<exists>pre. prefix pre ms \<and> recvd_from s x = received unmarshal pre \<and> (s \<in> qx_ended x \<longrightarrow> pre = ms))
      | Some rd \<Rightarrow> s \<notin> qx_ended x \<and> (\<exists>pre offer rest. ms = pre @ offer @ rest \<and> recvd_from s x = received unmarshal pre \<and>
          rd_bytes (qr_in rd) = concat (map frame rest) \<and>
          (case qr_offers rd of None \<Rightarrow> offer = [] | Some msg \<Rightarrow> \<exists>m. offer = [m] \<and> msg_Bytes msg = Ok m)))"

lemma reader_at_other:
  "qx_readers x' s = qx_readers x s \<Longrightarrow> recvd_from s x' = recvd_from s x \<Longrightarrow> s \<in> qx_ended x' \<longleftrightarrow> s \<in> qx_ended x \<Longrightarrow>
   reader_at unmarshal ms s x' = reader_at unmarshal ms s x"
  by (simp add: reader_at_def cong: option.case_cong)

lemma reader_at_SomeI:
  assumes "qx_readers x s = Some rd" and "s \<notin> qx_ended x" and "ms = pre @ offer @ rest" and "recvd_from s x = received unmarshal pre"
    and "rd_bytes (qr_in rd) = concat (map frame rest)"
    and "case qr_offers rd of None \<Rightarrow> offer = [] | Some msg \<Rightarrow> \<exists>m. offer = [m] \<and> msg_Bytes msg = Ok m"
  shows "reader_at unmarshal ms s x"
  unfolding reader_at_def using assms by (simp only: option.case) blast

lemma reader_at_NoneI:
  assumes "qx_readers x s = None" and "prefix pre ms" and "recvd_from s x = received unmarshal pre" and "s \<in> qx_ended x \<longrightarrow> pre = ms"
  shows "reader_at unmarshal ms s x"
  unfolding reader_at_def using assms by (simp only: option.case) blast

definition quic_inv :: "(byte list \<Rightarrow> go_error + Request) \<Rightarrow> quic_run \<Rightarrow> bool" where
  "quic_inv unmarshal x \<longleftrightarrow>
     (\<forall>s. qx_carries x s = None \<longrightarrow> qx_readers x s = None \<and> s \<notin> qx_ended x \<and> recvd_from s x = []) \<and>
     (\<forall>s ms. qx_carries x s = Some (concat (map frame ms)) \<longrightarrow> (\<forall>m \<in> set ms. int (length m) \<le> MaxMessageSize) \<longrightarrow>
        reader_at unmarshal ms s x)"

lemma quic_invD:
  assumes "quic_inv unmarshal x"
  shows "qx_carries x s = None \<Longrightarrow> qx_readers x s = None \<and> s \<notin> qx_ended x \<and> recvd_from s x = []"
    and "qx_carries x s = Some (concat (map frame ms)) \<Longrightarrow> \<forall>m \<in> set ms. int (length m) \<le> MaxMessageSize \<Longrightarrow>
      reader_at unmarshal ms s x"
  using assms unfolding quic_inv_def by blast+

lemma quic_inv_sess: "quic_inv unmarshal (x\<lparr>qx_sess := q\<rparr>) = quic_inv unmarshal x"
proof -
  have got: "recvd_from s (x\<lparr>qx_sess := q\<rparr>) = recvd_from s x" for s by (simp add: recvd_from_def)
  then have "reader_at unmarshal ms s (x\<lparr>qx_sess := q\<rparr>) = reader_at unmarshal ms s x" for ms s by (intro reader_at_other) simp_all
  then show ?thesis by (simp add: quic_inv_def got)
qed

text \<open>A step that concerns one stream, which the session knows already.\<close>

lemma quic_inv_stream:
  assumes "quic_inv unmarshal x" and "qx_carries x' = qx_carries x" and "qx_carries x s \<noteq> None"
    and "\<And>q. q \<noteq> s \<Longrightarrow> qx_readers x' q = qx_readers x q \<and> recvd_from q x' = recvd_from q x \<and> (q \<in> qx_ended x' \<longleftrightarrow> q \<in> qx_ended x)"
    and "\<And>ms. qx_carries x s = Some (concat (map frame ms)) \<Longrightarrow> \<forall>m \<in> set ms. int (length m) \<le> MaxMessageSize \<Longrightarrow>
      reader_at unmarshal ms s x \<Longrightarrow> reader_at unmarshal ms s x'"
  shows "quic_inv unmarshal x'"
proof -
  have "reader_at unmarshal ms q x'" if "qx_carries x' q = Some (concat (map frame ms))" "\<forall>m \<in> set ms. int (length m) \<le> MaxMessageSize" for q ms
  proof (cases "q = s")
    case True
    then show ?thesis using assms(5) [of ms] quic_invD(2) [OF assms(1), of s ms] that assms(2) by simp
  next
    case False
    then show ?thesis using assms(4) [OF False] quic_invD(2) [OF assms(1), of q ms] that assms(2) reader_at_other [of x' q x unmarshal ms] by simp
  qed
  moreover have "qx_readers x' q = None \<and> q \<notin> qx_ended x' \<and> recvd_from q x' = []" if "qx_carries x' q = None" for q
    using quic_invD(1) [OF assms(1), of q] assms(2,3) assms(4) [of q] that by (cases "q = s") auto
  ultimately show ?thesis unfolding quic_inv_def by blast
qed

lemma received_snoc: "received unmarshal (ms @ [m]) = received unmarshal ms @ received unmarshal [m]"
  by (simp add: received_def)

lemma frames_eq_Nil: "concat (map frame ms) = [] \<longleftrightarrow> ms = []"
  by (cases ms) (auto simp: frame_def dest: arg_cong [where f = length])

lemma reader_at_prefix:
  assumes "reader_at unmarshal ms s x"
  obtains pre where "prefix pre ms" and "recvd_from s x = received unmarshal pre" and "s \<in> qx_ended x \<longrightarrow> pre = ms"
proof (cases "qx_readers x s")
  case None
  then show thesis using assms that by (auto simp: reader_at_def)
next
  case (Some rd)
  obtain pre offer rest where "ms = pre @ offer @ rest" "recvd_from s x = received unmarshal pre" "s \<notin> qx_ended x"
    using assms Some by (auto simp: reader_at_def)
  then show thesis using that [of pre] by simp
qed

lemma reader_at_leave:
  assumes "reader_at unmarshal ms s x" and "qx_readers x s = Some rd"
  shows "reader_at unmarshal ms s (qx_leave s x)"
  using assms(1)
proof (rule reader_at_prefix)
  fix pre
  assume "prefix pre ms" "recvd_from s x = received unmarshal pre" "s \<in> qx_ended x \<longrightarrow> pre = ms"
  then show ?thesis by (intro reader_at_NoneI [of _ _ pre]) (auto simp: qx_leave_def recvd_from_def)
qed

lemma reader_at_read:
  assumes "reader_at unmarshal ms s x" and "\<forall>m \<in> set ms. int (length m) \<le> MaxMessageSize" and "qx_readers x s = Some rd"
    and "qr_offers rd = None" and "msg_ok msg" and "\<And>n. n \<le> growcap n" and "qx_read growcap now msg s rd x = Ok x'"
  shows "reader_at unmarshal ms s x'"
proof -
  obtain pre rest where ms: "ms = pre @ rest" "recvd_from s x = received unmarshal pre" "rd_bytes (qr_in rd) = concat (map frame rest)"
    and e: "s \<notin> qx_ended x"
    using assms(1,3,4) by (auto simp: reader_at_def)
  show ?thesis
  proof (cases rest)
    case Nil
    obtain r' msg' err where "ReadMessage growcap (qr_in rd) msg = Ok (r', msg', Some err)"
      using ms(3) Nil assms(5) by (auto simp: ReadMessage_def ReadFull_def SizeLen_def msg_ok_def)
    then have "x' = (qx_leave s x)\<lparr>qx_ended := insert s (qx_ended x)\<rparr>" using assms(7) by (simp add: qx_read_def)
    then show ?thesis using ms Nil by (intro reader_at_NoneI [of _ _ pre]) (auto simp: qx_leave_def recvd_from_def)
  next
    case (Cons m rest')
    have "int (length m) \<le> MaxMessageSize" "rd_bytes (qr_in rd) = frame m @ concat (map frame rest')"
      using assms(2) ms(1,3) Cons by auto
    then obtain msg' where m: "ReadMessage growcap (qr_in rd) msg = Ok ((qr_in rd)\<lparr>rd_bytes := concat (map frame rest')\<rparr>, msg', None)"
      "msg_Bytes msg' = Ok m"
      using ReadMessage_frame [OF assms(5) _ _ assms(6)] by blast
    then have "x' = x\<lparr>qx_sess := (qx_sess x)\<lparr>q_lastRWTime := now\<rparr>,
        qx_readers := (qx_readers x)(s \<mapsto> \<lparr>qr_in = (qr_in rd)\<lparr>rd_bytes := concat (map frame rest')\<rparr>, qr_offers = Some msg'\<rparr>)\<rparr>"
      using assms(7) by (simp add: qx_read_def)
    then show ?thesis using ms Cons m(2) e by (intro reader_at_SomeI [of _ _ _ _ pre "[m]" rest']) (auto simp: recvd_from_def)
  qed
qed

lemma reader_at_take:
  assumes "reader_at unmarshal ms s x" and "qx_readers x s = Some rd" and "qr_offers rd = Some msg"
    and "qx_take unmarshal s rd msg x = Ok x'"
  shows "reader_at unmarshal ms s x'"
proof -
  obtain pre m rest where ms: "ms = pre @ m # rest" "recvd_from s x = received unmarshal pre" "rd_bytes (qr_in rd) = concat (map frame rest)"
    and m: "msg_Bytes msg = Ok m" and e: "s \<notin> qx_ended x"
    using assms(1-3) by (auto simp: reader_at_def)
  have len: "msg_Len msg = 0 \<longleftrightarrow> m = []" using m by (auto simp: msg_Bytes_def msg_Len_def split: if_splits)
  have "recvd_from s x' = received unmarshal (pre @ [m])"
    using assms(4) ms(2) m len
    by (auto simp: qx_take_def Let_def recvd_from_def received_def split: if_splits)
  moreover have "qx_readers x' s = Some (rd\<lparr>qr_offers := None\<rparr>)" "qx_ended x' = qx_ended x"
    using assms(4) m by (auto simp: qx_take_def Let_def split: if_splits)
  ultimately show ?thesis using ms e by (intro reader_at_SomeI [of _ _ "rd\<lparr>qr_offers := None\<rparr>" _ "pre @ [m]" "[]" rest]) auto
qed

lemma quic_inv_leave:
  assumes "quic_inv unmarshal x" and "qx_readers x s = Some rd"
  shows "quic_inv unmarshal (qx_leave s x)"
proof -
  have known: "qx_carries x s \<noteq> None" using quic_invD(1) [OF assms(1), of s] assms(2) by auto
  show ?thesis
    by (rule quic_inv_stream [OF assms(1) _ known])
      (use reader_at_leave [OF _ assms(2)] in \<open>auto simp: qx_leave_def recvd_from_def\<close>)
qed

lemma quic_reach_inv:
  assumes "quic_reach growcap unmarshal x" and "\<And>n. n \<le> growcap n"
  shows "quic_inv unmarshal x"
  using assms(1)
proof (induction rule: quic_reach.induct)
  case (qx_start new_id now)
  show ?case by (simp add: quic_inv_def qx_init_def recvd_from_def)
next
  case (qx_accepts x s r)
  note D = quic_invD [OF qx_accepts(3)]
  let ?x = "qx_accept s r x"
  have got: "recvd_from q ?x = recvd_from q x" for q by (simp add: recvd_from_def qx_accept_def)
  have "reader_at unmarshal ms s ?x" if "rd_bytes r = concat (map frame ms)" for ms
    using that D(1) [OF qx_accepts(2)] by (intro reader_at_SomeI [of _ _ _ _ "[]" "[]" ms])
      (auto simp: qx_accept_def got received_def recvd_from_def)
  moreover have "reader_at unmarshal ms q ?x = reader_at unmarshal ms q x" if "q \<noteq> s" for q ms
    using that got [of q] by (intro reader_at_other) (simp_all add: qx_accept_def)
  ultimately show ?case
    using D got unfolding quic_inv_def by (auto simp: qx_accept_def)
next
  case (qx_accept_fails x)
  then show ?case by (simp add: quic_inv_sess)
next
  case (qx_reads x s rd msg now x')
  have known: "qx_carries x s \<noteq> None" using quic_invD(1) [OF qx_reads(6), of s] qx_reads(2) by auto
  have frame: "qx_carries x' = qx_carries x" "qx_recvd x' = qx_recvd x"
    "\<And>q. q \<noteq> s \<Longrightarrow> qx_readers x' q = qx_readers x q \<and> (q \<in> qx_ended x' \<longleftrightarrow> q \<in> qx_ended x)"
    using qx_reads(5) by (auto simp: qx_read_def qx_leave_def go_bind_Ok_iff split: option.splits)
  show ?case
    by (rule quic_inv_stream [OF qx_reads(6) frame(1) known])
      (use frame(2,3) reader_at_read [OF _ _ qx_reads(2-4) assms(2) qx_reads(5)] in \<open>auto simp: recvd_from_def\<close>)
next
  case (qx_takes x s rd msg x')
  have known: "qx_carries x s \<noteq> None" using quic_invD(1) [OF qx_takes(5), of s] qx_takes(2) by auto
  have frame: "qx_carries x' = qx_carries x" "qx_ended x' = qx_ended x"
    "\<And>q. q \<noteq> s \<Longrightarrow> qx_readers x' q = qx_readers x q \<and> recvd_from q x' = recvd_from q x"
    using qx_takes(4) by (auto simp: qx_take_def Let_def recvd_from_def go_bind_Ok_iff split: if_splits)
  show ?case
    by (rule quic_inv_stream [OF qx_takes(5) frame(1) known])
      (use frame(2,3) reader_at_take [OF _ qx_takes(2-4)] in auto)
next
  case (qx_stops x s rd)
  then show ?case by (blast intro: quic_inv_leave)
next
  case (qx_breaks x s rd)
  then show ?case by (blast intro: quic_inv_leave)
next
  case (qx_closes x)
  then show ?case by (simp add: quic_inv_sess)
qed

section \<open>The client's streams\<close>

text \<open>Requests sent one after the other, each with its service code.\<close>

fun quicc_sends :: "(byte list \<Rightarrow> go_error option) \<Rightarrow> (int \<times> byte list) list \<Rightarrow> quicConn \<Rightarrow> quicConn go" where
  "quicc_sends write [] qc = Ok qc"
| "quicc_sends write ((service, data) # xs) qc =
     go_bind (quicc_send write service data qc) (\<lambda>(qc', err).
       case err of Some e \<Rightarrow> Error e | None \<Rightarrow> quicc_sends write xs qc')"

lemma quicc_send_stream:
  assumes "quicc_send write service data qc = Ok (qc', None)" and "0 \<le> service" and "i < length (qc_streams qc)"
  shows "length (qc_streams qc') = length (qc_streams qc)"
    and "qc_streams qc' ! i = qc_streams qc ! i @ (if nat (service mod int (length (qc_streams qc))) = i then frame data else [])"
proof -
  let ?n = "int (length (qc_streams qc))"
  have n: "0 < ?n" using assms(3) by linarith
  have k: "go_rem service ?n = service mod ?n" using go_rem_eq_mod [OF assms(2) n] .
  have m: "0 \<le> service mod ?n" "service mod ?n < ?n" using n by simp_all
  then have "go_index (qc_streams qc) (go_rem service ?n) = Ok (qc_streams qc ! nat (service mod ?n))"
    using k by (simp add: go_index_Ok_iff)
  then have "qc' = qc\<lparr>qc_streams := (qc_streams qc)[nat (service mod ?n) := qc_streams qc ! nat (service mod ?n) @ frame data]\<rparr>"
    using assms(1) k by (auto simp: quicc_send_def Let_def split: option.splits)
  then show "length (qc_streams qc') = length (qc_streams qc)"
    "qc_streams qc' ! i = qc_streams qc ! i @ (if nat (service mod int (length (qc_streams qc))) = i then frame data else [])"
    using m by (auto simp: nth_list_update)
qed

lemma quicc_sends_stream:
  assumes "quicc_sends write xs qc = Ok qc'" and "\<forall>p \<in> set xs. 0 \<le> fst p" and "i < length (qc_streams qc)"
  shows "qc_streams qc' ! i = qc_streams qc ! i @
    concat (map frame (map snd (filter (\<lambda>p. nat (fst p mod int (length (qc_streams qc))) = i) xs)))"
  using assms
proof (induction xs arbitrary: qc)
  case (Cons p xs)
  obtain service data where p: "p = (service, data)" by (cases p)
  obtain qc1 where q: "quicc_send write service data qc = Ok (qc1, None)" "quicc_sends write xs qc1 = Ok qc'"
    using Cons.prems(1) p by (auto simp: go_bind_Ok_iff split: option.splits)
  note s = quicc_send_stream [OF q(1) _ Cons.prems(3)]
  show ?case using Cons.IH [OF q(2)] s Cons.prems(2,3) p by auto
qed simp

section \<open>Order of the requests of a service\<close>

definition recvd_requests :: "quic_run \<Rightarrow> Request list" where
  "recvd_requests x = List.map_filter (\<lambda>p. case snd p of Inr req \<Rightarrow> Some req | Inl _ \<Rightarrow> None) (qx_recvd x)"

lemma received_enc:
  "\<forall>r \<in> set rs. enc r \<noteq> [] \<and> unmarshal (enc r) = Inr r \<Longrightarrow> received unmarshal (map enc rs) = map Inr rs"
  by (induction rs) (simp_all add: received_def)

lemma filter_one_stream:
  assumes "\<forall>p \<in> set ps. \<forall>r. snd p = Inr r \<longrightarrow> P r \<longrightarrow> fst p = s"
  shows "filter P (List.map_filter (\<lambda>p. case snd p of Inr req \<Rightarrow> Some req | Inl _ \<Rightarrow> None) ps) =
    filter P (List.map_filter (\<lambda>res. case res of Inr req \<Rightarrow> Some req | Inl _ \<Rightarrow> None) (map snd (filter (\<lambda>p. fst p = s) ps)))"
  using assms by (induction ps) (auto simp: map_filter_simps split: sum.splits)

lemma requests_of_map_Inr: "List.map_filter (\<lambda>res. case res of Inr req \<Rightarrow> Some req | Inl _ \<Rightarrow> None) (map Inr rs) = rs"
  by (induction rs) (simp_all add: map_filter_simps)

text \<open>
  C15. Requests of one service keep their order over QUIC: a client sends them over its streams, a
  stream per service; whatever the session's goroutines do and however the streams interleave,
  the requests of a service that \<open>Recv\<close> returned are the first ones that were sent, in order and
  without gaps, and all of them once their stream has been read to its end.
\<close>

theorem quic_service_order:
  assumes "quic_reach growcap unmarshal x" and "\<And>k. k \<le> growcap k"
    and "quicc_sends write (map (\<lambda>r. (req_ServiceCode r, enc r)) reqs) qc = Ok qc'" and "qc_streams qc = replicate n []" and "0 < n"
    and "\<forall>r \<in> set reqs. 0 \<le> req_ServiceCode r \<and> enc r \<noteq> [] \<and> int (length (enc r)) \<le> MaxMessageSize \<and> unmarshal (enc r) = Inr r"
    and "inj_on sid {..<n}" and "\<And>s bs. qx_carries x s = Some bs \<Longrightarrow> \<exists>i < n. s = sid i \<and> bs = qc_streams qc' ! i"
  shows "prefix (filter (\<lambda>r. req_ServiceCode r = c) (recvd_requests x)) (filter (\<lambda>r. req_ServiceCode r = c) reqs) \<and>
    (sid (nat (c mod int n)) \<in> qx_ended x \<longrightarrow>
       filter (\<lambda>r. req_ServiceCode r = c) (recvd_requests x) = filter (\<lambda>r. req_ServiceCode r = c) reqs)"
proof -
  have inv: "quic_inv unmarshal x" using quic_reach_inv [OF assms(1,2)] .
  define on where "on i = filter (\<lambda>r. nat (req_ServiceCode r mod int n) = i) reqs" for i
  have bytes: "qc_streams qc' ! i = concat (map frame (map enc (on i)))" if "i < n" for i
    using quicc_sends_stream [OF assms(3), of i] assms(4,6) that by (auto simp: on_def filter_map comp_def)
  have got: "\<exists>rs. recvd_from (sid i) x = map Inr rs \<and> prefix rs (on i) \<and> (sid i \<in> qx_ended x \<longrightarrow> rs = on i)" if i: "i < n" for i
  proof (cases "qx_carries x (sid i)")
    case None
    then show ?thesis using quic_invD(1) [OF inv None] by auto
  next
    case (Some bs)
    obtain j where "j < n" "sid i = sid j" "bs = qc_streams qc' ! j" using assms(8) [OF Some] by blast
    then have "bs = concat (map frame (map enc (on i)))" using assms(7) i bytes by (auto dest: inj_onD)
    then have "reader_at unmarshal (map enc (on i)) (sid i) x"
      using assms(6) Some by (intro quic_invD(2) [OF inv]) (auto simp: on_def)
    then obtain pre where pre: "prefix pre (map enc (on i))" "recvd_from (sid i) x = received unmarshal pre"
      "sid i \<in> qx_ended x \<longrightarrow> pre = map enc (on i)"
      by (rule reader_at_prefix)
    then obtain rs where rs: "pre = map enc rs" "prefix rs (on i)"
      by (auto simp: prefix_def map_eq_append_conv)
    have "received unmarshal pre = map Inr rs"
      unfolding rs(1) using set_mono_prefix [OF rs(2)] assms(6) by (intro received_enc) (auto simp: on_def)
    moreover have "rs = on i" if "sid i \<in> qx_ended x"
      using pre(3) that rs by (auto simp: prefix_def dest: map_eq_imp_length_eq)
    ultimately show ?thesis using pre(2) rs(2) by auto
  qed
  let ?i = "nat (c mod int n)" and ?P = "\<lambda>r. req_ServiceCode r = c"
  have "c mod int n < int n" "0 \<le> c mod int n" using assms(5) by simp_all
  then have i: "?i < n" by linarith
  obtain rs where rs: "recvd_from (sid ?i) x = map Inr rs" "prefix rs (on ?i)" "sid ?i \<in> qx_ended x \<longrightarrow> rs = on ?i"
    using got [OF i] by blast
  have "fst p = sid ?i" if p: "p \<in> set (qx_recvd x)" "snd p = Inr r" "?P r" for p r
  proof -
    have r: "Inr r \<in> set (recvd_from (fst p) x)" using p(1,2) by (force simp: recvd_from_def)
    then obtain bs where "qx_carries x (fst p) = Some bs" using quic_invD(1) [OF inv, of "fst p"] by (cases "qx_carries x (fst p)") auto
    then obtain j where j: "j < n" "fst p = sid j" using assms(8) by blast
    then have "r \<in> set (on j)" using got [OF j(1)] r set_mono_prefix by fastforce
    then show ?thesis using j(2) p(3) by (auto simp: on_def)
  qed
  then have "filter ?P (recvd_requests x) = filter ?P rs"
    unfolding recvd_requests_def using filter_one_stream [of "qx_recvd x" ?P "sid ?i"] rs(1)
    by (auto simp: recvd_from_def requests_of_map_Inr)
  moreover have "filter ?P (on ?i) = filter ?P reqs" by (auto simp: on_def intro: filter_cong)
  ultimately show ?thesis using filter_mono_prefix [OF rs(2), of ?P] rs(3) by auto
qed

section \<open>A session at work\<close>

text \<open>
  A request with code 2 and one with code 3 over two streams. The second stream is read first,
  to its end; nothing has been read of the other one.
\<close>

definition quic_demo_req :: "int \<Rightarrow> Request" where
  "quic_demo_req c = \<lparr>req_Id = 1, req_ServiceCode = c, req_Method = ''M'', req_Data = [], req_NodeId = [], req_NoReply = False, req_Stream = []\<rparr>"

definition quic_demo_enc :: "Request \<Rightarrow> byte list" where
  "quic_demo_enc r = [if req_ServiceCode r = 2 then 2 else 3]"

definition quic_demo_dec :: "byte list \<Rightarrow> go_error + Request" where
  "quic_demo_dec data = Inr (quic_demo_req (if data = [2] then 2 else 3))"

definition quic_demo_msg :: Message where
  "quic_demo_msg = \<lparr>msg_data = replicate 8 0, msg_size = 0\<rparr>"

definition quic_demo_start :: quic_run where
  "quic_demo_start = qx_accept 1 \<lparr>rd_bytes = frame [3], rd_err = EOF\<rparr>
     (qx_accept 0 \<lparr>rd_bytes = frame [2], rd_err = EOF\<rparr> (qx_init (newQuicSession ''s'' 0)))"

lemma quic_demo_reach: "\<exists>x. quic_reach id quic_demo_dec x \<and> qx_carries x = [0 \<mapsto> frame [2], 1 \<mapsto> frame [3]] \<and>
  qx_ended x = {1} \<and> recvd_requests x = [quic_demo_req 3]"
proof -
  let ?r = "\<lparr>rd_bytes = frame [3], rd_err = EOF\<rparr>"
  have start: "quic_reach id quic_demo_dec quic_demo_start"
    unfolding quic_demo_start_def by (intro qx_accepts qx_start) (simp_all add: qx_init_def qx_accept_def)
  have m: "msg_ok quic_demo_msg" by (simp add: msg_ok_def SizeLen_def quic_demo_msg_def)
  obtain msg where read: "ReadMessage id ?r quic_demo_msg = Ok (?r\<lparr>rd_bytes := []\<rparr>, msg, None)" "msg_Bytes msg = Ok [3]"
    using ReadMessage_frame [OF m, of ?r "[3]" "[]" id] by (auto simp: MaxMessageSize_def)
  then have len: "msg_Len msg \<noteq> 0" by (cases "msg_size msg") (auto simp: msg_Bytes_def msg_Len_def split: if_splits)
  let ?rd = "\<lparr>qr_in = ?r\<lparr>rd_bytes := []\<rparr>, qr_offers = Some msg\<rparr>"
  let ?x1 = "quic_demo_start\<lparr>qx_sess := (qx_sess quic_demo_start)\<lparr>q_lastRWTime := 5\<rparr>,
    qx_readers := (qx_readers quic_demo_start)(1 \<mapsto> ?rd)\<rparr>"
  let ?rd2 = "?rd\<lparr>qr_offers := None\<rparr>"
  let ?x2 = "?x1\<lparr>qx_readers := (qx_readers ?x1)(1 \<mapsto> ?rd2), qx_recvd := [(1, Inr (quic_demo_req 3))]\<rparr>"
  have "quic_reach id quic_demo_dec ?x1"
    by (rule qx_reads [OF start _ _ m, of 1 "\<lparr>qr_in = ?r, qr_offers = None\<rparr>" 5])
      (simp_all add: qx_read_def read(1), simp_all add: quic_demo_start_def qx_accept_def)
  then have two: "quic_reach id quic_demo_dec ?x2"
    by (rule qx_takes [of _ _ _ 1 ?rd msg])
      (simp_all add: qx_take_def Let_def len read(2) quic_demo_dec_def, simp_all add: quic_demo_start_def qx_accept_def qx_init_def)
  have "quic_reach id quic_demo_dec ((qx_leave 1 ?x2)\<lparr>qx_ended := {1}\<rparr>)"
    by (rule qx_reads [OF two _ _ m, of 1 ?rd2 6])
      (simp_all add: qx_read_def ReadMessage_def ReadFull_def SizeLen_def quic_demo_msg_def,
       simp_all add: quic_demo_start_def qx_accept_def qx_init_def)
  then show ?thesis
    by (intro exI [of _ "(qx_leave 1 ?x2)\<lparr>qx_ended := {1}\<rparr>"] conjI) (simp_all add: qx_leave_def quic_demo_start_def qx_accept_def qx_init_def recvd_requests_def map_filter_simps fun_eq_iff)
qed

theorem quic_service_order_witness:
  "\<exists>x. quic_reach id quic_demo_dec x \<and> 1 \<in> qx_ended x \<and>
     filter (\<lambda>r. req_ServiceCode r = 3) (recvd_requests x) = filter (\<lambda>r. req_ServiceCode r = 3) [quic_demo_req 2, quic_demo_req 3]"
proof -
  let ?reqs = "[quic_demo_req 2, quic_demo_req 3]" and ?qc = "\<lparr>qc_streams = replicate 2 [], qc_done = False\<rparr>"
  obtain x where x: "quic_reach id quic_demo_dec x" "qx_carries x = [0 \<mapsto> frame [2], 1 \<mapsto> frame [3]]" "qx_ended x = {1}"
    using quic_demo_reach by blast
  have sent: "quicc_sends (\<lambda>_. None) (map (\<lambda>r. (req_ServiceCode r, quic_demo_enc r)) ?reqs) ?qc
      = Ok (?qc\<lparr>qc_streams := [frame [2], frame [3]]\<rparr>)"
    by (simp add: quicc_send_def Let_def go_rem_def go_index_def SendBytes_def quic_demo_req_def quic_demo_enc_def numeral_2_eq_2)
  have ok: "\<forall>r \<in> set ?reqs. 0 \<le> req_ServiceCode r \<and> quic_demo_enc r \<noteq> [] \<and> int (length (quic_demo_enc r)) \<le> MaxMessageSize \<and>
      quic_demo_dec (quic_demo_enc r) = Inr r"
    by (simp add: quic_demo_req_def quic_demo_enc_def quic_demo_dec_def MaxMessageSize_def)
  have inj: "inj_on int {..<2}" by (simp add: inj_on_def)
  have carried: "\<exists>i < 2. s = int i \<and> bs = qc_streams (?qc\<lparr>qc_streams := [frame [2], frame [3]]\<rparr>) ! i"
    if "qx_carries x s = Some bs" for s bs
    using that x(2) by (cases "s = 0"; cases "s = 1") (auto intro: exI [of _ 0] exI [of _ 1])
  show ?thesis
    using quic_service_order [OF x(1) _ sent _ _ ok inj carried, of 3] x by (intro exI [of _ x]) (simp del: filter.simps)
qed

end
