(* ===== verification/Rpc_Server.thy ===== *)
theory Rpc_Server
  imports Cluster_Balancer Nh_Messages Gateway_Proxy
begin

text \<open>
  The gRPC side of a service node (\<open>src/component/rpc\<close>): the server with its table of
  services, what it writes into the node's entry, the helpers that read the caller's
  identity from a request, errors with details, and the interceptors. The gRPC library is
  outside the program: a listener is its network and address, \<open>net_Listen\<close> opens one, the
  metadata of an incoming call is a map.
\<close>

section \<open>The server\<close>

record net_Listener =
  l_Network :: string
  l_Addr :: string

record GRPCServer =
  gs_listen :: string
  gs_endpoint :: string
  gs_listener :: "net_Listener option"
  gs_services :: "int \<rightharpoonup> GRPCServiceDesc"
  gs_registered :: "string list"

definition NewGRPCServer :: "string \<Rightarrow> GRPCServer" where
  "NewGRPCServer listenAddr = \<lparr>gs_listen = listenAddr, gs_endpoint = [], gs_listener = None,
     gs_services = Map.empty, gs_registered = []\<rparr>"

definition BindGRPCServer :: "net_Listener \<Rightarrow> GRPCServer" where
  "BindGRPCServer listener = \<lparr>gs_listen = [], gs_endpoint = [], gs_listener = Some listener,
     gs_services = Map.empty, gs_registered = []\<rparr>"

definition SetEndpoint :: "string \<Rightarrow> GRPCServer \<Rightarrow> GRPCServer" where
  "SetEndpoint endpoint gs = gs\<lparr>gs_endpoint := endpoint\<rparr>"

text \<open>The options of a service.\<close>

definition rpc_WithPublic :: "GRPCServiceDesc \<Rightarrow> GRPCServiceDesc" where
  "rpc_WithPublic desc = desc\<lparr>Public := True\<rparr>"

definition rpc_WithStateful :: "GRPCServiceDesc \<Rightarrow> GRPCServiceDesc" where
  "rpc_WithStateful desc = desc\<lparr>Stateful := True,
     Allocation := (if Allocation desc \<noteq> [] then Allocation desc else ServerAllocate)\<rparr>"

definition rpc_WithAllocation :: "string \<Rightarrow> GRPCServiceDesc \<Rightarrow> GRPCServiceDesc" where
  "rpc_WithAllocation allocation desc = desc\<lparr>Allocation := allocation\<rparr>"

definition rpc_WithBalancer :: "string \<Rightarrow> GRPCServiceDesc \<Rightarrow> GRPCServiceDesc" where
  "rpc_WithBalancer balancer desc = desc\<lparr>Balancer := balancer\<rparr>"

definition rpc_WithWeight :: "int \<Rightarrow> GRPCServiceDesc \<Rightarrow> GRPCServiceDesc" where
  "rpc_WithWeight weight desc = desc\<lparr>Weight := weight\<rparr>"

definition RegisterService ::
  "int \<Rightarrow> string \<Rightarrow> (GRPCServiceDesc \<Rightarrow> GRPCServiceDesc) list \<Rightarrow> GRPCServer \<Rightarrow> GRPCServer \<times> go_error option" where
  "RegisterService code serviceName options gs =
     (let sd0 = \<lparr>SvcName = serviceName, Code = code, Path = ''/'' @ serviceName, Public = False,
                 Balancer = BalancerRandom, Weight = 0, Stateful = False, Allocation = []\<rparr>;
          sd = fold (\<lambda>opt sd. opt sd) options sd0
      in case desc_Validate sd of
           Some err \<Rightarrow> (gs, Some err)
         | None \<Rightarrow>
             (case gs_services gs (Code sd) of
                Some _ \<Rightarrow> (gs, Some (ErrNew (''service code '' @ itoa (Code sd) @ '' already registered'')))
              | None \<Rightarrow> (gs\<lparr>gs_services := (gs_services gs)(Code sd \<mapsto> sd),
                              gs_registered := gs_registered gs @ [serviceName]\<rparr>, None)))"

text \<open>\<open>newListener\<close>: the network and the address it listens on.\<close>

definition strip_prefix :: "string \<Rightarrow> string \<Rightarrow> string option" where
  "strip_prefix p s = (if take (length p) s = p then Some (drop (length p) s) else None)"

definition newListener :: "(string \<Rightarrow> string \<Rightarrow> go_error + net_Listener) \<Rightarrow> string \<Rightarrow> go_error + net_Listener" where
  "newListener net_Listen addr =
     (case strip_prefix ''unix://'' addr of
        Some path \<Rightarrow> net_Listen ''unix'' path
      | None \<Rightarrow>
          (case strip_prefix ''unix:'' addr of
             Some path \<Rightarrow> net_Listen ''unix'' path
           | None \<Rightarrow> net_Listen ''tcp'' addr))"

text \<open>\<open>filepath_Abs\<close> makes the path of a unix socket absolute; its error panics.\<close>

definition addrFromListener :: "(string \<Rightarrow> go_error + string) \<Rightarrow> net_Listener \<Rightarrow> string go" where
  "addrFromListener filepath_Abs l =
     (if l_Network l = ''unix''
      then (case filepath_Abs (l_Addr l) of Inr path \<Rightarrow> Ok (''unix:'' @ path) | Inl err \<Rightarrow> Panic (err_text err))
      else Ok (l_Addr l))"

text \<open>Whether the text is an address whose IP is the unspecified one.\<close>

definition unspecified_addr :: "string \<Rightarrow> bool" where
  "unspecified_addr s = (case ParseAddrPort s of Inr (ip, _) \<Rightarrow> IsUnspecified (Unmap ip) | Inl _ \<Rightarrow> False)"

definition server_Start ::
  "(string \<Rightarrow> string \<Rightarrow> go_error + net_Listener) \<Rightarrow> (string \<Rightarrow> go_error + string) \<Rightarrow> GRPCServer \<Rightarrow>
   (GRPCServer \<times> go_error option) go" where
  "server_Start net_Listen filepath_Abs gs =
     (case (case gs_listener gs of Some l \<Rightarrow> Inr l | None \<Rightarrow> newListener net_Listen (gs_listen gs)) of
        Inl err \<Rightarrow> Ok (gs, Some err)
      | Inr l \<Rightarrow>
          go_bind (addrFromListener filepath_Abs l) (\<lambda>addr.
            let gs' = gs\<lparr>gs_listener := Some l, gs_listen := addr\<rparr>
            in if gs_endpoint gs = [] \<and> l_Network l = ''tcp'' \<and> unspecified_addr addr
               then Ok (gs', Some (ErrNew ''listen ip is unspecified''))
               else Ok (gs', None)))"

text \<open>\<open>Stop\<close> closes the listener after the graceful stop; \<open>closeErr\<close> is what that answers,
  and the result is the error that is logged.\<close>

definition server_Stop :: "go_error option \<Rightarrow> go_error option" where
  "server_Stop closeErr =
     (case closeErr of Some err \<Rightarrow> if errors_Is err ErrClosed then None else Some err | None \<Rightarrow> None)"

text \<open>\<open>lo.Values\<close> visits the services in the order \<open>codes\<close>.\<close>

definition rpc_CompleteNodeEntry :: "int list \<Rightarrow> GRPCServer \<Rightarrow> NodeEntry \<Rightarrow> NodeEntry" where
  "rpc_CompleteNodeEntry codes gs entry =
     entry\<lparr>GRPC := \<lparr>Endpoint = (if gs_endpoint gs \<noteq> [] then gs_endpoint gs else gs_listen gs),
                     Services = map_values codes (gs_services gs)\<rparr>\<rparr>"

section \<open>The caller of a request\<close>

definition GatewayIDInContext :: "(string \<Rightarrow> go_error + ulid) \<Rightarrow> metadata \<Rightarrow> ulid go" where
  "GatewayIDInContext ulid_Parse md =
     (case md MDGateway of
        Some (v # _) \<Rightarrow> (case ulid_Parse v of Inr nodeID \<Rightarrow> Ok nodeID | Inl err \<Rightarrow> Panic (err_text err))
      | _ \<Rightarrow> Panic ''gateway id not found in incoming context'')"

definition SessionIDInContext :: "metadata \<Rightarrow> string go" where
  "SessionIDInContext md =
     (case md MDSessID of
        Some (v # _) \<Rightarrow> Ok v
      | _ \<Rightarrow> Panic ''user id not found in incoming context'')"

section \<open>Errors\<close>

text \<open>
  A status error carries details; \<open>withDetails\<close> is \<open>Status.WithDetails\<close> and \<open>convert\<close>
  \<open>status.Convert\<close>. The result is the error that is returned: the status, or the error of
  attaching the details.
\<close>

record 'd status_err =
  se_Status :: Status
  se_Details :: "'d list"

definition NewError ::
  "('d status_err \<Rightarrow> 'd list \<Rightarrow> go_error + 'd status_err) \<Rightarrow> grpc_code \<Rightarrow> string \<Rightarrow> 'd list \<Rightarrow>
   go_error + 'd status_err" where
  "NewError withDetails code msg details =
     (let s = \<lparr>se_Status = \<lparr>st_Code = code, st_Message = msg\<rparr>, se_Details = []\<rparr>
      in if details = [] then Inr s else withDetails s details)"

definition ErrorWithDetail ::
  "('e \<Rightarrow> 'd status_err) \<Rightarrow> ('d status_err \<Rightarrow> 'd list \<Rightarrow> go_error + 'd status_err) \<Rightarrow> 'e \<Rightarrow> 'd list \<Rightarrow>
   'e + (go_error + 'd status_err)" where
  "ErrorWithDetail convert withDetails err details =
     (if details = [] then Inl err else Inr (withDetails (convert err) details))"

section \<open>Interceptors\<close>

record log_line =
  ll_level :: string
  ll_method :: string
  ll_sessID :: "string option"
  ll_transID :: "string option"
  ll_error :: "go_error option"

definition first_value :: "metadata option \<Rightarrow> string \<Rightarrow> string option" where
  "first_value md k =
     (case md of None \<Rightarrow> None | Some m \<Rightarrow> (case m k of Some (v # _) \<Rightarrow> Some v | _ \<Rightarrow> None))"

definition rpc_logRequest :: "metadata option \<Rightarrow> string \<Rightarrow> go_error option \<Rightarrow> log_line" where
  "rpc_logRequest md method err =
     \<lparr>ll_level = (if err \<noteq> None then ''error'' else ''info''), ll_method = method,
      ll_sessID = first_value md MDSessID, ll_transID = first_value md MDTransactionID, ll_error = err\<rparr>"

text \<open>
  \<open>defer logRequest(ctx, l, method)(err)\<close>: the argument \<open>err\<close> is evaluated when the defer
  statement runs, before the handler is called, while the named result is still nil.
\<close>

definition LogUnary ::
  "metadata option \<Rightarrow> string \<Rightarrow> ('req \<Rightarrow> 'resp option \<times> go_error option) \<Rightarrow> 'req \<Rightarrow>
   ('resp option \<times> go_error option) \<times> log_line" where
  "LogUnary md fullMethod handler req =
     (let deferred_err = None; result = handler req
      in (result, rpc_logRequest md fullMethod deferred_err))"

text \<open>\<open>lo.Assign\<close> merges the maps, the later ones first.\<close>

definition lo_Assign :: "(string \<rightharpoonup> int) list \<Rightarrow> (string \<rightharpoonup> int)" where
  "lo_Assign ms = fold (\<lambda>m acc. acc ++ m) ms Map.empty"

datatype 'm response = RespMsg 'm | RespReply Reply | RespNilReply

definition PackReply ::
  "('m \<Rightarrow> go_error + byte list) \<Rightarrow> (string \<rightharpoonup> int) list \<Rightarrow> string \<Rightarrow> ('req \<Rightarrow> 'm \<times> go_error option) \<Rightarrow> 'req \<Rightarrow>
   'm response \<times> go_error option" where
  "PackReply marshal replyCodes fullMethod handler req =
     (case handler req of
        (resp, Some err) \<Rightarrow> (RespMsg resp, Some err)
      | (resp, None) \<Rightarrow>
          (case lo_Assign replyCodes fullMethod of
             None \<Rightarrow> (RespMsg resp, None)
           | Some code \<Rightarrow>
               (case NewReply marshal code resp of
                  Inl err \<Rightarrow> (RespNilReply, Some (ErrWrap ''pack nodehub.Reply'' err))
                | Inr reply \<Rightarrow> (RespReply reply, None))))"

section \<open>The table of services\<close>

inductive rpc_reach :: "GRPCServer \<Rightarrow> bool" where
  rpc_new: "rpc_reach (NewGRPCServer addr)"
| rpc_bind: "rpc_reach (BindGRPCServer l)"
| rpc_endpoint: "rpc_reach gs \<Longrightarrow> rpc_reach (SetEndpoint e gs)"
| rpc_register: "rpc_reach gs \<Longrightarrow> rpc_reach (fst (RegisterService c n opts gs))"
| rpc_start: "rpc_reach gs \<Longrightarrow> server_Start nl fa gs = Ok (gs', err) \<Longrightarrow> rpc_reach gs'"

lemma server_Start_cases:
  assumes "server_Start nl fa gs = Ok (gs', err)"
  shows "gs' = gs \<and> err \<noteq> None \<or>
    (\<exists>l addr. gs' = gs\<lparr>gs_listener := Some l, gs_listen := addr\<rparr> \<and>
       (err = None \<longrightarrow> \<not> (gs_endpoint gs = [] \<and> l_Network l = ''tcp'' \<and> unspecified_addr addr)))"
proof -
  let ?l = "case gs_listener gs of Some l \<Rightarrow> Inr l | None \<Rightarrow> newListener nl (gs_listen gs)"
  show ?thesis
  proof (cases ?l)
    case (Inl e)
    then show ?thesis using assms by (auto simp: server_Start_def)
  next
    case (Inr l)
    then obtain addr where "addrFromListener fa l = Ok addr"
      using assms by (auto simp: server_Start_def go_bind_Ok_iff)
    then show ?thesis using assms Inr by (auto simp: server_Start_def Let_def split: if_splits)
  qed
qed

lemma server_Start_services:
  "server_Start nl fa gs = Ok (gs', err) \<Longrightarrow> gs_services gs' = gs_services gs \<and> gs_endpoint gs' = gs_endpoint gs"
  using server_Start_cases by fastforce

lemma rpc_services_ok:
  "rpc_reach gs \<Longrightarrow> gs_services gs c = Some d \<Longrightarrow> Code d = c \<and> desc_ok d"
proof (induction arbitrary: c d rule: rpc_reach.induct)
  case (rpc_register gs code n opts)
  then show ?case
    by (auto simp: RegisterService_def Let_def desc_Validate_None_iff split: option.splits if_splits)
next
  case (rpc_start gs nl fa gs' err)
  then show ?case using server_Start_services [OF rpc_start.hyps(2)] by simp
qed (simp_all add: NewGRPCServer_def BindGRPCServer_def SetEndpoint_def)

lemma map_values_keyed:
  assumes "\<And>k v. m k = Some v \<Longrightarrow> key v = k" and "enumerates ks m"
  shows "map key (map_values ks m) = ks" and "set (map_values ks m) = ran m"
proof -
  have "set ks \<subseteq> dom m \<Longrightarrow> map key (map_values ks m) = ks" for ks
    by (induction ks) (auto simp: map_values_def List.map_filter_def dest: assms(1))
  then show "map key (map_values ks m) = ks" using assms(2) by (simp add: enumerates_def)
  show "set (map_values ks m) = ran m"
    using assms(2) by (force simp: map_values_def List.map_filter_def enumerates_def ran_def dom_def)
qed

section \<open>Properties\<close>

lemma entry_facts:
  assumes "rpc_reach gs" and "server_Start nl fa gs = Ok (gs', None)" and "enumerates codes (gs_services gs')"
  shows "map Code (Services (GRPC (rpc_CompleteNodeEntry codes gs' e))) = codes"
    and "set (Services (GRPC (rpc_CompleteNodeEntry codes gs' e))) = ran (gs_services gs)"
    and "Endpoint (GRPC (rpc_CompleteNodeEntry codes gs' e)) \<noteq> [] \<Longrightarrow>
      grpc_Validate (GRPC (rpc_CompleteNodeEntry codes gs' e)) = None"
    and "gs_endpoint gs = [] \<Longrightarrow> gs_listener gs' = Some l \<Longrightarrow> l_Network l = ''tcp'' \<Longrightarrow>
      ParseAddrPort (Endpoint (GRPC (rpc_CompleteNodeEntry codes gs' e))) = Inr (ip, port) \<Longrightarrow>
      \<not> IsUnspecified (Unmap ip)"
proof -
  have r': "rpc_reach gs'" by (rule rpc_start [OF assms(1,2)])
  note ok = rpc_services_ok [OF r']
  note st = server_Start_services [OF assms(2)]
  have vals: "map Code (map_values codes (gs_services gs')) = codes"
    "set (map_values codes (gs_services gs')) = ran (gs_services gs')"
    using map_values_keyed [OF _ assms(3), of Code] ok by auto
  show "map Code (Services (GRPC (rpc_CompleteNodeEntry codes gs' e))) = codes"
    "set (Services (GRPC (rpc_CompleteNodeEntry codes gs' e))) = ran (gs_services gs)"
    using vals st by (simp_all add: rpc_CompleteNodeEntry_def)
  show "grpc_Validate (GRPC (rpc_CompleteNodeEntry codes gs' e)) = None"
    if "Endpoint (GRPC (rpc_CompleteNodeEntry codes gs' e)) \<noteq> []"
    using that ok vals(2) by (auto simp: grpc_Validate_None_iff rpc_CompleteNodeEntry_def ran_def)
  show "\<not> IsUnspecified (Unmap ip)"
    if "gs_endpoint gs = []" "gs_listener gs' = Some l" "l_Network l = ''tcp''"
      "ParseAddrPort (Endpoint (GRPC (rpc_CompleteNodeEntry codes gs' e))) = Inr (ip, port)"
  proof -
    have "ParseAddrPort (gs_listen gs') = Inr (ip, port)"
      using that(1,4) st by (simp add: rpc_CompleteNodeEntry_def)
    moreover have "\<not> unspecified_addr (gs_listen gs')"
      using server_Start_cases [OF assms(2)] that(1-3) by auto
    ultimately show ?thesis by (simp add: unspecified_addr_def)
  qed
qed

definition demo_server :: GRPCServer where
  "demo_server = fst (RegisterService 7 ''chat.Room'' [rpc_WithPublic, rpc_WithStateful] (NewGRPCServer ''10.0.0.2:9000''))"

text \<open>
  What a started server writes into the node's entry is valid and complete: the entry
  lists exactly the registered services, each code once, each description passes
  validation, so the gRPC part of the entry passes \<open>Validate\<close> when the address is not
  empty; and without an explicit endpoint a TCP server never announces an unspecified
  address.
\<close>

theorem started_server_entry:
  fixes e :: NodeEntry
  assumes "rpc_reach gs" and "server_Start nl fa gs = Ok (gs', None)" and "enumerates codes (gs_services gs')"
  defines "e' \<equiv> rpc_CompleteNodeEntry codes gs' e"
  shows "map Code (Services (GRPC e')) = codes \<and> set (Services (GRPC e')) = ran (gs_services gs) \<and>
    (Endpoint (GRPC e') \<noteq> [] \<longrightarrow> grpc_Validate (GRPC e') = None) \<and>
    (gs_endpoint gs = [] \<and> map_option l_Network (gs_listener gs') = Some ''tcp'' \<longrightarrow>
       \<not> unspecified_addr (Endpoint (GRPC e')))"
  using entry_facts [OF assms(1-3)] unfolding e'_def
  by (auto simp: unspecified_addr_def split: sum.splits)

theorem started_server_entry_witness:
  "\<exists>gs'. server_Start (\<lambda>n a. Inr \<lparr>l_Network = n, l_Addr = a\<rparr>) Inr demo_server = Ok (gs', None) \<and>
     (\<forall>e. map Code (Services (GRPC (rpc_CompleteNodeEntry [7] gs' e))) = [7])"
proof -
  have reach: "rpc_reach demo_server" unfolding demo_server_def by (intro rpc_register rpc_new)
  have p: "ParseAddrPort ''10.0.0.2:9000'' = Inr (Addr4 [10, 0, 0, 2], 9000)" by code_simp
  have u: "\<not> unspecified_addr ''10.0.0.2:9000''"
    using p by (simp add: unspecified_addr_def IsUnspecified_def numeral_eq_Suc)
  have d: "gs_listener demo_server = None" "gs_listen demo_server = ''10.0.0.2:9000''"
    by (simp_all add: demo_server_def RegisterService_def NewGRPCServer_def Let_def split: option.splits)
  obtain gs' where run: "server_Start (\<lambda>n a. Inr \<lparr>l_Network = n, l_Addr = a\<rparr>) Inr demo_server = Ok (gs', None)"
    using u by (simp add: server_Start_def d newListener_def strip_prefix_def addrFromListener_def Let_def)
  note svc = conjunct1 [OF server_Start_services [OF run]]
  have "dom (gs_services demo_server) = {7}"
    by (simp add: demo_server_def RegisterService_def NewGRPCServer_def desc_Validate_def rpc_WithPublic_def
        rpc_WithStateful_def BalancerRandom_def alloc_defs Let_def)
  then have "enumerates [7] (gs_services gs')" by (simp add: enumerates_def svc)
  with started_server_entry [OF reach run] run show ?thesis by blast
qed

text \<open>
  A service knows who is calling: for every call the gateway makes, the callee reads
  from the request's metadata the id of the client's session and the id of the gateway,
  whatever metadata the session carries.
\<close>

theorem callee_sees_caller:
  assumes "handleRequest env gatewayID interceptor sess req reg st = Ok res"
    and "hr_call res = Some (conn, method, md, payload)" and "ulid_Parse gatewayID = Inr nodeID"
  shows "SessionIDInContext md = Ok (si_ID sess) \<and> GatewayIDInContext ulid_Parse md = Ok nodeID"
proof -
  obtain res0 where f: "forwardRequest env gatewayID interceptor sess req reg st = Ok res0"
    and "hr_call res = hr_call res0"
    using assms(1) by (auto simp: handleRequest_def go_bind_Ok_iff split: option.splits)
  then have "md = (si_md sess)(MDTransactionID \<mapsto> [env_transactionID env], MDSessID \<mapsto> [si_ID sess],
      MDGateway \<mapsto> [gatewayID])"
    using assms(2) by (cases rule: hr_cases [OF f]) auto
  then show ?thesis
    using assms(3) by (simp add: SessionIDInContext_def GatewayIDInContext_def MDSessID_def MDGateway_def)
qed

theorem callee_sees_caller_witness:
  "\<exists>md. SessionIDInContext md = Ok (si_ID demo_sess) \<and> GatewayIDInContext (\<lambda>_. Inr (ULID 3 4)) md = Ok (ULID 3 4)"
proof -
  obtain res conn mth md data where
    "handleRequest demo_env ''gw'' (Inr True) demo_sess (demo_req ''Say'') demo_registry Map.empty = Ok res"
    "hr_call res = Some (conn, mth, md, data)"
    using demo_handle_Say [of Map.empty] by force
  from callee_sees_caller [OF this, of "\<lambda>_. Inr (ULID 3 4)" "ULID 3 4"] show ?thesis by blast
qed

text \<open>
  The request log of \<open>LogUnary\<close> never reports a failure: whatever the handler returns,
  the line is the one of a successful request, because the deferred call's argument is
  evaluated before the handler runs.
\<close>

theorem LogUnary_hides_errors:
  "LogUnary md fullMethod handler req = (handler req, rpc_logRequest md fullMethod None) \<and>
   ll_level (snd (LogUnary md fullMethod handler req)) = ''info'' \<and>
   ll_error (snd (LogUnary md fullMethod handler req)) = None"
  by (simp add: LogUnary_def rpc_logRequest_def)

text \<open>
  A response packed by \<open>PackReply\<close> reaches the client intact: for a method with a reply
  code, what the client unpacks from the reply the gateway passes on is the handler's
  response, provided the reply type is registered and its decoder undoes the encoder;
  errors and methods without a code pass unchanged.
\<close>

theorem PackReply_unpacks:
  "case handler req of
     (resp, Some err) \<Rightarrow> PackReply marshal replyCodes fullMethod handler req = (RespMsg resp, Some err)
   | (resp, None) \<Rightarrow>
       (case lo_Assign replyCodes fullMethod of
          None \<Rightarrow> PackReply marshal replyCodes fullMethod handler req = (RespMsg resp, None)
        | Some code \<Rightarrow> marshal resp = Inr data \<and> decoder data = Inr resp \<longrightarrow>
            (\<exists>reply. PackReply marshal replyCodes fullMethod handler req = (RespReply reply, None) \<and>
              UnpackReply (RegisterReplyType svc code decoder types)
                (reply\<lparr>rep_RequestId := i, rep_ServiceCode := svc\<rparr>) = Some (Inr resp)))"
  by (auto simp: PackReply_def NewReply_def UnpackReply_def GetReplyType_def RegisterReplyType_def
      split: prod.split option.split)

theorem PackReply_unpacks_witness:
  "\<exists>reply. PackReply (\<lambda>m. Inr [m]) [[''/chat.Room/Say'' \<mapsto> 3]] ''/chat.Room/Say'' (\<lambda>r. (r, None)) (7 :: byte) =
      (RespReply reply, None) \<and>
    UnpackReply (RegisterReplyType 2 3 (\<lambda>d. Inr (hd d)) Map.empty) (reply\<lparr>rep_RequestId := 1, rep_ServiceCode := 2\<rparr>) =
      Some (Inr 7)"
  using PackReply_unpacks [where handler = "\<lambda>r. (r, None)" and req = "7 :: byte" and marshal = "\<lambda>m. Inr [m]"
      and replyCodes = "[[''/chat.Room/Say'' \<mapsto> 3]]" and fullMethod = "''/chat.Room/Say''" and data = "[7]"
      and decoder = "\<lambda>d. Inr (hd d)" and svc = 2 and types = Map.empty and i = 1]
  by (simp add: lo_Assign_def)

end
