(* ===== verification/Gateway_Transport.thy ===== *)
theory Gateway_Transport
  imports Gateway_Session
begin

text \<open>
  The transports as the proxy sees them: the interface \<open>Transporter\<close>
  (\<open>src/component/gateway/options.go\<close>) with its servers in \<open>tcp.go\<close>, \<open>websocket.go\<close> and
  \<open>quic.go\<close>, and the part of the interface \<open>Session\<close> that identifies a session.

  Listeners and packet connections are numbers, \<open>listen\<close> is the outcome of listening, and
  \<open>url_String\<close> is \<open>URL.String\<close> of a URL with the scheme \<open>ws\<close>, a host and a path.
\<close>

section \<open>Websocket server\<close>

record wsServer =
  wss_host :: string
  wss_path :: string
  wss_listener :: "nat option"
  wss_server :: bool

definition NewWSServer :: "string \<Rightarrow> string \<Rightarrow> wsServer" where
  "NewWSServer listenAddr urlPath = \<lparr>wss_host = listenAddr, wss_path = urlPath, wss_listener = None, wss_server = False\<rparr>"

definition BindWSServer :: "nat \<Rightarrow> string \<Rightarrow> string \<Rightarrow> wsServer" where
  "BindWSServer listener addr urlPath =
     \<lparr>wss_host = addr, wss_path = urlPath, wss_listener = Some listener, wss_server = False\<rparr>"

definition ws_CompleteNodeEntry :: "(string \<Rightarrow> string \<Rightarrow> string) \<Rightarrow> wsServer \<Rightarrow> NodeEntry \<Rightarrow> NodeEntry" where
  "ws_CompleteNodeEntry url_String ws entry = entry\<lparr>Entrance := url_String (wss_host ws) (wss_path ws)\<rparr>"

text \<open>\<open>Serve\<close> makes the HTTP server and returns; it listens in a goroutine.\<close>

definition ws_Serve :: "wsServer \<Rightarrow> wsServer go" where
  "ws_Serve ws = Ok (ws\<lparr>wss_server := True\<rparr>)"

definition ErrServerClosed :: go_error where "ErrServerClosed = ErrNew ''http: Server closed''"

text \<open>The end of that goroutine, after it closed the channel of sessions.\<close>

definition ws_serve_end :: "go_error option \<Rightarrow> unit go" where
  "ws_serve_end err =
     (case err of
        None \<Rightarrow> Ok ()
      | Some e \<Rightarrow> if e \<noteq> ErrServerClosed then Panic (err_text (ErrWrap ''start gateway'' e)) else Ok ())"

text \<open>
  The handler of an HTTP request: a connection that cannot be upgraded is logged; a session
  is handed over while the channel is open. A send on the closed channel panics, which is
  recovered, and the session is left behind unserved.
\<close>

datatype ws_handled = WsRejected go_error | WsDelivered wsSession | WsLost wsSession

definition ws_handle :: "wsSession go \<Rightarrow> bool \<Rightarrow> ws_handled" where
  "ws_handle session chan_closed =
     (case session of
        Error err \<Rightarrow> WsRejected err
      | Panic p \<Rightarrow> WsRejected (ErrNew p)
      | Ok sess \<Rightarrow> if chan_closed then WsLost sess else WsDelivered sess)"

definition ws_Shutdown :: "go_error option \<Rightarrow> wsServer \<Rightarrow> go_error option go" where
  "ws_Shutdown shutdownErr ws = (if wss_server ws then Ok shutdownErr else Panic ''nil pointer dereference'')"

section \<open>QUIC server\<close>

record quicServer =
  qsv_listenAddr :: string
  qsv_packetConn :: "nat option"
  qsv_listener :: "nat option"

definition NewQUICServer :: "string \<Rightarrow> quicServer" where
  "NewQUICServer listenAddr = \<lparr>qsv_listenAddr = listenAddr, qsv_packetConn = None, qsv_listener = None\<rparr>"

definition BindQUICServer :: "nat \<Rightarrow> string \<Rightarrow> quicServer" where
  "BindQUICServer conn addr = \<lparr>qsv_listenAddr = addr, qsv_packetConn = Some conn, qsv_listener = None\<rparr>"

definition qsv_CompleteNodeEntry :: "quicServer \<Rightarrow> NodeEntry \<Rightarrow> NodeEntry" where
  "qsv_CompleteNodeEntry qs = quic_CompleteNodeEntry (qsv_listenAddr qs)"

definition quic_Serve ::
  "(nat \<Rightarrow> go_error + nat) \<Rightarrow> (string \<Rightarrow> go_error + nat) \<Rightarrow> quicServer \<Rightarrow> quicServer go" where
  "quic_Serve listen listenAddr qs =
     (case (case qsv_packetConn qs of Some conn \<Rightarrow> listen conn | None \<Rightarrow> listenAddr (qsv_listenAddr qs)) of
        Inl err \<Rightarrow> Error (ErrWrap ''listen'' err)
      | Inr l \<Rightarrow> Ok (qs\<lparr>qsv_listener := Some l\<rparr>))"

text \<open>Its accept loop ends, and closes the channel of sessions, at the first error.\<close>

fun quic_accept_loop :: "('c \<Rightarrow> 's) \<Rightarrow> (go_error + 'c) list \<Rightarrow> 's list" where
  "quic_accept_loop newSession [] = []"
| "quic_accept_loop newSession (Inl err # evs) = []"
| "quic_accept_loop newSession (Inr conn # evs) = newSession conn # quic_accept_loop newSession evs"

definition quic_Shutdown :: "go_error option \<Rightarrow> quicServer \<Rightarrow> go_error option go" where
  "quic_Shutdown closeErr qs =
     (if qsv_listener qs = None then Panic ''nil pointer dereference'' else Ok closeErr)"

definition tcp_Shutdown :: "go_error option \<Rightarrow> tcpServer \<Rightarrow> go_error option go" where
  "tcp_Shutdown closeErr ts =
     (if tcp_listener ts = None then Panic ''nil pointer dereference'' else Ok closeErr)"

section \<open>The interface \<open>Transporter\<close>\<close>

text \<open>
  What the proxy and the node rely on: a transporter completes an entry by its entrance
  only, the entrance does not depend on whether it serves already, and once it serves it can
  be shut down.
\<close>

locale transporter =
  fixes complete :: "'t \<Rightarrow> NodeEntry \<Rightarrow> NodeEntry"
    and serve :: "'t \<Rightarrow> 't go"
    and shutdown :: "go_error option \<Rightarrow> 't \<Rightarrow> go_error option go"
  assumes complete_entrance: "\<exists>s. \<forall>e. complete t e = e\<lparr>Entrance := s\<rparr>"
    and serve_complete: "serve t = Ok t' \<Longrightarrow> complete t' = complete t"
    and serve_shutdown: "serve t = Ok t' \<Longrightarrow> shutdown err t' = Ok err"
    and serve_no_panic: "serve t \<noteq> Panic p"
begin

lemma complete_idem: "complete t (complete t e) = complete t e"
  using complete_entrance [of t] by auto

lemma complete_keeps:
  "ID (complete t e) = ID e" "Name (complete t e) = Name e" "State (complete t e) = State e"
  "GRPC (complete t e) = GRPC e" "Metrics (complete t e) = Metrics e" "GitVersion (complete t e) = GitVersion e"
  using complete_entrance [of t] by auto

text \<open>The entrance that is registered after starting is the one announced before.\<close>

lemma entrance_stable: "serve t = Ok t' \<Longrightarrow> Entrance (complete t' e) = Entrance (complete t e')"
  using complete_entrance [of t] serve_complete [of t t'] by auto

lemma restarted_shutdown: "serve t = Ok t' \<Longrightarrow> serve t' = Ok t'' \<Longrightarrow> shutdown err t'' = Ok err \<and> complete t'' = complete t"
  using serve_shutdown serve_complete by auto

end

interpretation tcp_transport: transporter tcp_CompleteNodeEntry "tcp_Listen listen" tcp_Shutdown
  by unfold_locales
    (auto simp: tcp_CompleteNodeEntry_def tcp_Listen_def tcp_Shutdown_def fun_eq_iff split: option.splits sum.splits)

interpretation ws_transport: transporter "ws_CompleteNodeEntry url_String" ws_Serve ws_Shutdown
  by unfold_locales (auto simp: ws_CompleteNodeEntry_def ws_Serve_def ws_Shutdown_def fun_eq_iff)

interpretation quic_transport: transporter qsv_CompleteNodeEntry "quic_Serve listen listenAddr" quic_Shutdown
  by unfold_locales
    (auto simp: qsv_CompleteNodeEntry_def quic_CompleteNodeEntry_def quic_Serve_def quic_Shutdown_def split: option.splits sum.splits)

section \<open>The identity of a session\<close>

definition tcp_Type :: string where "tcp_Type = ''tcp''"
definition ws_Type :: string where "ws_Type = ''websocket''"
definition quic_Type :: string where "quic_Type = ''quic''"

definition tcp_ID :: "tcpSession \<Rightarrow> string" where "tcp_ID ts = ts_id ts"
definition ws_ID :: "wsSession \<Rightarrow> string" where "ws_ID ws = ws_id ws"
definition quic_ID :: "quicSession \<Rightarrow> string" where "quic_ID q = q_id q"

definition ws_SetID :: "string \<Rightarrow> wsSession \<Rightarrow> wsSession" where
  "ws_SetID sessID ws = ws\<lparr>ws_id := sessID\<rparr>"

definition quic_SetID :: "string \<Rightarrow> quicSession \<Rightarrow> quicSession" where
  "quic_SetID sessID q = q\<lparr>q_id := sessID\<rparr>"

definition ws_SetMetadata :: "metadata \<Rightarrow> wsSession \<Rightarrow> wsSession" where
  "ws_SetMetadata md ws = ws\<lparr>ws_md := md\<rparr>"

definition quic_SetMetadata :: "metadata \<Rightarrow> quicSession \<Rightarrow> quicSession" where
  "quic_SetMetadata md q = q\<lparr>q_md := md\<rparr>"

definition tcp_MetadataCopy :: "tcpSession \<Rightarrow> metadata" where "tcp_MetadataCopy ts = ts_md ts"
definition ws_MetadataCopy :: "wsSession \<Rightarrow> metadata" where "ws_MetadataCopy ws = ws_md ws"
definition quic_MetadataCopy :: "quicSession \<Rightarrow> metadata" where "quic_MetadataCopy q = q_md q"

definition tcp_LastRWTime :: "tcpSession \<Rightarrow> int" where "tcp_LastRWTime ts = ts_lastRWTime ts"
definition ws_LastRWTime :: "wsSession \<Rightarrow> int" where "ws_LastRWTime ws = ws_lastRWTime ws"
definition quic_LastRWTime :: "quicSession \<Rightarrow> int" where "quic_LastRWTime q = q_lastRWTime q"

definition tcp_LocalAddr :: "tcpSession \<Rightarrow> string" where "tcp_LocalAddr ts = ts_localAddr ts"
definition tcp_RemoteAddr :: "tcpSession \<Rightarrow> string" where "tcp_RemoteAddr ts = ts_remoteAddr ts"

text \<open>The log attributes; the address of a QUIC session is that of its connection.\<close>

definition tcp_LogValue :: "tcpSession \<Rightarrow> (string \<times> string) list" where
  "tcp_LogValue ts = [(''id'', ts_id ts), (''type'', ''tcp''), (''addr'', tcp_RemoteAddr ts)]"

definition ws_LogValue :: "wsSession \<Rightarrow> (string \<times> string) list" where
  "ws_LogValue ws = [(''id'', ws_id ws), (''type'', ''websocket''), (''addr'', ws_RemoteAddr ws)]"

definition quic_LogValue :: "string \<Rightarrow> quicSession \<Rightarrow> (string \<times> string) list" where
  "quic_LogValue remoteAddr q = [(''id'', q_id q), (''type'', ''quic''), (''addr'', remoteAddr)]"

text \<open>
  The steps of a session after it was initialised: receiving, sending, closing, and what
  the goroutines of a QUIC session do.
\<close>

inductive tcp_step :: "tcpSession \<Rightarrow> tcpSession \<Rightarrow> bool" where
  tcp_recv: "tcp_Recv growcap unmarshal now ts msg = Ok (ts', res) \<Longrightarrow> tcp_step ts ts'"
| tcp_send: "tcp_Send marshal write now reply ts = (ts', err) \<Longrightarrow> tcp_step ts ts'"
| tcp_close: "tcp_Close connClose ts = (ts', err) \<Longrightarrow> tcp_step ts ts'"

inductive ws_step :: "wsSession \<Rightarrow> wsSession \<Rightarrow> bool" where
  ws_recv: "ws_Recv isClose unmarshal now received ws = (ws', res) \<Longrightarrow> ws_step ws ws'"
| ws_send: "ws_Send marshal write now reply ws = (ws', err) \<Longrightarrow> ws_step ws ws'"
| ws_ping: "ws_step ws (ws_pingPong now ws)"
| ws_close: "ws_step ws (ws_Close ws)"

inductive quic_step :: "quicSession \<Rightarrow> quicSession \<Rightarrow> bool" where
  quic_send: "q_Send marshal write now reply q = Ok (q', err) \<Longrightarrow> quic_step q q'"
| quic_accept: "quic_step q (q_acceptStream s q)"
| quic_failed: "quic_step q (q_acceptFailed q)"
| quic_ended: "quic_step q (q_streamEnded s q)"
| quic_close: "quic_step q (q_Close q)"

text \<open>What the proxy relies on when it forwards requests under a session's identity.\<close>

locale gw_session =
  fixes sid :: "'s \<Rightarrow> string" and setID :: "string \<Rightarrow> 's \<Rightarrow> 's"
    and meta :: "'s \<Rightarrow> metadata" and setMD :: "metadata \<Rightarrow> 's \<Rightarrow> 's" and step :: "'s \<Rightarrow> 's \<Rightarrow> bool"
  assumes id_set: "sid (setID i s) = i" "meta (setID i s) = meta s"
    and md_set: "meta (setMD m s) = m" "sid (setMD m s) = sid s"
    and step_keeps: "step s s' \<Longrightarrow> sid s' = sid s \<and> meta s' = meta s"
begin

lemma steps_keep: "step\<^sup>*\<^sup>* s s' \<Longrightarrow> sid s' = sid s \<and> meta s' = meta s"
  by (induction rule: rtranclp_induct) (auto dest: step_keeps)

lemma identity_kept:
  assumes "step\<^sup>*\<^sup>* (setMD m (setID i s)) s'"
  shows "sid s' = i \<and> meta s' = m"
  using steps_keep [OF assms] by (simp add: id_set md_set)

end

lemma tcp_recv_loop_keeps:
  "tcp_recv_loop growcap now ts msg = Ok (ts', msg', err) \<Longrightarrow> ts_id ts' = ts_id ts \<and> ts_md ts' = ts_md ts"
proof (induction growcap now ts msg arbitrary: ts' msg' err rule: tcp_recv_loop.induct)
  case (1 growcap now ts msg)
  obtain r1 msg1 e1 where x: "ReadMessage growcap (ts_r ts) msg = Ok (r1, msg1, e1)"
    using 1(2) tcp_recv_loop.simps [of growcap now ts msg]
    by (cases "ReadMessage growcap (ts_r ts) msg") auto
  then have eq: "tcp_recv_loop growcap now ts msg =
      (case e1 of
         Some e \<Rightarrow> Ok (ts\<lparr>ts_r := r1\<rparr>, msg1, Some (ErrWrap ''read message'' e))
       | None \<Rightarrow>
           if msg_Len msg1 > 0 then Ok (ts\<lparr>ts_r := r1, ts_lastRWTime := now\<rparr>, msg1, None)
           else tcp_recv_loop growcap now (ts\<lparr>ts_r := r1, ts_lastRWTime := now\<rparr>) msg1)"
    by (cases e1) (simp_all add: tcp_recv_loop.simps [of growcap now ts msg] Let_def)
  show ?case
  proof (cases "e1 = None \<and> msg_Len msg1 = 0")
    case True
    then have "tcp_recv_loop growcap now (ts\<lparr>ts_r := r1, ts_lastRWTime := now\<rparr>) msg1 = Ok (ts', msg', err)"
      using 1(2) eq by simp
    then show ?thesis using 1(1) [OF x refl _ refl] True by fastforce
  next
    case False
    then show ?thesis using 1(2) unfolding eq by (cases e1) auto
  qed
qed

lemma tcp_Recv_keeps:
  assumes "tcp_Recv growcap unmarshal now ts msg = Ok (ts', res)"
  shows "ts_id ts' = ts_id ts \<and> ts_md ts' = ts_md ts"
proof -
  obtain ts1 msg1 err where loop: "tcp_recv_loop growcap now ts msg = Ok (ts1, msg1, err)"
    using assms by (auto simp: tcp_Recv_def go_bind_Ok_iff)
  have "ts' = ts1"
  proof (cases err)
    case None
    then obtain data where d: "msg_Bytes msg1 = Ok data"
      using assms loop by (auto simp: tcp_Recv_def go_bind_Ok_iff)
    show ?thesis
      using assms loop d None by (cases "unmarshal data") (auto simp: tcp_Recv_def Let_def)
  qed (use assms loop in \<open>auto simp: tcp_Recv_def\<close>)
  then show ?thesis using tcp_recv_loop_keeps [OF loop] by simp
qed

lemma q_Send_keeps:
  assumes "q_Send marshal write now reply q = Ok (q', err)"
  shows "q_id q' = q_id q \<and> q_md q' = q_md q"
proof -
  obtain picked where p: "qs_Pick (rep_ServiceCode reply) (q_streams q) = Ok picked"
    using assms by (auto simp: q_Send_def go_bind_Ok_iff)
  show ?thesis
    using assms by (cases picked; cases "marshal reply") (auto simp: q_Send_def p split: option.splits)
qed

interpretation tcp_sess: gw_session tcp_ID tcp_SetID tcp_MetadataCopy tcp_SetMetadata tcp_step
proof
  fix s s'
  assume "tcp_step s s'"
  then show "tcp_ID s' = tcp_ID s \<and> tcp_MetadataCopy s' = tcp_MetadataCopy s"
  proof cases
    case (tcp_recv growcap unmarshal now msg res)
    from tcp_Recv_keeps [OF this] show ?thesis by (simp add: tcp_ID_def tcp_MetadataCopy_def)
  qed (auto simp: tcp_Send_def tcp_Close_def tcp_ID_def tcp_MetadataCopy_def split: option.splits sum.splits if_splits)
qed (simp_all add: tcp_ID_def tcp_SetID_def tcp_MetadataCopy_def tcp_SetMetadata_def)

interpretation ws_sess: gw_session ws_ID ws_SetID ws_MetadataCopy ws_SetMetadata ws_step
  by unfold_locales
    (auto simp: ws_ID_def ws_SetID_def ws_MetadataCopy_def ws_SetMetadata_def ws_Recv_def ws_Send_def ws_pingPong_def
      ws_Close_def Let_def elim!: ws_step.cases split: option.splits sum.splits if_splits)

interpretation quic_sess: gw_session quic_ID quic_SetID quic_MetadataCopy quic_SetMetadata quic_step
  by unfold_locales
    (auto simp: quic_ID_def quic_SetID_def quic_MetadataCopy_def quic_SetMetadata_def q_acceptStream_def
      q_acceptFailed_def q_streamEnded_def q_Close_def Let_def elim!: quic_step.cases dest: q_Send_keeps)

section \<open>Properties\<close>

text \<open>
  A session keeps the identity its initializer gave it: whatever a TCP, websocket or QUIC
  session receives, sends and goes through after \<open>SetID\<close> and \<open>SetMetadata\<close>, its id is
  that user and its metadata are those.
\<close>

theorem session_identity:
  "(tcp_step\<^sup>*\<^sup>* (tcp_SetMetadata md (tcp_SetID user ts)) ts' \<longrightarrow> tcp_ID ts' = user \<and> tcp_MetadataCopy ts' = md) \<and>
   (ws_step\<^sup>*\<^sup>* (ws_SetMetadata md (ws_SetID user ws)) ws' \<longrightarrow> ws_ID ws' = user \<and> ws_MetadataCopy ws' = md) \<and>
   (quic_step\<^sup>*\<^sup>* (quic_SetMetadata md (quic_SetID user q)) q' \<longrightarrow> quic_ID q' = user \<and> quic_MetadataCopy q' = md)"
  using tcp_sess.identity_kept ws_sess.identity_kept quic_sess.identity_kept by blast

theorem session_identity_witness:
  "quic_ID (q_Close (quic_SetMetadata Map.empty (quic_SetID ''u1'' (newQuicSession ''x'' 0)))) = ''u1''"
proof -
  have "quic_step\<^sup>*\<^sup>* (quic_SetMetadata Map.empty (quic_SetID ''u1'' (newQuicSession ''x'' 0)))
      (q_Close (quic_SetMetadata Map.empty (quic_SetID ''u1'' (newQuicSession ''x'' 0))))"
    by (rule r_into_rtranclp) (rule quic_close)
  then show ?thesis
    using session_identity [of Map.empty "''u1''" undefined undefined undefined undefined] by blast
qed

text \<open>
  A websocket that is upgraded while the gateway shuts down is lost: the handler's send on
  the closed channel is recovered from and the session is neither served nor closed.
\<close>

theorem ws_upgrade_lost:
  "ws_handle (ws_newSession None httpRemote hdr new_id now connRemote) chan_closed =
   (let sess = newWsSession new_id now (if hdr \<noteq> [] then hdr else httpRemote) connRemote
    in if chan_closed then WsLost sess else WsDelivered sess)"
  by (simp add: ws_handle_def ws_newSession_def Let_def)

end
