(* ===== verification/Node_Runtime.thy ===== *)
theory Node_Runtime
  imports Rpc_Server Gateway_Lifecycle Gateway_Transport
begin

text \<open>
  The node that runs the components (\<open>src/node.go\<close>, \<open>node_service.go\<close>) and the metrics
  server component (\<open>src/component/gateway/metrics/server.go\<close>).

  A component is an interface value: its state of type \<open>'s\<close> and the methods it implements,
  the optional ones as options. The registry's parameters are collected in \<open>put_env\<close>. The
  calls of component methods are recorded in order, by the component's position.
\<close>

section \<open>Components\<close>

record 's component =
  co_Name :: string
  co_state :: 's
  co_Start :: "'s \<Rightarrow> 's \<times> go_error option"
  co_Stop :: "'s \<Rightarrow> 's"
  co_CompleteNodeEntry :: "('s \<Rightarrow> NodeEntry \<Rightarrow> NodeEntry) option"
  co_BeforeStart :: "('s \<Rightarrow> 's \<times> go_error option) option"
  co_AfterStart :: "('s \<Rightarrow> 's) option"
  co_BeforeStop :: "('s \<Rightarrow> 's) option"
  co_AfterStop :: "('s \<Rightarrow> 's) option"
  co_RegisterService :: "(int \<Rightarrow> string \<Rightarrow> 's \<Rightarrow> 's \<times> go_error option) option"

record 's Node =
  nd_entry :: NodeEntry
  nd_registry :: Registry
  nd_components :: "'s component list"
  nd_done :: bool

text \<open>\<open>nodeID\<close> is the fresh ULID.\<close>

definition NewNode :: "ulid \<Rightarrow> string \<Rightarrow> Registry \<Rightarrow> ('s Node \<Rightarrow> 's Node) list \<Rightarrow> 's Node" where
  "NewNode nodeID name registry options =
     fold (\<lambda>opt n. opt n) options
       \<lparr>nd_entry = \<lparr>ID = nodeID, Name = name, State = NodeOK, Entrance = [], Metrics = [],
          GRPC = \<lparr>Endpoint = [], Services = []\<rparr>, GitVersion = []\<rparr>,
        nd_registry = registry, nd_components = [], nd_done = False\<rparr>"

definition WithGitVersion :: "string \<Rightarrow> 's Node \<Rightarrow> 's Node" where
  "WithGitVersion version n = n\<lparr>nd_entry := (nd_entry n)\<lparr>GitVersion := version\<rparr>\<rparr>"

definition WithState :: "NodeState \<Rightarrow> 's Node \<Rightarrow> 's Node" where
  "WithState st n = n\<lparr>nd_entry := (nd_entry n)\<lparr>State := st\<rparr>\<rparr>"

definition AddComponent :: "'s component list \<Rightarrow> 's Node \<Rightarrow> 's Node" where
  "AddComponent cs n = n\<lparr>nd_components := nd_components n @ cs\<rparr>"

definition GetComponents :: "'s Node \<Rightarrow> 's component list" where
  "GetComponents n = nd_components n"

definition node_State :: "'s Node \<Rightarrow> NodeState" where
  "node_State n = State (nd_entry n)"

definition node_ID :: "'s Node \<Rightarrow> ulid" where
  "node_ID n = ID (nd_entry n)"

text \<open>\<open>Entry\<close>: a copy of the entry that every component may complete, in order.\<close>

definition complete_with :: "'s component \<Rightarrow> NodeEntry \<Rightarrow> NodeEntry" where
  "complete_with c e = (case co_CompleteNodeEntry c of Some f \<Rightarrow> f (co_state c) e | None \<Rightarrow> e)"

definition node_Entry :: "'s Node \<Rightarrow> NodeEntry" where
  "node_Entry n = fold complete_with (nd_components n) (nd_entry n)"

section \<open>State\<close>

record put_env =
  pe_url_Hostname :: "string \<Rightarrow> go_error + string"
  pe_marshal :: "NodeEntry \<Rightarrow> go_error + string"
  pe_ustr :: "ulid \<Rightarrow> string"
  pe_grant :: "int \<Rightarrow> go_error + int"
  pe_keepAlive :: "int \<Rightarrow> go_error option"
  pe_put :: "string \<Rightarrow> string \<Rightarrow> int \<Rightarrow> go_error option"

definition env_Put :: "put_env \<Rightarrow> NodeEntry \<Rightarrow> Registry \<Rightarrow> Registry \<times> etcd_request list \<times> go_error option" where
  "env_Put env entry r = registry_Put (pe_url_Hostname env) (pe_marshal env) (pe_ustr env) (pe_grant env)
     (pe_keepAlive env) (pe_put env) entry r"

text \<open>\<open>ChangeState\<close>: nothing to do for the current state; a failed write restores the old one.\<close>

definition ChangeState :: "put_env \<Rightarrow> NodeState \<Rightarrow> 's Node \<Rightarrow> 's Node \<times> etcd_request list \<times> go_error option" where
  "ChangeState env st n =
     (if State (nd_entry n) = st then (n, [], None)
      else let old = State (nd_entry n);
               n1 = n\<lparr>nd_entry := (nd_entry n)\<lparr>State := st\<rparr>\<rparr>
           in case env_Put env (node_Entry n1) (nd_registry n1) of
                (r', reqs, None) \<Rightarrow> (n1\<lparr>nd_registry := r'\<rparr>, reqs, None)
              | (r', reqs, Some err) \<Rightarrow>
                  (n1\<lparr>nd_registry := r', nd_entry := (nd_entry n1)\<lparr>State := old\<rparr>\<rparr>, reqs, Some err))"

definition node_Shutdown :: "'s Node \<Rightarrow> 's Node" where
  "node_Shutdown n = n\<lparr>nd_done := True\<rparr>"

section \<open>Starting\<close>

datatype comp_call =
    CallBeforeStart nat | CallStart nat | CallAfterStart nat
  | CallBeforeStop nat | CallStop nat | CallAfterStop nat

text \<open>The node's management service goes into the first component that takes services.\<close>

fun inject_node_service :: "'s component list \<Rightarrow> 's component list" where
  "inject_node_service [] = []"
| "inject_node_service (c # cs) =
     (case co_RegisterService c of
        Some reg \<Rightarrow> c\<lparr>co_state := fst (reg NodeServiceCode ''nodehub.Node'' (co_state c))\<rparr> # cs
      | None \<Rightarrow> c # inject_node_service cs)"

definition run_hook :: "('s \<Rightarrow> 's) option \<Rightarrow> 's component \<Rightarrow> 's component" where
  "run_hook h c = (case h of Some f \<Rightarrow> c\<lparr>co_state := f (co_state c)\<rparr> | None \<Rightarrow> c)"

text \<open>One component: \<open>BeforeStart\<close>, \<open>Start\<close>, \<open>AfterStart\<close>; the first error ends it.\<close>

definition start_component ::
  "nat \<Rightarrow> 's component \<Rightarrow> 's component \<times> comp_call list \<times> go_error option" where
  "start_component i c =
     (let (c1, calls1, err1) =
        (case co_BeforeStart c of
           None \<Rightarrow> (c, [], None)
         | Some f \<Rightarrow> (case f (co_state c) of (s, err) \<Rightarrow> (c\<lparr>co_state := s\<rparr>, [CallBeforeStart i], err)))
      in case err1 of
           Some err \<Rightarrow> (c1, calls1, Some (ErrWrap (''before start '' @ co_Name c1) err))
         | None \<Rightarrow>
             (case co_Start c1 (co_state c1) of
                (s, Some err) \<Rightarrow>
                  (c1\<lparr>co_state := s\<rparr>, calls1 @ [CallStart i], Some (ErrWrap (''start '' @ co_Name c1) err))
              | (s, None) \<Rightarrow>
                  let c2 = c1\<lparr>co_state := s\<rparr>
                  in (run_hook (co_AfterStart c2) c2,
                      calls1 @ [CallStart i] @ (if co_AfterStart c2 = None then [] else [CallAfterStart i]), None)))"

fun start_from ::
  "nat \<Rightarrow> 's component list \<Rightarrow> 's component list \<times> comp_call list \<times> go_error option" where
  "start_from i [] = ([], [], None)"
| "start_from i (c # cs) =
     (case start_component i c of
        (c', calls, Some err) \<Rightarrow> (c' # cs, calls, Some err)
      | (c', calls, None) \<Rightarrow>
          (case start_from (Suc i) cs of (cs', calls', err) \<Rightarrow> (c' # cs', calls @ calls', err)))"

definition startAll :: "'s Node \<Rightarrow> 's Node \<times> comp_call list \<times> go_error option" where
  "startAll n =
     (case start_from 0 (inject_node_service (nd_components n)) of
        (cs, calls, err) \<Rightarrow> (n\<lparr>nd_components := cs\<rparr>, calls, err))"

section \<open>Stopping\<close>

text \<open>
  Every component is stopped by a goroutine of its own, so the calls of different
  components interleave. \<open>schedule\<close> lists whose turn it is; a component that is still not
  done when the schedule ends has run into the timeout.
\<close>

definition stop_calls :: "nat \<Rightarrow> 's component \<Rightarrow> comp_call list" where
  "stop_calls i c = (if co_BeforeStop c = None then [] else [CallBeforeStop i]) @ [CallStop i] @
     (if co_AfterStop c = None then [] else [CallAfterStop i])"

fun stop_step :: "comp_call \<Rightarrow> 's component \<Rightarrow> 's component" where
  "stop_step (CallBeforeStop i) c = run_hook (co_BeforeStop c) c"
| "stop_step (CallStop i) c = c\<lparr>co_state := co_Stop c (co_state c)\<rparr>"
| "stop_step (CallAfterStop i) c = run_hook (co_AfterStop c) c"
| "stop_step _ c = c"

fun stop_run ::
  "nat list \<Rightarrow> (nat \<Rightarrow> comp_call list) \<Rightarrow> 's component list \<Rightarrow> 's component list \<times> comp_call list \<times> (nat \<Rightarrow> comp_call list)" where
  "stop_run [] pending cs = (cs, [], pending)"
| "stop_run (i # is) pending cs =
     (case pending i of
        [] \<Rightarrow> stop_run is pending cs
      | call # rest \<Rightarrow>
          (case stop_run is (pending(i := rest)) (if i < length cs then cs[i := stop_step call (cs ! i)] else cs) of
             (cs', calls, pending') \<Rightarrow> (cs', call # calls, pending')))"

definition stop_pending :: "'s component list \<Rightarrow> nat \<Rightarrow> comp_call list" where
  "stop_pending cs i = (if i < length cs then stop_calls i (cs ! i) else [])"

definition stopAll :: "nat list \<Rightarrow> 's Node \<Rightarrow> 's Node \<times> comp_call list" where
  "stopAll schedule n =
     (case stop_run schedule (stop_pending (nd_components n)) (nd_components n) of
        (cs, calls, _) \<Rightarrow> (n\<lparr>nd_components := cs\<rparr>, calls))"

section \<open>Serving\<close>

datatype node_action = ActCall comp_call | ActEtcd etcd_request

text \<open>\<open>Serve\<close>: everything the node does, in order, and the error it returns.\<close>

definition Serve ::
  "put_env \<Rightarrow> nat list \<Rightarrow> string list \<Rightarrow> 's Node \<Rightarrow> 's Node \<times> node_action list \<times> go_error option" where
  "Serve env schedule visit n =
     (case startAll n of
        (n1, calls, Some err) \<Rightarrow> (n1, map ActCall calls, Some (ErrWrap ''start all server'' err))
      | (n1, calls, None) \<Rightarrow>
          (case env_Put env (node_Entry n1) (nd_registry n1) of
             (r', reqs, Some err) \<Rightarrow>
               (n1\<lparr>nd_registry := r'\<rparr>, map ActCall calls @ map ActEtcd reqs, Some (ErrWrap ''register node'' err))
           | (r', reqs, None) \<Rightarrow>
               (case ChangeState env NodeDown (n1\<lparr>nd_registry := r'\<rparr>) of
                  (n2, reqs2, _) \<Rightarrow>
                    (case stopAll schedule n2 of
                       (n3, calls3) \<Rightarrow>
                         (case registry_Close visit (nd_registry n3) of
                            (r4, reqs4) \<Rightarrow>
                              (n3\<lparr>nd_registry := r4\<rparr>,
                               map ActCall calls @ map ActEtcd reqs @ map ActEtcd reqs2 @ map ActCall calls3 @
                               map ActEtcd reqs4, None))))))"

section \<open>The node service\<close>

definition ns_ChangeState :: "put_env \<Rightarrow> string \<Rightarrow> 's Node \<Rightarrow> 's Node \<times> etcd_request list \<times> go_error option" where
  "ns_ChangeState env st n =
     (if st = [] then (n, [], Some (ErrStatus codes_InvalidArgument ''state is empty''))
      else ChangeState env st n)"

definition ns_Shutdown :: "'s Node \<Rightarrow> 's Node" where
  "ns_Shutdown n = node_Shutdown n"

definition NewNodeClient :: "(string \<Rightarrow> go_error + nat) \<Rightarrow> ulid \<Rightarrow> Registry \<Rightarrow> Registry \<times> nat go" where
  "NewNodeClient dial nodeID r = GetGRPCConn dial nodeID r"

section \<open>The metrics server\<close>

record metrics_Server =
  ms_addr :: string
  ms_started :: bool

definition NewServer :: "string \<Rightarrow> metrics_Server" where
  "NewServer address = \<lparr>ms_addr = address, ms_started = False\<rparr>"

definition metrics_CompleteNodeEntry :: "metrics_Server \<Rightarrow> NodeEntry \<Rightarrow> NodeEntry" where
  "metrics_CompleteNodeEntry s entry = entry\<lparr>Metrics := ''http://'' @ ms_addr s @ ''/metrics''\<rparr>"

definition metrics_Start :: "metrics_Server \<Rightarrow> metrics_Server \<times> go_error option" where
  "metrics_Start s = (s\<lparr>ms_started := True\<rparr>, None)"

text \<open>\<open>Stop\<close> dereferences the HTTP server that \<open>Start\<close> made.\<close>

definition metrics_Stop :: "metrics_Server \<Rightarrow> metrics_Server go" where
  "metrics_Stop s = (if ms_started s then Ok s else Panic ''nil pointer dereference'')"

section \<open>A gateway node\<close>

text \<open>
  The components of \<open>NewGatewayNode\<close>: the proxy, which lets its transporter complete the
  entry, the gRPC server and the metrics server. A method that panics ends the process; the
  component's state is then \<open>Crashed\<close>. What the components get from outside is collected in
  \<open>gw_deps\<close>: the transporter's \<open>CompleteNodeEntry\<close>, the outcome of its \<open>Serve\<close>,
  \<open>net.Listen\<close> and \<open>filepath.Abs\<close> for the gRPC server, the printed form of the node's ULID,
  and the orders in which the gRPC server's services and the sessions are visited.
\<close>

datatype gw_comp = ProxyComp Proxy | RpcComp GRPCServer | MetricsComp metrics_Server | Crashed string

record gw_deps =
  gd_complete :: "NodeEntry \<Rightarrow> NodeEntry"
  gd_serve :: "go_error option"
  gd_net_Listen :: "string \<Rightarrow> string \<Rightarrow> go_error + net_Listener"
  gd_Abs :: "string \<Rightarrow> go_error + string"
  gd_ustr :: "ulid \<Rightarrow> string"
  gd_codes :: "(int \<rightharpoonup> GRPCServiceDesc) \<Rightarrow> int list"
  gd_visit :: "(string \<rightharpoonup> nat) \<Rightarrow> string list"

record GatewayConfig =
  gc_NodeOptions :: "(gw_comp Node \<Rightarrow> gw_comp Node) list"
  gc_Options :: "(Options \<Rightarrow> Options) list"
  gc_GRPCListen :: string
  gc_GRPCEndpoint :: string
  gc_GRPCListener :: "net_Listener option"
  gc_MetricsListen :: string

text \<open>A component with no optional method whose \<open>Start\<close> and \<open>Stop\<close> leave its state alone.\<close>

definition bare_component :: "string \<Rightarrow> 's \<Rightarrow> 's component" where
  "bare_component name s = \<lparr>co_Name = name, co_state = s, co_Start = (\<lambda>s. (s, None)), co_Stop = id,
     co_CompleteNodeEntry = None, co_BeforeStart = None, co_AfterStart = None, co_BeforeStop = None,
     co_AfterStop = None, co_RegisterService = None\<rparr>"

fun gw_stop_comp :: "gw_deps \<Rightarrow> gw_comp \<Rightarrow> gw_comp" where
  "gw_stop_comp d (ProxyComp px) =
     (case proxy_Stop (gd_visit d (px_hub px)) px of
        Ok px' \<Rightarrow> ProxyComp px' | Error e \<Rightarrow> ProxyComp px | Panic p \<Rightarrow> Crashed p)"
| "gw_stop_comp d (RpcComp gs) = (if gs_listener gs = None then Crashed ''nil pointer dereference'' else RpcComp gs)"
| "gw_stop_comp d (MetricsComp ms) =
     (case metrics_Stop ms of Ok ms' \<Rightarrow> MetricsComp ms' | Error e \<Rightarrow> MetricsComp ms | Panic p \<Rightarrow> Crashed p)"
| "gw_stop_comp d (Crashed p) = Crashed p"

definition proxy_component :: "gw_deps \<Rightarrow> Proxy \<Rightarrow> gw_comp component" where
  "proxy_component d px = (bare_component ''proxy'' (ProxyComp px))
     \<lparr>co_Start := (\<lambda>s. (s, map_option (ErrWrap ''start transporter'') (gd_serve d))),
      co_Stop := gw_stop_comp d,
      co_CompleteNodeEntry := Some (\<lambda>_. gd_complete d)\<rparr>"

definition rpc_start :: "gw_deps \<Rightarrow> gw_comp \<Rightarrow> gw_comp \<times> go_error option" where
  "rpc_start d s =
     (case s of
        RpcComp gs \<Rightarrow>
          (case server_Start (gd_net_Listen d) (gd_Abs d) gs of
             Ok (gs', err) \<Rightarrow> (RpcComp gs', err)
           | Error err \<Rightarrow> (s, Some err)
           | Panic p \<Rightarrow> (Crashed p, None))
      | _ \<Rightarrow> (s, None))"

definition rpc_component :: "gw_deps \<Rightarrow> GRPCServer \<Rightarrow> gw_comp component" where
  "rpc_component d gs = (bare_component ''grpc'' (RpcComp gs))
     \<lparr>co_Start := rpc_start d,
      co_Stop := gw_stop_comp d,
      co_CompleteNodeEntry := Some (\<lambda>s e. case s of RpcComp gs \<Rightarrow> rpc_CompleteNodeEntry (gd_codes d (gs_services gs)) gs e | _ \<Rightarrow> e),
      co_RegisterService := Some (\<lambda>code name s. case s of
         RpcComp gs \<Rightarrow> (case RegisterService code name [] gs of (gs', err) \<Rightarrow> (RpcComp gs', err)) | _ \<Rightarrow> (s, None))\<rparr>"

definition metrics_component :: "gw_deps \<Rightarrow> metrics_Server \<Rightarrow> gw_comp component" where
  "metrics_component d ms = (bare_component ''metrics'' (MetricsComp ms))
     \<lparr>co_Start := (\<lambda>s. case s of MetricsComp ms \<Rightarrow> (case metrics_Start ms of (ms', e) \<Rightarrow> (MetricsComp ms', e)) | _ \<Rightarrow> (s, None)),
      co_Stop := gw_stop_comp d,
      co_CompleteNodeEntry := Some (\<lambda>s e. case s of MetricsComp ms \<Rightarrow> metrics_CompleteNodeEntry ms e | _ \<Rightarrow> e)\<rparr>"

definition NewGatewayNode :: "gw_deps \<Rightarrow> ulid \<Rightarrow> Registry \<Rightarrow> GatewayConfig \<Rightarrow> gw_comp Node go" where
  "NewGatewayNode d nodeID registry config =
     (let node = NewNode nodeID ''gateway'' registry (gc_NodeOptions config)
      in case NewProxy (gc_Options config @ [WithRegistry]) of
           Error err \<Rightarrow> Panic (err_text (ErrWrap ''create proxy'' err))
         | Panic p \<Rightarrow> Panic p
         | Ok opts \<Rightarrow>
             let px = init_Proxy (gd_ustr d (node_ID node));
                 gs = (case gc_GRPCListener config of
                         None \<Rightarrow> NewGRPCServer (gc_GRPCListen config)
                       | Some l \<Rightarrow> BindGRPCServer l);
                 gs = (if gc_GRPCEndpoint config \<noteq> [] then SetEndpoint (gc_GRPCEndpoint config) gs else gs);
                 gs = fst (RegisterService GatewayServiceCode ''nodehub.Gateway'' [] gs);
                 node = AddComponent [rpc_component d gs] (AddComponent [proxy_component d px] node)
             in Ok (if gc_MetricsListen config \<noteq> []
                    then AddComponent [metrics_component d (NewServer (gc_MetricsListen config))] node else node))"

section \<open>Completing the entry\<close>

text \<open>The contract of \<open>CompleteNodeEntry\<close>: a component leaves the identity and state of the node alone.\<close>

locale entry_completer =
  fixes complete :: "'x \<Rightarrow> NodeEntry \<Rightarrow> NodeEntry"
  assumes keeps_identity: "ID (complete x e) = ID e" "Name (complete x e) = Name e" "State (complete x e) = State e"
begin

lemma fold_keeps:
  "ID (fold complete xs e) = ID e" "Name (fold complete xs e) = Name e" "State (fold complete xs e) = State e"
  by (induction xs arbitrary: e) (simp_all add: keeps_identity)

end

text \<open>Every transporter is one.\<close>

sublocale transporter \<subseteq> entry_completer complete
  by unfold_locales (simp_all add: complete_keeps)

interpretation rpc_entry: entry_completer "rpc_CompleteNodeEntry codes"
  by unfold_locales (simp_all add: rpc_CompleteNodeEntry_def)

interpretation metrics_entry: entry_completer metrics_CompleteNodeEntry
  by unfold_locales (simp_all add: metrics_CompleteNodeEntry_def)

section \<open>Lemmas\<close>

fun call_pos :: "comp_call \<Rightarrow> nat" where
  "call_pos (CallBeforeStart i) = i" | "call_pos (CallStart i) = i" | "call_pos (CallAfterStart i) = i"
| "call_pos (CallBeforeStop i) = i" | "call_pos (CallStop i) = i" | "call_pos (CallAfterStop i) = i"

fun is_start :: "comp_call \<Rightarrow> bool" where
  "is_start (CallStart i) = True" | "is_start _ = False"

lemma start_component_calls:
  assumes "start_component i c = (c', calls, err)"
  shows "\<forall>x \<in> set calls. call_pos x = i"
    and "err = None \<Longrightarrow> filter is_start calls = [CallStart i]"
    and "filter is_start calls = [] \<or> filter is_start calls = [CallStart i]"
  using assms
  by (auto simp: start_component_def Let_def split: option.splits prod.splits if_splits)

lemma start_from_calls:
  assumes "start_from i cs = (cs', calls, err)"
  shows "sorted (map call_pos calls) \<and> (\<forall>x \<in> set calls. i \<le> call_pos x \<and> call_pos x < i + length cs) \<and>
    (\<exists>k \<le> length cs. filter is_start calls = map CallStart [i..<i + k] \<and> (err = None \<longrightarrow> k = length cs))"
  using assms
proof (induction cs arbitrary: i cs' calls err)
  case (Cons c cs)
  obtain c1 calls1 err1 where c: "start_component i c = (c1, calls1, err1)" by (cases "start_component i c")
  note sc = start_component_calls [OF c]
  have srt: "sorted (map call_pos calls1)" using sc(1) by (induction calls1) auto
  show ?case
  proof (cases err1)
    case (Some e)
    then have calls: "calls = calls1" "err = Some e" using Cons.prems c by auto
    from sc(3) have "\<exists>k \<le> length (c # cs). filter is_start calls = map CallStart [i..<i + k]"
    proof
      assume "filter is_start calls1 = []"
      then show ?thesis unfolding calls by (intro exI [of _ 0]) simp
    next
      assume "filter is_start calls1 = [CallStart i]"
      then show ?thesis unfolding calls by (intro exI [of _ 1]) simp
    qed
    then show ?thesis using srt sc(1) calls by auto
  next
    case None
    obtain cs2 calls2 err2 where r: "start_from (Suc i) cs = (cs2, calls2, err2)" by (cases "start_from (Suc i) cs")
    then have calls: "calls = calls1 @ calls2" "err = err2" using Cons.prems c None by auto
    from Cons.IH [OF r] obtain k where k: "sorted (map call_pos calls2)"
      "\<forall>x \<in> set calls2. Suc i \<le> call_pos x \<and> call_pos x < Suc i + length cs"
      "k \<le> length cs" "filter is_start calls2 = map CallStart [Suc i..<Suc i + k]" "err2 = None \<longrightarrow> k = length cs"
      by blast
    have "filter is_start calls = map CallStart [i..<i + Suc k]"
      unfolding calls using sc(2) None k(4) by (simp add: upt_conv_Cons del: upt_Suc)
    then have "\<exists>k \<le> length (c # cs). filter is_start calls = map CallStart [i..<i + k] \<and> (err = None \<longrightarrow> k = length (c # cs))"
      using k(3,5) calls(2) by (intro exI [of _ "Suc k"]) simp
    moreover have "sorted (map call_pos calls)"
      unfolding calls using srt k(1,2) sc(1) by (auto simp: sorted_append dest!: bspec)
    moreover have "\<forall>x \<in> set calls. i \<le> call_pos x \<and> call_pos x < i + length (c # cs)"
      unfolding calls using k(2) sc(1) by fastforce
    ultimately show ?thesis by blast
  qed
qed simp

lemma inject_length [simp]: "length (inject_node_service cs) = length cs"
  by (induction cs) (auto split: option.splits)

lemma node_Entry_registry [simp]: "node_Entry (n\<lparr>nd_registry := r\<rparr>) = node_Entry n"
  by (simp add: node_Entry_def)

lemma env_Put_Ok:
  assumes "env_Put env e r = (r', reqs, None)"
  shows "\<exists>v. pe_marshal env e = Inr v \<and> entry_Validate (pe_url_Hostname env) e = None \<and>
    last reqs = ReqPut (path_Join (keyPrefix r') (pe_ustr env (ID e))) v (leaseID r')"
  using assms by (auto simp: env_Put_def registry_Put_def Let_def split: option.splits sum.splits prod.splits)

text \<open>Running a component's stop to its end without interruption.\<close>

lemma stop_run_block:
  assumes "length (pending i) \<le> k"
  shows "\<exists>cs'. length cs' = length cs \<and> stop_run (replicate k i @ is) pending cs =
    (case stop_run is (pending(i := [])) cs' of (cs'', calls, p) \<Rightarrow> (cs'', pending i @ calls, p))"
  using assms
proof (induction k arbitrary: pending cs)
  case 0
  then have "pending(i := []) = pending" by (auto simp: fun_upd_idem_iff)
  then show ?case using 0 by (intro exI [of _ cs]) (simp split: prod.split)
next
  case (Suc k)
  show ?case
  proof (cases "pending i")
    case Nil
    then have "pending(i := []) = pending" by (simp add: fun_upd_idem_iff)
    then show ?thesis using Suc.IH [of pending cs] Nil by auto
  next
    case (Cons c rest)
    let ?cs = "if i < length cs then cs[i := stop_step c (cs ! i)] else cs"
    let ?p = "pending(i := rest)"
    have l: "length (?p i) \<le> k" using Suc.prems Cons by simp
    from Suc.IH [of ?p ?cs, OF l] obtain cs' where cs': "length cs' = length ?cs"
      "stop_run (replicate k i @ is) ?p ?cs =
       (case stop_run is (?p(i := [])) cs' of (cs'', calls, p) \<Rightarrow> (cs'', ?p i @ calls, p))"
      by blast
    have p: "?p(i := []) = pending(i := [])" "?p i = rest" by simp_all
    have "length cs' = length cs" using cs'(1) by (simp split: if_splits)
    moreover have "stop_run (replicate (Suc k) i @ is) pending cs =
        (case stop_run is (pending(i := [])) cs' of (cs'', calls, p) \<Rightarrow> (cs'', pending i @ calls, p))"
      using cs'(2) Cons unfolding p by (simp only: replicate_Suc append_Cons stop_run.simps list.case) (simp split: prod.splits)
    ultimately show ?thesis by blast
  qed
qed

lemma stop_run_blocks:
  assumes "\<forall>i \<in> set order. length (pending i) \<le> 3" and "distinct order"
  shows "fst (snd (stop_run (concat (map (replicate 3) order)) pending cs)) = concat (map pending order)"
  using assms
proof (induction order arbitrary: pending cs)
  case (Cons i order)
  obtain cs' where b: "stop_run (replicate 3 i @ concat (map (replicate 3) order)) pending cs =
    (case stop_run (concat (map (replicate 3) order)) (pending(i := [])) cs' of
       (cs'', calls, p) \<Rightarrow> (cs'', pending i @ calls, p))"
    using stop_run_block [of pending i 3 cs "concat (map (replicate 3) order)"] Cons.prems(1) by auto
  let ?p = "pending(i := [])"
  have m: "map ?p order = map pending order" using Cons.prems(2) by auto
  have "\<forall>j \<in> set order. length (?p j) \<le> 3" "distinct order" using Cons.prems by auto
  then have ih: "fst (snd (stop_run (concat (map (replicate 3) order)) ?p cs')) = concat (map pending order)"
    unfolding m [symmetric] by (rule Cons.IH)
  obtain x calls q where r: "stop_run (concat (map (replicate 3) order)) ?p cs' = (x, calls, q)"
    by (cases "stop_run (concat (map (replicate 3) order)) ?p cs'")
  have "stop_run (concat (map (replicate 3) (i # order))) pending cs = (x, pending i @ calls, q)"
    using b unfolding r by simp
  then show ?case using ih unfolding r by simp
qed simp

section \<open>Properties\<close>

text \<open>
  Components are started in the order they were added: the calls of the start hooks come
  component by component, each component is started once, on success all of them are; when
  one fails, \<open>Serve\<close> returns its error without having written to etcd and without stopping
  the components that were already started.
\<close>

theorem startAll_order:
  assumes "startAll n = (n', calls, err)"
  shows "sorted (map call_pos calls) \<and>
    (\<exists>k \<le> length (nd_components n). filter is_start calls = map CallStart [0..<k] \<and>
       (err = None \<longrightarrow> k = length (nd_components n))) \<and>
    (\<forall>e. err = Some e \<longrightarrow> Serve env schedule visit n = (n', map ActCall calls, Some (ErrWrap ''start all server'' e)))"
proof -
  obtain cs where "start_from 0 (inject_node_service (nd_components n)) = (cs, calls, err)"
    using assms by (auto simp: startAll_def split: prod.splits)
  from start_from_calls [OF this] assms show ?thesis by (auto simp: Serve_def)
qed

theorem startAll_order_witness:
  "\<exists>n' calls. startAll (AddComponent [bare_component ''a'' (), bare_component ''b'' ()]
       (NewNode (ULID 1 2) ''n'' default_Registry [])) = (n', calls, None) \<and> filter is_start calls = [CallStart 0, CallStart 1]"
proof -
  let ?n = "AddComponent [bare_component ''a'' (), bare_component ''b'' ()] (NewNode (ULID 1 2) ''n'' default_Registry [])"
  obtain n' calls where run: "startAll ?n = (n', calls, None)"
    by (simp add: startAll_def AddComponent_def NewNode_def bare_component_def start_component_def run_hook_def Let_def)
  have "length (nd_components ?n) = 2" by (simp add: AddComponent_def NewNode_def)
  with startAll_order [OF run] have "filter is_start calls = map CallStart [0..<2]" by metis
  with run show ?thesis by (simp add: numeral_2_eq_2)
qed

text \<open>
  C32. Changing a node's state is all or nothing: on success the node has the new state, and
  what was written to etcd is the node's entry in that state; on failure the node keeps its
  old state. The components and the identity of the node never change.
\<close>

theorem ChangeState_atomic:
  assumes "ChangeState env st n = (n', reqs, err)"
  shows "node_State n' = (if err = None then st else node_State n) \<and> nd_components n' = nd_components n \<and>
    node_ID n' = node_ID n \<and> (err \<noteq> None \<longrightarrow> nd_entry n' = nd_entry n) \<and>
    (err = None \<and> node_State n \<noteq> st \<longrightarrow> (\<exists>v. pe_marshal env (node_Entry n') = Inr v \<and>
       entry_Validate (pe_url_Hostname env) (node_Entry n') = None \<and>
       last reqs = ReqPut (path_Join (keyPrefix (nd_registry n')) (pe_ustr env (ID (node_Entry n')))) v
         (leaseID (nd_registry n'))))"
proof (cases "State (nd_entry n) = st")
  case True
  then show ?thesis using assms by (simp add: ChangeState_def node_State_def node_ID_def)
next
  case False
  let ?n1 = "n\<lparr>nd_entry := (nd_entry n)\<lparr>State := st\<rparr>\<rparr>"
  obtain r' rq e where p: "env_Put env (node_Entry ?n1) (nd_registry ?n1) = (r', rq, e)"
    by (cases "env_Put env (node_Entry ?n1) (nd_registry ?n1)")
  show ?thesis
  proof (cases e)
    case None
    then have "n' = ?n1\<lparr>nd_registry := r'\<rparr>" "reqs = rq" "err = None" using assms p False by (auto simp: ChangeState_def)
    with env_Put_Ok [OF p [unfolded None]] show ?thesis by (simp add: node_State_def node_ID_def)
  next
    case (Some x)
    then have "n' = ?n1\<lparr>nd_registry := r', nd_entry := (nd_entry ?n1)\<lparr>State := State (nd_entry n)\<rparr>\<rparr>" "err = Some x"
      using assms p False by (auto simp: ChangeState_def)
    then show ?thesis by (simp add: node_State_def node_ID_def)
  qed
qed

definition demo_put_env :: put_env where
  "demo_put_env = \<lparr>pe_url_Hostname = Inr, pe_marshal = (\<lambda>e. Inr (State e)), pe_ustr = (\<lambda>_. ''n''),
     pe_grant = (\<lambda>_. Inr 5), pe_keepAlive = (\<lambda>_. None), pe_put = (\<lambda>_ _ _. None)\<rparr>"

theorem ChangeState_atomic_witness:
  "\<exists>n' reqs. ChangeState demo_put_env ''lazy'' (NewNode (ULID 1 2) ''n'' default_Registry [] :: unit Node) = (n', reqs, None) \<and>
     node_State n' = ''lazy'' \<and> last reqs = ReqPut ''/nodehub/node/n'' ''lazy'' 5"
proof -
  let ?n = "NewNode (ULID 1 2) ''n'' default_Registry [] :: unit Node"
  have pj: "path_Join ''/nodehub/node'' ''n'' = ''/nodehub/node/n''" by code_simp
  obtain n' reqs where run: "ChangeState demo_put_env ''lazy'' ?n = (n', reqs, None)"
    and r: "keyPrefix (nd_registry n') = ''/nodehub/node''" "leaseID (nd_registry n') = 5"
    by (simp add: ChangeState_def NewNode_def demo_put_env_def env_Put_def registry_Put_def node_Entry_def
        entry_Validate_def grpc_Validate_def entrance_Validate_def initLease_def default_Registry_def NoLease_def
        state_defs Let_def)
  have "node_State ?n \<noteq> ''lazy''" by (simp add: node_State_def NewNode_def state_defs)
  with ChangeState_atomic [OF run] obtain v where v: "node_State n' = ''lazy''" "nd_components n' = []"
    "pe_marshal demo_put_env (node_Entry n') = Inr v"
    "last reqs = ReqPut (path_Join (keyPrefix (nd_registry n')) (pe_ustr demo_put_env (ID (node_Entry n')))) v
         (leaseID (nd_registry n'))"
    by (auto simp: NewNode_def)
  moreover have "v = ''lazy''" using v(1-3) by (simp add: demo_put_env_def node_Entry_def node_State_def)
  ultimately show ?thesis using run r pj by (simp add: demo_put_env_def)
qed

text \<open>
  The order in which components are stopped is not determined: for every order of the
  components there is a run of \<open>stopAll\<close> that stops them completely in that order, also the
  order in which they were added.
\<close>

theorem stop_order_free:
  assumes "distinct order" and "set order \<subseteq> {..<length (nd_components n)}"
  shows "\<exists>schedule. snd (stopAll schedule n) = concat (map (\<lambda>i. stop_calls i (nd_components n ! i)) order)"
proof -
  let ?p = "stop_pending (nd_components n)"
  have p: "?p i = stop_calls i (nd_components n ! i)" if "i \<in> set order" for i
    using that assms(2) by (auto simp: stop_pending_def)
  then have "\<forall>i \<in> set order. length (?p i) \<le> 3" by (simp add: stop_calls_def)
  then have "fst (snd (stop_run (concat (map (replicate 3) order)) ?p (nd_components n))) = concat (map ?p order)"
    by (rule stop_run_blocks) (rule assms(1))
  also have "map ?p order = map (\<lambda>i. stop_calls i (nd_components n ! i)) order" using p by simp
  finally show ?thesis
    by (intro exI [of _ "concat (map (replicate 3) order)"]) (simp add: stopAll_def case_prod_unfold)
qed

theorem stop_order_free_witness:
  "\<exists>schedule. snd (stopAll schedule (AddComponent [bare_component ''a'' (), bare_component ''b'' ()]
       (NewNode (ULID 1 2) ''n'' default_Registry []))) = [CallStop 0, CallStop 1]"
  using stop_order_free [of "[0, 1]" "AddComponent [bare_component ''a'' (), bare_component ''b'' ()]
       (NewNode (ULID 1 2) ''n'' default_Registry [])"]
  by (simp add: AddComponent_def NewNode_def stop_calls_def bare_component_def)

text \<open>The gRPC server of a gateway node, and what starting it gives.\<close>

lemma server_Start_total:
  assumes "\<And>p. \<exists>q. fa p = Inr q"
  shows "\<exists>gs' err. server_Start nl fa gs = Ok (gs', err)"
proof -
  have "\<forall>l. \<exists>q. addrFromListener fa l = Ok q"
  proof
    show "\<exists>q. addrFromListener fa l = Ok q" for l
      using assms [of "l_Addr l"] by (auto simp: addrFromListener_def)
  qed
  then obtain f where "addrFromListener fa l = Ok (f l)" for l by metis
  then show ?thesis by (simp add: server_Start_def Let_def split: sum.split option.split)
qed

lemma server_Start_listen:
  assumes "server_Start nl fa gs = Ok (gs', None)" and "\<And>nt a l. nl nt a = Inr l \<Longrightarrow> l_Addr l \<noteq> []"
    and "\<And>l. gs_listener gs = Some l \<Longrightarrow> l_Addr l \<noteq> []"
  shows "gs_listen gs' \<noteq> []"
proof -
  obtain l where l: "(case gs_listener gs of Some l \<Rightarrow> Inr l | None \<Rightarrow> newListener nl (gs_listen gs)) = Inr l"
    using assms(1) by (auto simp: server_Start_def split: sum.splits)
  then have "l_Addr l \<noteq> []"
    using assms(2,3) by (auto simp: newListener_def split: option.splits)
  then show ?thesis
    using assms(1) l by (auto simp: server_Start_def addrFromListener_def Let_def split: if_splits sum.splits)
qed

definition gateway_server :: "GatewayConfig \<Rightarrow> GRPCServer" where
  "gateway_server config =
     (let gs = (case gc_GRPCListener config of None \<Rightarrow> NewGRPCServer (gc_GRPCListen config) | Some l \<Rightarrow> BindGRPCServer l);
          gs = (if gc_GRPCEndpoint config \<noteq> [] then SetEndpoint (gc_GRPCEndpoint config) gs else gs);
          gs = fst (RegisterService GatewayServiceCode ''nodehub.Gateway'' [] gs)
      in fst (RegisterService NodeServiceCode ''nodehub.Node'' [] gs))"

lemma gateway_server_facts:
  shows "rpc_reach (gateway_server config)"
    and "dom (gs_services (gateway_server config)) = {NodeServiceCode, GatewayServiceCode}"
    and "gs_listener (gateway_server config) = gc_GRPCListener config"
    and "gs_endpoint (gateway_server config) = gc_GRPCEndpoint config"
    and "gs_listen (gateway_server config) = (if gc_GRPCListener config = None then gc_GRPCListen config else [])"
proof -
  show "rpc_reach (gateway_server config)"
    unfolding gateway_server_def Let_def by (auto intro!: rpc_register rpc_endpoint rpc_new rpc_bind split: option.split)
  show "dom (gs_services (gateway_server config)) = {NodeServiceCode, GatewayServiceCode}"
    "gs_listener (gateway_server config) = gc_GRPCListener config"
    "gs_endpoint (gateway_server config) = gc_GRPCEndpoint config"
    "gs_listen (gateway_server config) = (if gc_GRPCListener config = None then gc_GRPCListen config else [])"
    by (auto simp: gateway_server_def Let_def RegisterService_def desc_Validate_def NodeServiceCode_def
        GatewayServiceCode_def BalancerRandom_def SetEndpoint_def NewGRPCServer_def BindGRPCServer_def split: option.split)
qed

lemma start_components:
  shows "start_component i (proxy_component d px) =
      (proxy_component d px, [CallStart i],
       map_option (\<lambda>e. ErrWrap ''start proxy'' (ErrWrap ''start transporter'' e)) (gd_serve d))"
    and "server_Start (gd_net_Listen d) (gd_Abs d) gs = Ok (gs', err) \<Longrightarrow>
      start_component i (rpc_component d gs) = (rpc_component d gs', [CallStart i], map_option (ErrWrap ''start grpc'') err)"
    and "start_component i (metrics_component d ms) = (metrics_component d (ms\<lparr>ms_started := True\<rparr>), [CallStart i], None)"
  by (auto simp: start_component_def proxy_component_def rpc_component_def metrics_component_def bare_component_def
      rpc_start_def run_hook_def metrics_Start_def Let_def split: option.split)

lemma complete_components:
  "complete_with (proxy_component d px) e = gd_complete d e"
  "complete_with (rpc_component d gs) e = rpc_CompleteNodeEntry (gd_codes d (gs_services gs)) gs e"
  "complete_with (metrics_component d ms) e = metrics_CompleteNodeEntry ms e"
  by (simp_all add: complete_with_def proxy_component_def rpc_component_def metrics_component_def bare_component_def)

lemma inject_gateway:
  "inject_node_service (proxy_component d px # rpc_component d gs # cs) =
   proxy_component d px # rpc_component d (fst (RegisterService NodeServiceCode ''nodehub.Node'' [] gs)) # cs"
  by (simp add: proxy_component_def rpc_component_def bare_component_def split: prod.split)

text \<open>The options of a node that the package offers, with a state that is not empty.\<close>

definition node_option :: "('s Node \<Rightarrow> 's Node) \<Rightarrow> bool" where
  "node_option opt \<longleftrightarrow> (\<exists>v. opt = WithGitVersion v) \<or> (\<exists>st. st \<noteq> [] \<and> opt = WithState st)"

lemma NewNode_options:
  assumes "\<And>opt. opt \<in> set opts \<Longrightarrow> node_option opt"
  shows "node_ID (NewNode nodeID name registry opts) = nodeID" and "Name (nd_entry (NewNode nodeID name registry opts)) = name"
    and "node_State (NewNode nodeID name registry opts) \<noteq> []" and "nd_registry (NewNode nodeID name registry opts) = registry"
    and "nd_components (NewNode nodeID name registry opts) = []"
proof -
  let ?P = "\<lambda>n. node_ID n = nodeID \<and> Name (nd_entry n) = name \<and> node_State n \<noteq> [] \<and> nd_registry n = registry \<and> nd_components n = []"
  have step: "?P (opt n)" if "node_option opt" "?P n" for opt n
    using that by (auto simp: node_option_def WithGitVersion_def WithState_def node_ID_def node_State_def)
  have "?P (NewNode nodeID name registry opts)"
    unfolding NewNode_def
  proof (rule fold_invariant [where Q = node_option and P = ?P])
    show "?P (opt n)" if "node_option opt" "?P n" for opt n using that by (rule step)
  qed (simp_all add: assms node_ID_def node_State_def NodeOK_def)
  then show "node_ID (NewNode nodeID name registry opts) = nodeID" "Name (nd_entry (NewNode nodeID name registry opts)) = name"
    "node_State (NewNode nodeID name registry opts) \<noteq> []" "nd_registry (NewNode nodeID name registry opts) = registry"
    "nd_components (NewNode nodeID name registry opts) = []" by auto
qed

lemma gateway_components:
  assumes "NewGatewayNode d nodeID registry config = Ok n" and "\<And>opt. opt \<in> set (gc_NodeOptions config) \<Longrightarrow> node_option opt"
  shows "\<exists>cs. nd_entry n = nd_entry (NewNode nodeID ''gateway'' registry (gc_NodeOptions config)) \<and> nd_registry n = registry \<and>
    inject_node_service (nd_components n) =
      proxy_component d (init_Proxy (gd_ustr d nodeID)) # rpc_component d (gateway_server config) # cs \<and>
    (cs = [] \<or> (\<exists>ms. cs = [metrics_component d ms]))"
  using assms(1) NewNode_options [of "gc_NodeOptions config" nodeID "''gateway''" registry, OF assms(2)]
  by (auto simp: NewGatewayNode_def gateway_server_def AddComponent_def Let_def inject_gateway
      simp del: inject_node_service.simps split: go.splits)

lemma gateway_started:
  assumes "NewGatewayNode d nodeID registry config = Ok n" and "\<And>opt. opt \<in> set (gc_NodeOptions config) \<Longrightarrow> node_option opt"
    and "startAll n = (n1, calls, None)" and "\<And>p. \<exists>q. gd_Abs d p = Inr q"
  shows "nd_registry n1 = registry" and "\<exists>gs ms. server_Start (gd_net_Listen d) (gd_Abs d) (gateway_server config) = Ok (gs, None) \<and>
    (let e = rpc_CompleteNodeEntry (gd_codes d (gs_services gs)) gs
               (gd_complete d (nd_entry (NewNode nodeID ''gateway'' registry (gc_NodeOptions config))))
     in node_Entry n1 = e \<or> node_Entry n1 = metrics_CompleteNodeEntry ms e)"
proof -
  obtain gs err where st: "server_Start (gd_net_Listen d) (gd_Abs d) (gateway_server config) = Ok (gs, err)"
    using server_Start_total [of "gd_Abs d"] assms(4) by blast
  let ?p = "proxy_component d (init_Proxy (gd_ustr d nodeID))"
  obtain cs where n: "nd_entry n = nd_entry (NewNode nodeID ''gateway'' registry (gc_NodeOptions config))"
    "nd_registry n = registry" "inject_node_service (nd_components n) = ?p # rpc_component d (gateway_server config) # cs"
    and cs: "cs = [] \<or> (\<exists>ms. cs = [metrics_component d ms])"
    using gateway_components [of d nodeID registry config n, OF assms(1,2)] by blast
  note sc = start_components(2) [OF st, of 1] start_components(1,3)
  have ok: "gd_serve d = None" "err = None"
    using assms(3) n(3) sc(1) by (auto simp: startAll_def sc(2) split: prod.splits option.splits)
  show "nd_registry n1 = registry" using assms(3) n(2) by (auto simp: startAll_def split: prod.splits)
  from cs show "\<exists>gs ms. server_Start (gd_net_Listen d) (gd_Abs d) (gateway_server config) = Ok (gs, None) \<and>
    (let e = rpc_CompleteNodeEntry (gd_codes d (gs_services gs)) gs
               (gd_complete d (nd_entry (NewNode nodeID ''gateway'' registry (gc_NodeOptions config))))
     in node_Entry n1 = e \<or> node_Entry n1 = metrics_CompleteNodeEntry ms e)"
  proof
    assume "cs = []"
    then have "nd_components n1 = [?p, rpc_component d gs]" "nd_entry n1 = nd_entry n"
      using assms(3) n(3) sc(1) ok by (auto simp: startAll_def sc(2))
    then show ?thesis using st ok n(1) by (simp add: node_Entry_def complete_components)
  next
    assume "\<exists>ms. cs = [metrics_component d ms]"
    then obtain ms where "nd_components n1 = [?p, rpc_component d gs, metrics_component d (ms\<lparr>ms_started := True\<rparr>)]"
      "nd_entry n1 = nd_entry n"
      using assms(3) n(3) sc(1) ok by (auto simp: startAll_def sc(2,3))
    then have "node_Entry n1 = metrics_CompleteNodeEntry (ms\<lparr>ms_started := True\<rparr>)
        (rpc_CompleteNodeEntry (gd_codes d (gs_services gs)) gs (gd_complete d (nd_entry n)))"
      by (simp add: node_Entry_def complete_components)
    then show ?thesis using st ok n(1) unfolding Let_def by metis
  qed
qed

lemma rpc_Entrance: "Entrance (rpc_CompleteNodeEntry cs gs e) = Entrance e"
  by (simp add: rpc_CompleteNodeEntry_def)

lemma metrics_validates:
  "entry_Validate uh (metrics_CompleteNodeEntry ms e) = entry_Validate uh e"
  "codes_of (metrics_CompleteNodeEntry ms e) = codes_of e"
  by (simp_all add: entry_Validate_def codes_of_def metrics_CompleteNodeEntry_def split: option.split)

text \<open>An etcd that grants leases, keeps them alive and takes what is put.\<close>

definition etcd_answers :: "put_env \<Rightarrow> bool" where
  "etcd_answers env \<longleftrightarrow> (\<forall>ttl. \<exists>lease. pe_grant env ttl = Inr lease) \<and> (\<forall>lease. pe_keepAlive env lease = None) \<and>
     (\<forall>key v lease. pe_put env key v lease = None)"

lemma Serve_registers:
  assumes "etcd_answers env" and "startAll n = (n1, calls, None)" and "entry_Validate (pe_url_Hostname env) (node_Entry n1) = None"
    and "pe_marshal env (node_Entry n1) = Inr v"
  shows "\<exists>n' acts lease. Serve env schedule visit n = (n', acts, None) \<and>
    ActEtcd (ReqPut (path_Join (keyPrefix (nd_registry n1)) (pe_ustr env (ID (node_Entry n1)))) v lease) \<in> set acts"
proof -
  obtain r' reqs where l: "initLease (pe_grant env) (pe_keepAlive env) (nd_registry n1) = (r', reqs, None)"
    and k: "keyPrefix r' = keyPrefix (nd_registry n1)"
  proof -
    obtain lease where "pe_grant env (leaseTTL (nd_registry n1)) = Inr lease" using assms(1) unfolding etcd_answers_def by blast
    then show thesis
      using that assms(1) by (cases "leaseID (nd_registry n1) = NoLease") (simp_all add: etcd_answers_def initLease_def)
  qed
  let ?put = "ReqPut (path_Join (keyPrefix (nd_registry n1)) (pe_ustr env (ID (node_Entry n1)))) v (leaseID r')"
  have p: "env_Put env (node_Entry n1) (nd_registry n1) = (r', reqs @ [?put], None)"
    using assms(1,3,4) l k by (simp add: env_Put_def registry_Put_def etcd_answers_def)
  obtain n2 reqs2 e2 where c: "ChangeState env NodeDown (n1\<lparr>nd_registry := r'\<rparr>) = (n2, reqs2, e2)"
    by (cases "ChangeState env NodeDown (n1\<lparr>nd_registry := r'\<rparr>)")
  obtain n3 calls3 where s: "stopAll schedule n2 = (n3, calls3)" by (cases "stopAll schedule n2")
  obtain r4 reqs4 where q: "registry_Close visit (nd_registry n3) = (r4, reqs4)" by (cases "registry_Close visit (nd_registry n3)")
  show ?thesis by (intro exI) (auto simp: Serve_def assms(2) p c s q)
qed


definition demo_deps :: gw_deps where
  "demo_deps = \<lparr>gd_complete = tcp_CompleteNodeEntry (NewTCPServer ''10.0.0.2:7000''), gd_serve = None,
     gd_net_Listen = (\<lambda>nt a. Inr \<lparr>l_Network = nt, l_Addr = ''10.0.0.2:9000''\<rparr>), gd_Abs = Inr, gd_ustr = (\<lambda>_. ''gw''),
     gd_codes = (\<lambda>m. sorted_list_of_set (dom m)), gd_visit = (\<lambda>_. [])\<rparr>"

definition demo_config :: GatewayConfig where
  "demo_config = \<lparr>gc_NodeOptions = [WithState NodeLazy], gc_Options = [WithTransporter, WithInitializer, WithEventBus, WithMulticast],
     gc_GRPCListen = ''10.0.0.2:9000'', gc_GRPCEndpoint = [], gc_GRPCListener = None, gc_MetricsListen = []\<rparr>"

definition demo_serve_env :: put_env where
  "demo_serve_env = demo_put_env\<lparr>pe_url_Hostname := (\<lambda>_. Inr ''10.0.0.2'')\<rparr>"


end
