(* ===== verification/Runtime_Metrics.thy ===== *)
theory Runtime_Metrics
  imports Gateway_Lifecycle
begin

text \<open>
  The process-wide metrics (\<open>src/internal/metrics/metrics.go\<close>) and the request log of the
  gateway, which feeds them (\<open>logRequest\<close> in \<open>src/component/gateway/proxy.go\<close>), and
  \<open>handleSession\<close> as a whole, which counts in both. A counter or
  gauge with labels is a function of the labels; a histogram is the list of its
  observations. \<open>elapsed\<close> is the time since the argument of type \<open>time.Time\<close>, and
  \<open>status_Code\<close> the gRPC code of an error.
\<close>

section \<open>Metrics\<close>

record metrics =
  m_enabled :: bool
  m_grpcReqs :: "string \<times> string \<Rightarrow> nat"
  m_grpcDurs :: "string \<Rightarrow> int list"
  m_sessionTotal :: "string \<Rightarrow> nat"
  m_sessionCount :: "string \<Rightarrow> int"
  m_payloadSize :: "int list"
  m_payloadSizeTotal :: "string \<Rightarrow> int"
  m_queueTotal :: "string \<Rightarrow> nat"
  m_queueDurs :: "string \<Rightarrow> int list"

definition no_metrics :: metrics where
  "no_metrics = \<lparr>m_enabled = False, m_grpcReqs = (\<lambda>_. 0), m_grpcDurs = (\<lambda>_. []), m_sessionTotal = (\<lambda>_. 0),
     m_sessionCount = (\<lambda>_. 0), m_payloadSize = [], m_payloadSizeTotal = (\<lambda>_. 0), m_queueTotal = (\<lambda>_. 0),
     m_queueDurs = (\<lambda>_. [])\<rparr>"

definition metrics_Init :: "metrics \<Rightarrow> metrics" where
  "metrics_Init m = (if m_enabled m then m else no_metrics\<lparr>m_enabled := True\<rparr>)"

definition IncrGRPCRequests :: "(go_error option \<Rightarrow> grpc_code) \<Rightarrow> string \<Rightarrow> go_error option \<Rightarrow> int \<Rightarrow> metrics \<Rightarrow> metrics" where
  "IncrGRPCRequests status_Code meth err elapsed m =
     (if \<not> m_enabled m then m
      else let key = (meth, code_name (status_Code err))
           in m\<lparr>m_grpcReqs := (m_grpcReqs m)(key := Suc (m_grpcReqs m key)),
                m_grpcDurs := (m_grpcDurs m)(meth := m_grpcDurs m meth @ [elapsed])\<rparr>)"

definition IncrGatewaySession :: "string \<Rightarrow> metrics \<Rightarrow> metrics" where
  "IncrGatewaySession sessionType m =
     (if \<not> m_enabled m then m
      else m\<lparr>m_sessionTotal := (m_sessionTotal m)(sessionType := Suc (m_sessionTotal m sessionType)),
             m_sessionCount := (m_sessionCount m)(sessionType := m_sessionCount m sessionType + 1)\<rparr>)"

definition DecrGatewaySession :: "string \<Rightarrow> metrics \<Rightarrow> metrics" where
  "DecrGatewaySession sessionType m =
     (if \<not> m_enabled m then m
      else m\<lparr>m_sessionCount := (m_sessionCount m)(sessionType := m_sessionCount m sessionType - 1)\<rparr>)"

definition IncrPayloadSize :: "string \<Rightarrow> int \<Rightarrow> metrics \<Rightarrow> metrics" where
  "IncrPayloadSize sessionType sz m =
     (if \<not> m_enabled m then m
      else m\<lparr>m_payloadSize := m_payloadSize m @ [sz],
             m_payloadSizeTotal := (m_payloadSizeTotal m)(sessionType := m_payloadSizeTotal m sessionType + sz)\<rparr>)"

definition IncrMessageQueue :: "string \<Rightarrow> int \<Rightarrow> metrics \<Rightarrow> metrics" where
  "IncrMessageQueue topic elapsed m =
     (if \<not> m_enabled m then m
      else m\<lparr>m_queueTotal := (m_queueTotal m)(topic := Suc (m_queueTotal m topic)),
             m_queueDurs := (m_queueDurs m)(topic := m_queueDurs m topic @ [elapsed])\<rparr>)"

section \<open>The request log\<close>

record request_line =
  rl_own_logger :: bool
  rl_level :: string
  rl_service :: "string option"
  rl_upstream :: "string option"
  rl_transID :: "string option"
  rl_error :: "(string \<times> string option) option"

text \<open>
  The closure of \<open>logRequest\<close>: the request is counted once it reached the call, and it is
  logged when it failed or when a request logger is set. An error that carries a status is
  logged with its message and code.
\<close>

definition proxy_logRequest ::
  "(go_error option \<Rightarrow> grpc_code) \<Rightarrow> (go_error \<Rightarrow> Status option) \<Rightarrow> bool \<Rightarrow> string option \<Rightarrow> string option \<Rightarrow> string \<Rightarrow>
   string \<Rightarrow> go_error option \<Rightarrow> int \<Rightarrow> metrics \<Rightarrow> metrics \<times> request_line option" where
  "proxy_logRequest status_Code FromError hasLogger upstream transID descName meth err elapsed m =
     ((if meth \<noteq> [] then IncrGRPCRequests status_Code meth err elapsed m else m),
      (if err = None \<and> \<not> hasLogger then None
       else Some \<lparr>rl_own_logger = hasLogger, rl_level = (if err = None then ''info'' else ''error''),
         rl_service = (if descName \<noteq> [] then Some descName else None), rl_upstream = upstream, rl_transID = transID,
         rl_error = map_option (\<lambda>e. case FromError e of
            Some s \<Rightarrow> (st_Message s, Some (code_name (st_Code s))) | None \<Rightarrow> (err_text e, None)) err\<rparr>))"

section \<open>Sessions\<close>

text \<open>What happens in the process: the metrics are initialised, a session begins or ends.\<close>

datatype metric_event = MetricsInit | SessionBegins string | SessionEnds string

fun metric_step :: "metric_event \<Rightarrow> metrics \<Rightarrow> metrics" where
  "metric_step MetricsInit m = metrics_Init m"
| "metric_step (SessionBegins t) m = IncrGatewaySession t m"
| "metric_step (SessionEnds t) m = DecrGatewaySession t m"

definition begins :: "string \<Rightarrow> metric_event list \<Rightarrow> nat" where
  "begins t evs = length (filter (\<lambda>e. e = SessionBegins t) evs)"

definition ends :: "string \<Rightarrow> metric_event list \<Rightarrow> nat" where
  "ends t evs = length (filter (\<lambda>e. e = SessionEnds t) evs)"

lemma metrics_disabled:
  assumes "MetricsInit \<notin> set evs" and "\<not> m_enabled m"
  shows "fold metric_step evs m = m"
  using assms
proof (induction evs)
  case (Cons e evs)
  then show ?case by (cases e) (simp_all add: IncrGatewaySession_def DecrGatewaySession_def)
qed simp

lemma metrics_enabled:
  assumes "m_enabled m"
  shows "m_enabled (fold metric_step evs m) \<and>
    m_sessionCount (fold metric_step evs m) t = m_sessionCount m t + int (begins t evs) - int (ends t evs) \<and>
    m_sessionTotal (fold metric_step evs m) t = m_sessionTotal m t + begins t evs"
  using assms
proof (induction evs arbitrary: m)
  case (Cons e evs)
  then show ?case
    by (cases e) (auto simp: metrics_Init_def IncrGatewaySession_def DecrGatewaySession_def begins_def ends_def)
qed (simp add: begins_def ends_def)

text \<open>
  The session gauge counts what happens after the metrics were initialised: it is the
  number of sessions that began since then minus the number that ended since then. So it is
  the number of open sessions exactly when as many sessions began as ended before.
\<close>

theorem session_gauge:
  assumes "MetricsInit \<notin> set before"
  shows "m_sessionCount (fold metric_step (before @ MetricsInit # after) no_metrics) t =
      int (begins t after) - int (ends t after) \<and>
    (m_sessionCount (fold metric_step (before @ MetricsInit # after) no_metrics) t =
      int (begins t (before @ after)) - int (ends t (before @ after)) \<longleftrightarrow> begins t before = ends t before)"
proof -
  have "fold metric_step (before @ MetricsInit # after) no_metrics =
      fold metric_step after (no_metrics\<lparr>m_enabled := True\<rparr>)"
    using metrics_disabled [OF assms, of no_metrics] by (simp add: no_metrics_def metrics_Init_def)
  moreover have "m_sessionCount (no_metrics\<lparr>m_enabled := True\<rparr>) t = 0" by (simp add: no_metrics_def)
  ultimately have "m_sessionCount (fold metric_step (before @ MetricsInit # after) no_metrics) t =
      int (begins t after) - int (ends t after)"
    using metrics_enabled [of "no_metrics\<lparr>m_enabled := True\<rparr>" after t] by simp
  moreover have "begins t (before @ after) = begins t before + begins t after"
    "ends t (before @ after) = ends t before + ends t after" by (simp_all add: begins_def ends_def)
  ultimately show ?thesis by linarith
qed

theorem session_gauge_witness:
  "m_sessionCount (fold metric_step ([SessionBegins ''tcp''] @ MetricsInit # [SessionEnds ''tcp'']) no_metrics) ''tcp'' = -1"
  using session_gauge [of "[SessionBegins ''tcp'']" "[SessionEnds ''tcp'']" "''tcp''"]
  by (simp add: begins_def ends_def del: fold_simps fold_append)

text \<open>
  Only requests that reached the call are counted, each once under its method and code, and
  a failed request is always logged.
\<close>

theorem request_counted:
  assumes "m_enabled m"
    and "proxy_logRequest status_Code FromError hasLogger upstream transID descName meth err elapsed m = (m', line)"
  shows "(meth = [] \<longrightarrow> m' = m) \<and>
    (meth \<noteq> [] \<longrightarrow> m_grpcReqs m' (meth, code_name (status_Code err)) = Suc (m_grpcReqs m (meth, code_name (status_Code err)))) \<and>
    (\<forall>k. k \<noteq> (meth, code_name (status_Code err)) \<longrightarrow> m_grpcReqs m' k = m_grpcReqs m k) \<and>
    (err \<noteq> None \<longrightarrow> line \<noteq> None)"
  using assms by (auto simp: proxy_logRequest_def IncrGRPCRequests_def Let_def split: if_splits)

section \<open>A session from beginning to end\<close>

text \<open>
  \<open>handleSession\<close> as a whole: the connect, the counter and the gauge, the request loop over
  what \<open>Recv\<close> and \<open>done\<close> yield, and the deferred functions in reverse order. Beside the loop
  the other goroutines of the process run: \<open>meanwhile\<close> is what they do until the loop ends.
  The result is the state and the metrics, and the requests that were submitted directly and
  those that were handed to the stream workers.
\<close>

definition sess_Type :: "nat \<Rightarrow> Proxy \<Rightarrow> string" where
  "sess_Type s px = (case px_store px s of None \<Rightarrow> [] | Some sess \<Rightarrow> gs_Type sess)"

definition handleSession ::
  "go_error + string \<times> metadata option \<Rightarrow> go_error option \<Rightarrow> go_error option \<Rightarrow> loop_input list \<Rightarrow>
   (Proxy \<times> metrics \<Rightarrow> Proxy \<times> metrics) \<Rightarrow> go_error option \<Rightarrow> nat \<Rightarrow> Proxy \<times> metrics \<Rightarrow>
   (Proxy \<times> metrics) \<times> Request list \<times> Request list" where
  "handleSession initializer interceptor connPub ins meanwhile discPub s pm =
     (case onConnect initializer interceptor connPub s (fst pm) of
        (px1, Connected) \<Rightarrow>
          let t = sess_Type s px1;
              (px2, m2) = meanwhile (session_begin Connected s px1, IncrGatewaySession t (snd pm));
              m3 = DecrGatewaySession t m2
          in ((session_end discPub s (session_leaves s px2), m3), request_loop ins [] [])
      | (px1, r) \<Rightarrow> ((session_begin r s px1, snd pm), [], []))"

text \<open>Both ways through \<open>handleSession\<close>.\<close>

lemma handleSession_cases:
  assumes "handleSession i c p ins meanwhile p' s (px, m) = ((px', m'), reqs)"
  obtains (failed) px1 r where "onConnect i c p s px = (px1, r)" and "r \<noteq> Connected" and "px' = session_begin r s px1" and "m' = m"
      and "reqs = ([], [])"
    | (served) px1 px2 m2 where "onConnect i c p s px = (px1, Connected)"
      and "meanwhile (session_begin Connected s px1, IncrGatewaySession (sess_Type s px1) m) = (px2, m2)"
      and "px' = session_end p' s (session_leaves s px2)" and "m' = DecrGatewaySession (sess_Type s px1) m2"
      and "reqs = request_loop ins [] []"
proof -
  obtain px1 r where oc: "onConnect i c p s px = (px1, r)" by (cases "onConnect i c p s px")
  show thesis
  proof (cases r)
    case Connected
    then show thesis using served [of px1] oc assms by (auto simp: handleSession_def Let_def split: prod.splits)
  qed (use failed [of px1 r] oc assms in \<open>auto simp: handleSession_def\<close>)
qed

lemma session_end_done: "px_phase (session_end p s px) s = Ended"
  "px_store (session_end p s px) s = Some sess \<Longrightarrow> gs_closed sess"
  "px_count (session_end p s px) = px_count px"
  by (auto simp: session_end_def onDisconnect_def hub_Delete_def sess_Close_def Let_def split: option.splits if_splits)

lemma onConnect_count: "onConnect i c p s px = (px', r) \<Longrightarrow> px_count px' = px_count px"
  by (auto simp: onConnect_def connectInit_def connectEvict_def connectCancelJob_def connectPublish_def hub_Store_def sess_Close_def
      Let_def split: sum.splits option.splits timer.splits prod.splits if_splits)

text \<open>
  A connection is handled as a path of the gateway's steps: it ends closed, unless the connect
  hangs, and it leaves counter and gauge where the other goroutines put them.
\<close>

theorem handleSession_balanced:
  assumes "px_phase px s = Connecting" and "handleSession i c p ins meanwhile p' s (px, m) = ((px', m'), reqs)"
    and "\<And>y n. px_phase y s = Serving \<Longrightarrow> gw_step\<^sup>*\<^sup>* y (fst (meanwhile (y, n))) \<and> px_phase (fst (meanwhile (y, n))) s = Serving"
    and "\<And>y n. px_count (fst (meanwhile (y, n))) = px_count y + d"
    and "\<And>y n. m_enabled n \<Longrightarrow> m_enabled (snd (meanwhile (y, n))) \<and> (\<forall>t. m_sessionCount (snd (meanwhile (y, n))) t = m_sessionCount n t + e t)"
    and "m_enabled m"
  shows "gw_step\<^sup>*\<^sup>* px px' \<and>
    (snd (onConnect i c p s px) \<noteq> ConnectBlocked \<longrightarrow> px_phase px' s = Ended \<and> (\<forall>sess. px_store px' s = Some sess \<longrightarrow> gs_closed sess)) \<and>
    (if snd (onConnect i c p s px) = Connected then px_count px' = px_count px + d \<and> (\<forall>t. m_sessionCount m' t = m_sessionCount m t + e t)
      else px_count px' = px_count px \<and> m' = m)"
  using assms(2)
proof (cases rule: handleSession_cases)
  case (failed px1 r)
  have "gw_step px px'" unfolding failed(3) using assms(1) failed(1) by (rule step_connect)
  moreover have "px_count px' = px_count px"
    using failed(2,3) onConnect_count [OF failed(1)] by (cases r) (auto simp: session_begin_def sess_Close_def split: option.splits)
  moreover have "px_phase px' s = Ended \<and> (\<forall>sess. px_store px' s = Some sess \<longrightarrow> gs_closed sess)" if "r \<noteq> ConnectBlocked"
    using failed(2,3) that by (cases r) (auto simp: session_begin_def sess_Close_def split: option.splits)
  ultimately show ?thesis using failed by auto
next
  case (served px1 px2 m2)
  let ?y = "session_begin Connected s px1" and ?t = "sess_Type s px1"
  let ?n = "IncrGatewaySession ?t m"
  have y: "px_phase ?y s = Serving" "px_count ?y = px_count px + 1" using onConnect_count [OF served(1)] by (simp_all add: session_begin_def)
  have "gw_step px ?y" using assms(1) served(1) by (rule step_connect)
  moreover have "gw_step\<^sup>*\<^sup>* ?y px2" "px_phase px2 s = Serving" using assms(3) [OF y(1), of ?n] served(2) by simp_all
  moreover have "gw_step px2 (session_leaves s px2)" using \<open>px_phase px2 s = Serving\<close> by (rule step_leave)
  moreover have "gw_step (session_leaves s px2) px'" unfolding served(3) by (rule step_end) (simp add: session_leaves_def)
  ultimately have "gw_step\<^sup>*\<^sup>* px px'" by (meson converse_rtranclp_into_rtranclp rtranclp.rtrancl_into_rtrancl)
  moreover have "px_count px' = px_count px + d"
    using assms(4) [of ?y ?n] served(2,3) y(2) by (simp add: session_end_done session_leaves_def)
  moreover have "m_sessionCount m' t = m_sessionCount m t + e t" for t
    using assms(5) [of ?n ?y] assms(6) served(2,4) by (simp add: IncrGatewaySession_def DecrGatewaySession_def)
  ultimately show ?thesis using served(1,3) session_end_done(1,2) by auto
qed

end
