(* ===== verification/Protoc_Gen.thy ===== *)
theory Protoc_Gen
  imports Rpc_Server Event_Bus
begin

text \<open>
  The code generator \<open>protoc-gen-go-nodehub\<close> (\<open>src/cmd/protoc-gen-go-nodehub\<close>): reading the
  codes from the options of services and messages, and printing the tables that
  \<open>PackReply\<close> and \<open>UnpackReply\<close> use at run time.

  The descriptors come from \<open>protogen\<close>: options are \<open>None\<close> when absent, otherwise their set
  fields in the order in which \<open>Range\<close> visits them. An identifier is its import path and
  name, and \<open>ident\<close> is how the generated file refers to it. A generated file is the list of
  its lines.
\<close>

section \<open>Descriptors\<close>

record opt_field =
  of_ext :: bool
  of_Name :: string
  of_Value :: int

type_synonym go_ident = "string \<times> string"

record pg_message =
  pm_GoIdent :: go_ident
  pm_Options :: "opt_field list option"

record pg_method =
  pd_GoName :: string
  pd_Name :: string
  pd_Output :: pg_message

record pg_service =
  ps_GoName :: string
  ps_FullName :: string
  ps_Options :: "opt_field list option"
  ps_Methods :: "pg_method list"

record pg_file =
  pf_Path :: string
  pf_Package :: string
  pf_Deprecated :: bool
  pf_Services :: "pg_service list"
  pf_Messages :: "pg_message list"

definition optionServiceCode :: string where "optionServiceCode = ''service_code''"
definition optionReplyCode :: string where "optionReplyCode = ''reply_code''"
definition optionReplyService :: string where "optionReplyService = ''reply_service''"

section \<open>Reading the codes\<close>

text \<open>A range that stops at the first extension of the name, and one that keeps the last.\<close>

fun first_ext :: "string \<Rightarrow> opt_field list \<Rightarrow> int option" where
  "first_ext name [] = None"
| "first_ext name (fd # fds) = (if of_ext fd \<and> of_Name fd = name then Some (of_Value fd) else first_ext name fds)"

definition last_ext :: "string \<Rightarrow> opt_field list \<Rightarrow> int option" where
  "last_ext name fds = fold (\<lambda>fd v. if of_ext fd \<and> of_Name fd = name then Some (of_Value fd) else v) fds None"

definition getServiceCode :: "pg_service \<Rightarrow> int option" where
  "getServiceCode s = (case ps_Options s of None \<Rightarrow> None | Some fds \<Rightarrow> first_ext optionServiceCode fds)"

definition getReplyCode :: "pg_method \<Rightarrow> int option" where
  "getReplyCode m = (case pm_Options (pd_Output m) of None \<Rightarrow> None | Some fds \<Rightarrow> first_ext optionReplyCode fds)"

record nh_Method =
  nm_Method :: pg_method
  nm_ReplyCode :: int

record nh_Service =
  nv_Service :: pg_service
  nv_Code :: int
  nv_Methods :: "nh_Method list"

record nh_Message =
  ng_Message :: pg_message
  ng_ReplyService :: int
  ng_ReplyCode :: int

definition parse_methods :: "pg_service \<Rightarrow> nh_Method list" where
  "parse_methods s = List.map_filter (\<lambda>m. map_option (\<lambda>c. \<lparr>nm_Method = m, nm_ReplyCode = c\<rparr>) (getReplyCode m)) (ps_Methods s)"

definition parseServices :: "pg_file \<Rightarrow> nh_Service list" where
  "parseServices file = List.map_filter
     (\<lambda>s. map_option (\<lambda>c. \<lparr>nv_Service = s, nv_Code = c, nv_Methods = parse_methods s\<rparr>) (getServiceCode s))
     (pf_Services file)"

definition parse_message :: "pg_message \<Rightarrow> nh_Message option" where
  "parse_message m =
     (case pm_Options m of
        None \<Rightarrow> None
      | Some fds \<Rightarrow>
          (case (last_ext optionReplyService fds, last_ext optionReplyCode fds) of
             (Some service, Some code) \<Rightarrow> Some \<lparr>ng_Message = m, ng_ReplyService = service, ng_ReplyCode = code\<rparr>
           | _ \<Rightarrow> None))"

definition parseMessages :: "pg_file \<Rightarrow> nh_Message list" where
  "parseMessages file = List.map_filter parse_message (pf_Messages file)"

section \<open>Printing\<close>

definition nhPackage :: string where "nhPackage = ''github.com/joyparty/nodehub/proto/nh''"
definition protoPackage :: string where "protoPackage = ''google.golang.org/protobuf/proto''"

text \<open>The path of a method in the table of reply codes.\<close>

definition method_path :: "pg_service \<Rightarrow> pg_method \<Rightarrow> string" where
  "method_path s m = ''/'' @ ps_FullName s @ ''/'' @ pd_GoName m"

definition codes_comment :: string where
  "codes_comment = ''_MethodReplyCodes '' @ [CHR 0xE6, CHR 0xAF, CHR 0x8F, CHR 0xE4, CHR 0xB8, CHR 0xAA] @ ''grpc'' @
     [CHR 0xE6, CHR 0x96, CHR 0xB9, CHR 0xE6, CHR 0xB3, CHR 0x95, CHR 0xE8, CHR 0xBF, CHR 0x94, CHR 0xE5, CHR 0x9B,
     CHR 0x9E, CHR 0xE5, CHR 0x80, CHR 0xBC, CHR 0xE5, CHR 0xAF, CHR 0xB9, CHR 0xE5, CHR 0xBA, CHR 0x94, CHR 0xE7,
     CHR 0x9A, CHR 0x84] @
     ''nodehub.Reply.code''"

definition gen_codes_of :: "nh_Service \<Rightarrow> string list" where
  "gen_codes_of s =
     [[], ''// '' @ ps_GoName (nv_Service s) @ codes_comment,
      ''var '' @ ps_GoName (nv_Service s) @ ''_MethodReplyCodes = map[string]int32{''] @
     map (\<lambda>m. CHR 0x09 # go_quote (method_path (nv_Service s) (nm_Method m)) @ '': '' @ itoa (nm_ReplyCode m) @ '','')
       (nv_Methods s) @ [''}'']"

definition genMethodReplyCodes :: "pg_file \<Rightarrow> string list \<times> bool" where
  "genMethodReplyCodes file =
     (let services = parseServices file in (concat (map gen_codes_of services), services \<noteq> []))"

definition register_line :: "(go_ident \<Rightarrow> string) \<Rightarrow> int \<Rightarrow> int \<Rightarrow> go_ident \<Rightarrow> string" where
  "register_line ident service code t =
     ident (nhPackage, ''RegisterReplyType'') @ ''('' @ itoa service @ '','' @ itoa code @ '', &'' @ ident t @ ''{})''"

text \<open>The registrations of the generated \<open>init\<close>, in their order.\<close>

definition registrations :: "pg_file \<Rightarrow> (int \<times> int \<times> go_ident) list" where
  "registrations file =
     concat (map (\<lambda>s. map (\<lambda>m. (nv_Code s, nm_ReplyCode m, pm_GoIdent (pd_Output (nm_Method m)))) (nv_Methods s))
       (parseServices file)) @
     map (\<lambda>m. (ng_ReplyService m, ng_ReplyCode m, pm_GoIdent (ng_Message m))) (parseMessages file)"

definition genReplyMessages :: "(go_ident \<Rightarrow> string) \<Rightarrow> bool \<Rightarrow> pg_file \<Rightarrow> string list \<times> bool" where
  "genReplyMessages ident replyMessages file =
     (if \<not> replyMessages then ([], False)
      else if parseServices file = [] \<and> parseMessages file = [] then ([], False)
      else ([[], ''func init() {''] @
            map (\<lambda>(service, code, t). register_line ident service code t) (registrations file) @ [''}''], True))"

definition gen_pack_of :: "(go_ident \<Rightarrow> string) \<Rightarrow> nh_Message \<Rightarrow> string list" where
  "gen_pack_of ident m =
     (let t = ident (pm_GoIdent (ng_Message m)) in
      [[], ''func Pack'' @ t @ ''(msg *'' @ t @ '') (*'' @ ident (nhPackage, ''Reply'') @ '', error) {'',
       ''data, err := '' @ ident (protoPackage, ''Marshal'') @ ''(msg)'', ''if err != nil { return nil, err}'', [],
       ''return '' @ ident (nhPackage, ''Reply_builder'') @ ''{'', ''ServiceCode:'' @ itoa (ng_ReplyService m) @ '','',
       ''Code:'' @ itoa (ng_ReplyCode m) @ '','', ''Data: data,'', ''}.Build(), nil'', ''}''])"

definition genPackFunctions :: "(go_ident \<Rightarrow> string) \<Rightarrow> pg_file \<Rightarrow> string list \<times> bool" where
  "genPackFunctions ident file =
     (let messages = parseMessages file in (concat (map (gen_pack_of ident) messages), messages \<noteq> []))"

text \<open>A file without any of the three parts is skipped.\<close>

definition generateFile :: "(go_ident \<Rightarrow> string) \<Rightarrow> bool \<Rightarrow> pg_file \<Rightarrow> string list option" where
  "generateFile ident replyMessages file =
     (let head = [''// Code generated by protoc-gen-go-nodehub. DO NOT EDIT.'',
                  (if pf_Deprecated file then ''// '' @ pf_Path file @ '' is a deprecated file.''
                   else ''// source: '' @ pf_Path file),
                  [], ''package '' @ pf_Package file, []];
          (ls1, ok1) = genReplyMessages ident replyMessages file;
          (ls2, ok2) = genMethodReplyCodes file;
          (ls3, ok3) = genPackFunctions ident file
      in if ok1 \<or> ok2 \<or> ok3 then Some (head @ ls1 @ ls2 @ ls3) else None)"

text \<open>
  Registering the extensions of a file: those of nested messages first, whose errors are
  dropped, then its own until the first error. \<open>register\<close> is the outcome for one of them.
\<close>

datatype ext_scope = ExtScope (es_messages: "ext_scope list") (es_extensions: "string list")

fun register_own :: "(string \<Rightarrow> go_error option) \<Rightarrow> string list \<Rightarrow> string list \<times> go_error option" where
  "register_own register [] = ([], None)"
| "register_own register (x # xs) =
     (case register x of
        Some err \<Rightarrow> ([], Some err)
      | None \<Rightarrow> (case register_own register xs of (done, err) \<Rightarrow> (x # done, err)))"

fun registerAllExtensions :: "(string \<Rightarrow> go_error option) \<Rightarrow> ext_scope \<Rightarrow> string list \<times> go_error option" where
  "registerAllExtensions register (ExtScope mds xds) =
     (let nested = concat (map (\<lambda>md. fst (registerAllExtensions register md)) mds);
          (own, err) = register_own register xds
      in (nested @ own, err))"

text \<open>
  \<open>main\<close>, driven by \<open>protogen\<close> with the files of a request: it registers the extensions of all
  of them, an error of which panics, and then generates a file for each that asks for it.
\<close>

record pg_source =
  pz_Scope :: ext_scope
  pz_File :: pg_file
  pz_Generate :: bool
  pz_FilenamePrefix :: string

definition pg_main ::
  "(string \<Rightarrow> go_error option) \<Rightarrow> (go_ident \<Rightarrow> string) \<Rightarrow> bool \<Rightarrow> pg_source list \<Rightarrow> (string \<times> string list) list go" where
  "pg_main register ident replyMessages sources =
     go_bind (go_fold (\<lambda>src u. case snd (registerAllExtensions register (pz_Scope src)) of
                Some err \<Rightarrow> Panic (err_text err) | None \<Rightarrow> Ok u) sources ())
       (\<lambda>_. Ok (List.map_filter (\<lambda>src.
          if pz_Generate src
          then map_option (\<lambda>ls. (pz_FilenamePrefix src @ ''_nodehub.pb.go'', ls)) (generateFile ident replyMessages (pz_File src))
          else None) sources))"

section \<open>The tables at run time\<close>

text \<open>
  The map a generated \<open>_MethodReplyCodes\<close> variable holds, the effect of the generated
  \<open>init\<close> on the table of reply types, and the name gRPC gives a method, which ends in the
  method's name in the proto file.
\<close>

definition MethodReplyCodes :: "nh_Service \<Rightarrow> (string \<rightharpoonup> int)" where
  "MethodReplyCodes s = map_of (map (\<lambda>m. (method_path (nv_Service s) (nm_Method m), nm_ReplyCode m)) (nv_Methods s))"

definition run_init :: "(go_ident \<Rightarrow> byte list \<Rightarrow> go_error + 'm) \<Rightarrow> pg_file \<Rightarrow> 'm reply_types \<Rightarrow> 'm reply_types" where
  "run_init decoder file types =
     fold (\<lambda>(service, code, t). RegisterReplyType service code (decoder t)) (registrations file) types"

definition grpc_FullMethod :: "pg_service \<Rightarrow> pg_method \<Rightarrow> string" where
  "grpc_FullMethod s m = ''/'' @ ps_FullName s @ ''/'' @ pd_Name m"

section \<open>Lemmas\<close>

lemma method_path_inj: "method_path s m = ''/'' @ ps_FullName s @ ''/'' @ x \<longleftrightarrow> pd_GoName m = x"
  by (simp add: method_path_def)

lemma MethodReplyCodes_found:
  assumes "m \<in> set (nv_Methods s)" and "distinct (map (pd_GoName \<circ> nm_Method) (nv_Methods s))"
  shows "MethodReplyCodes s (method_path (nv_Service s) (nm_Method m)) = Some (nm_ReplyCode m)"
proof -
  have "inj_on (\<lambda>m. method_path (nv_Service s) (nm_Method m)) (set (nv_Methods s))" "distinct (nv_Methods s)"
    using assms(2) by (auto simp: distinct_map inj_on_def method_path_def)
  then have "distinct (map fst (map (\<lambda>m. (method_path (nv_Service s) (nm_Method m), nm_ReplyCode m)) (nv_Methods s)))"
    by (simp add: distinct_map comp_def)
  then show ?thesis unfolding MethodReplyCodes_def using assms(1) by (intro map_of_is_SomeI) auto
qed

lemma MethodReplyCodes_missing:
  "MethodReplyCodes s (''/'' @ ps_FullName (nv_Service s) @ ''/'' @ x) = None \<longleftrightarrow>
   x \<notin> (pd_GoName \<circ> nm_Method) ` set (nv_Methods s)"
proof -
  have "''/'' @ ps_FullName (nv_Service s) @ ''/'' @ x \<in> (\<lambda>m. method_path (nv_Service s) (nm_Method m)) ` set (nv_Methods s) \<longleftrightarrow>
      x \<in> (pd_GoName \<circ> nm_Method) ` set (nv_Methods s)"
    unfolding image_iff eq_commute [of "''/'' @ ps_FullName (nv_Service s) @ ''/'' @ x"] method_path_inj comp_def
    by (simp only: eq_commute [of x])
  then show ?thesis unfolding MethodReplyCodes_def map_of_eq_None_iff by (simp add: image_image comp_def)
qed

lemma run_registrations:
  fixes decoder :: "go_ident \<Rightarrow> byte list \<Rightarrow> go_error + 'm"
  defines "step \<equiv> \<lambda>(service, code, t). RegisterReplyType service code (decoder t)"
  assumes "\<forall>t. (service, code, t) \<in> set regs \<longrightarrow> t = t0"
  shows "fold step regs types (service, code) =
    (if (service, code, t0) \<in> set regs then Some (decoder t0) else types (service, code))"
  using assms(2)
proof (induction regs arbitrary: types)
  case (Cons reg regs)
  obtain s c t where reg: "reg = (s, c, t)" by (cases reg)
  have IH: "fold step regs (step reg types) (service, code) =
      (if (service, code, t0) \<in> set regs then Some (decoder t0) else step reg types (service, code))"
    by (rule Cons.IH) (use Cons.prems in simp)
  show ?case
  proof (cases "s = service \<and> c = code")
    case True
    then have t: "t = t0" using spec [OF Cons.prems, of t] reg by simp
    with True have "step reg types (service, code) = Some (decoder t0)"
      by (simp add: step_def reg RegisterReplyType_def)
    then show ?thesis using IH reg t True by simp
  next
    case False
    then have "step reg types (service, code) = types (service, code)"
      by (auto simp: step_def reg RegisterReplyType_def)
    then show ?thesis using IH reg False by auto
  qed
qed simp

lemma registration_of_method:
  assumes "s \<in> set (parseServices file)" and "m \<in> set (nv_Methods s)"
  shows "(nv_Code s, nm_ReplyCode m, pm_GoIdent (pd_Output (nm_Method m))) \<in> set (registrations file)"
proof -
  have "(nv_Code s, nm_ReplyCode m, pm_GoIdent (pd_Output (nm_Method m)))
      \<in> set (map (\<lambda>m. (nv_Code s, nm_ReplyCode m, pm_GoIdent (pd_Output (nm_Method m)))) (nv_Methods s))"
    using assms(2) by simp
  then show ?thesis unfolding registrations_def set_append set_concat using assms(1) by fastforce
qed

section \<open>Properties\<close>

text \<open>
  C34. The generated tables fit together: for a service with a code and a method whose output has
  a reply code, a response packed on the server with the generated table of reply codes is
  decoded by a client that ran the generated \<open>init\<close> as the output type of the method,
  provided the method is named the same in Go and in the proto file, methods have different
  names, and the file gives no two types the same codes.
\<close>

theorem generated_roundtrip:
  assumes "s \<in> set (parseServices file)" and "m \<in> set (nv_Methods s)"
    and "distinct (map (pd_GoName \<circ> nm_Method) (nv_Methods s))" and "pd_Name (nm_Method m) = pd_GoName (nm_Method m)"
    and "\<forall>t. (nv_Code s, nm_ReplyCode m, t) \<in> set (registrations file) \<longrightarrow> t = pm_GoIdent (pd_Output (nm_Method m))"
    and "handler req = (resp, None)" and "marshal resp = Inr data"
    and "decoder (pm_GoIdent (pd_Output (nm_Method m))) data = Inr resp"
  shows "\<exists>reply. PackReply marshal [MethodReplyCodes s] (grpc_FullMethod (nv_Service s) (nm_Method m)) handler req =
      (RespReply reply, None) \<and>
    UnpackReply (run_init decoder file types) (reply\<lparr>rep_RequestId := i, rep_ServiceCode := nv_Code s\<rparr>) = Some (Inr resp)"
proof -
  have "lo_Assign [MethodReplyCodes s] (grpc_FullMethod (nv_Service s) (nm_Method m)) = Some (nm_ReplyCode m)"
    using MethodReplyCodes_found [OF assms(2,3)] assms(4) by (simp add: lo_Assign_def grpc_FullMethod_def method_path_def)
  moreover have "run_init decoder file types (nv_Code s, nm_ReplyCode m) =
      Some (decoder (pm_GoIdent (pd_Output (nm_Method m))))"
    unfolding run_init_def run_registrations [OF assms(5)] if_P [OF registration_of_method [OF assms(1,2)]] ..
  ultimately show ?thesis
    using assms(6-8) by (simp add: PackReply_def NewReply_def UnpackReply_def GetReplyType_def)
qed

definition demo_output :: pg_message where
  "demo_output = \<lparr>pm_GoIdent = (''echopb'', ''Msg''), pm_Options = Some [\<lparr>of_ext = True, of_Name = ''reply_code'', of_Value = 3\<rparr>]\<rparr>"

definition demo_file :: "string \<Rightarrow> pg_file" where
  "demo_file name = \<lparr>pf_Path = ''echo.proto'', pf_Package = ''echopb'', pf_Deprecated = False,
     pf_Services = [\<lparr>ps_GoName = ''Echo'', ps_FullName = ''echo.Echo'',
       ps_Options = Some [\<lparr>of_ext = True, of_Name = ''service_code'', of_Value = 7\<rparr>],
       ps_Methods = [\<lparr>pd_GoName = ''SayHi'', pd_Name = name, pd_Output = demo_output\<rparr>]\<rparr>],
     pf_Messages = [demo_output]\<rparr>"

definition demo_service :: "string \<Rightarrow> nh_Service" where
  "demo_service name = \<lparr>nv_Service = hd (pf_Services (demo_file name)), nv_Code = 7,
     nv_Methods = [\<lparr>nm_Method = \<lparr>pd_GoName = ''SayHi'', pd_Name = name, pd_Output = demo_output\<rparr>, nm_ReplyCode = 3\<rparr>]\<rparr>"

lemma demo_file_parsed: "parseServices (demo_file name) = [demo_service name]" "parseMessages (demo_file name) = []"
  by (simp_all add: parseServices_def parseMessages_def parse_message_def parse_methods_def demo_file_def demo_service_def
      demo_output_def getServiceCode_def getReplyCode_def optionServiceCode_def optionReplyCode_def optionReplyService_def
      last_ext_def List.map_filter_def)

theorem generated_roundtrip_witness:
  "\<exists>reply. PackReply (\<lambda>m. Inr [m]) [MethodReplyCodes (demo_service ''SayHi'')] ''/echo.Echo/SayHi'' (\<lambda>r. (r, None)) (5 :: byte) =
      (RespReply reply, None) \<and>
    UnpackReply (run_init (\<lambda>t d. Inr (hd d)) (demo_file ''SayHi'') Map.empty)
      (reply\<lparr>rep_RequestId := 1, rep_ServiceCode := 7\<rparr>) = Some (Inr 5)"
proof -
  let ?s = "demo_service ''SayHi''" and ?m = "hd (nv_Methods (demo_service ''SayHi''))"
  have facts: "nv_Code ?s = 7" "grpc_FullMethod (nv_Service ?s) (nm_Method ?m) = ''/echo.Echo/SayHi''"
    by (simp_all add: demo_service_def demo_file_def grpc_FullMethod_def)
  have "\<exists>reply. PackReply (\<lambda>m. Inr [m]) [MethodReplyCodes ?s] (grpc_FullMethod (nv_Service ?s) (nm_Method ?m))
      (\<lambda>r. (r, None)) (5 :: byte) = (RespReply reply, None) \<and>
    UnpackReply (run_init (\<lambda>t d. Inr (hd d)) (demo_file ''SayHi'') Map.empty)
      (reply\<lparr>rep_RequestId := 1, rep_ServiceCode := nv_Code ?s\<rparr>) = Some (Inr 5)"
    by (rule generated_roundtrip [where data = "[5]"])
      (simp_all add: demo_file_parsed registrations_def, simp_all add: demo_service_def)
  then show ?thesis unfolding facts .
qed

text \<open>
  A method whose Go name differs from its name in the proto file is not packed: the
  generated table is keyed by the Go name while gRPC asks for the proto name, so the
  response of \<open>say_hi\<close> goes out unpacked although its output has a reply code.
\<close>

theorem renamed_method_unpacked:
  assumes "pd_Name m \<notin> (pd_GoName \<circ> nm_Method) ` set (nv_Methods s)" and "handler req = (resp, None)"
  shows "PackReply marshal [MethodReplyCodes s] (grpc_FullMethod (nv_Service s) m) handler req = (RespMsg resp, None)"
proof -
  have "lo_Assign [MethodReplyCodes s] (grpc_FullMethod (nv_Service s) m) = None"
    using MethodReplyCodes_missing [of s "pd_Name m"] assms(1) by (simp add: lo_Assign_def grpc_FullMethod_def)
  then show ?thesis using assms(2) by (simp add: PackReply_def)
qed

theorem renamed_method_unpacked_witness:
  "PackReply (\<lambda>m. Inr [m]) [MethodReplyCodes (demo_service ''say_hi'')] ''/echo.Echo/say_hi'' (\<lambda>r. (r, None)) (5 :: byte) =
   (RespMsg 5, None)"
  using renamed_method_unpacked [of "nm_Method (hd (nv_Methods (demo_service ''say_hi'')))" "demo_service ''say_hi''"
      "\<lambda>r. (r, None)" "5 :: byte" 5 "\<lambda>m. Inr [m]"]
  by (simp add: demo_service_def demo_file_def grpc_FullMethod_def)

end
