(* ===== verification/Nh_Logger.thy ===== *)
theory Nh_Logger
  imports Nh_Prelude
begin

text \<open>
  The logger of the framework (\<open>src/logger/logger.go\<close>, \<open>context.go\<close>). A \<open>Logger\<close> value is
  nil (\<open>None\<close>), the null logger, or one the program installed, which is a number; what the
  loggers were given is recorded. A context is the value stored under \<open>loggerKey\<close>.
\<close>

datatype level = LevelDebug | LevelInfo | LevelWarn | LevelError

datatype Logger = NullLogger | SinkLogger nat

record log_world =
  lw_default :: "Logger option"
  lw_lines :: "(nat \<times> level \<times> string) list"

definition init_log :: log_world where
  "init_log = \<lparr>lw_default = Some NullLogger, lw_lines = []\<rparr>"

definition SetLogger :: "Logger option \<Rightarrow> log_world \<Rightarrow> log_world" where
  "SetLogger logger w = w\<lparr>lw_default := logger\<rparr>"

text \<open>Calling a method of a \<open>Logger\<close> value: the null logger does nothing, nil panics.\<close>

definition log_to :: "Logger option \<Rightarrow> level \<Rightarrow> string \<Rightarrow> log_world \<Rightarrow> log_world go" where
  "log_to logger lv msg w =
     (case logger of
        None \<Rightarrow> Panic ''nil pointer dereference''
      | Some NullLogger \<Rightarrow> Ok w
      | Some (SinkLogger n) \<Rightarrow> Ok (w\<lparr>lw_lines := lw_lines w @ [(n, lv, msg)]\<rparr>))"

definition log_Debug :: "string \<Rightarrow> log_world \<Rightarrow> log_world go" where
  "log_Debug msg w = log_to (lw_default w) LevelDebug msg w"

definition log_Info :: "string \<Rightarrow> log_world \<Rightarrow> log_world go" where
  "log_Info msg w = log_to (lw_default w) LevelInfo msg w"

definition log_Warn :: "string \<Rightarrow> log_world \<Rightarrow> log_world go" where
  "log_Warn msg w = log_to (lw_default w) LevelWarn msg w"

definition log_Error :: "string \<Rightarrow> log_world \<Rightarrow> log_world go" where
  "log_Error msg w = log_to (lw_default w) LevelError msg w"

text \<open>
  A context holds what \<open>NewContext\<close> stored, possibly a nil \<open>Logger\<close>, for which the type
  assertion in \<open>FromContext\<close> fails.
\<close>

type_synonym log_ctx = "Logger option option"

definition NewContext :: "log_ctx \<Rightarrow> Logger option \<Rightarrow> log_ctx" where
  "NewContext ctx l = Some l"

definition FromContext :: "log_ctx \<Rightarrow> log_world \<Rightarrow> Logger option" where
  "FromContext ctx w = (case ctx of Some (Some l) \<Rightarrow> Some l | _ \<Rightarrow> lw_default w)"

definition DebugContext :: "log_ctx \<Rightarrow> string \<Rightarrow> log_world \<Rightarrow> log_world go" where
  "DebugContext ctx msg w = log_to (FromContext ctx w) LevelDebug msg w"

definition InfoContext :: "log_ctx \<Rightarrow> string \<Rightarrow> log_world \<Rightarrow> log_world go" where
  "InfoContext ctx msg w = log_to (FromContext ctx w) LevelInfo msg w"

definition WarnContext :: "log_ctx \<Rightarrow> string \<Rightarrow> log_world \<Rightarrow> log_world go" where
  "WarnContext ctx msg w = log_to (FromContext ctx w) LevelWarn msg w"

definition ErrorContext :: "log_ctx \<Rightarrow> string \<Rightarrow> log_world \<Rightarrow> log_world go" where
  "ErrorContext ctx msg w = log_to (FromContext ctx w) LevelError msg w"

lemmas log_ops = log_Debug_def log_Info_def log_Warn_def log_Error_def DebugContext_def InfoContext_def
  WarnContext_def ErrorContext_def

text \<open>
  Logging never disturbs the program while the default logger is not nil: whatever the
  context holds, a call at any level returns, writes at most one line and keeps the default
  logger; so do the calls without a context, which use the default logger.
\<close>

theorem logging_safe:
  assumes "lw_default w \<noteq> None"
  shows "\<exists>w'. log_to (FromContext ctx w) lv msg w = Ok w' \<and> lw_default w' = lw_default w \<and>
    (\<exists>ls. lw_lines w' = lw_lines w @ ls \<and> length ls \<le> 1)"
proof -
  have "FromContext ctx w \<noteq> None"
    using assms by (cases ctx) (auto simp: FromContext_def split: option.split)
  then obtain l where "FromContext ctx w = Some l" by blast
  then show ?thesis by (cases l) (simp_all add: log_to_def)
qed

theorem logging_safe_witness:
  "\<exists>w'. ErrorContext (NewContext None None) ''x'' init_log = Ok w' \<and> lw_lines w' = []"
  using logging_safe [of init_log "NewContext None None" LevelError "''x''"]
  by (auto simp: init_log_def ErrorContext_def FromContext_def NewContext_def log_to_def)

text \<open>A context's logger takes precedence over the default one, a nil one does not.\<close>

lemma context_logger:
  "FromContext (NewContext ctx (Some l)) w = Some l" "FromContext (NewContext ctx None) w = lw_default w"
  "FromContext None w = lw_default w"
  by (simp_all add: FromContext_def NewContext_def)

end
