(* ===== verification/Example_Base.thy ===== *)
theory Example_Base
  imports Multicast_Bus Event_Bus Rpc_Server Gateway_Lifecycle Gateway_Client Node_Runtime
begin

text \<open>
  What the programs under \<open>src/example\<close> share: turning errors into panics, connecting to
  etcd and to the message broker, serving a node, and reporting the error of a call. The
  command line, etcd's client and NATS are outside the repository: the values of the flags,
  \<open>clientv3_New\<close> and \<open>nats_Connect\<close> are arguments.
\<close>

section \<open>Errors that end the program\<close>

definition mustDo :: "go_error option \<Rightarrow> unit go" where
  "mustDo err = (case err of Some e \<Rightarrow> Panic (err_text e) | None \<Rightarrow> Ok ())"

definition mustReturn :: "go_error + 'a \<Rightarrow> 'a go" where
  "mustReturn r = (case r of Inl e \<Rightarrow> Panic (err_text e) | Inr t \<Rightarrow> Ok t)"

text \<open>The same for a function that may itself panic.\<close>

fun mustGo :: "'a go \<Rightarrow> 'a go" where
  "mustGo (Error e) = Panic (err_text e)"
| "mustGo r = r"

definition handleError :: "(go_error \<Rightarrow> Status option) \<Rightarrow> go_error \<Rightarrow> string" where
  "handleError FromError err =
     (case FromError err of
        Some s \<Rightarrow> ''RPCError, code = '' @ code_name (st_Code s) @ '', message = '' @ st_Message s @ [CHR 0x0A]
      | None \<Rightarrow> ''ERROR: '' @ err_text err @ [CHR 0x0A])"

section \<open>Start of a program\<close>

definition etcd_endpoints :: "string list" where
  "etcd_endpoints = [''127.0.0.1:2379'', ''127.0.0.1:2479'', ''127.0.0.1:2579'']"

text \<open>
  The end of \<open>init\<close>: \<open>newRegistry\<close> is \<open>NewRegistry\<close> with the client. Before it, a program
  declares its flags with their defaults, which \<open>flag_Parse\<close> overrides from the command line.
\<close>

definition init_registry :: "(string list \<Rightarrow> go_error + 'c) \<Rightarrow> ('c \<Rightarrow> watcher go) \<Rightarrow> watcher go" where
  "init_registry clientv3_New newRegistry =
     go_bind (mustReturn (clientv3_New etcd_endpoints)) (\<lambda>client. mustGo (newRegistry client))"

definition default_nats :: string where
  "default_nats = ''nats://127.0.0.1:4222,nats://127.0.0.1:5222,nats://127.0.0.1:6222''"

definition newNatsBus :: "(string \<Rightarrow> go_error option) \<Rightarrow> string \<Rightarrow> (natsMQ Bus \<times> natsMQ mc_Bus) go" where
  "newNatsBus nats_Connect natsURL =
     go_bind (mustDo (nats_Connect natsURL)) (\<lambda>_. Ok (ev_NewNatsBus [], mc_NewNatsBus []))"

text \<open>The end of \<open>main\<close>: the actions of the node, or the panic with its error.\<close>

definition must_Serve :: "put_env \<Rightarrow> nat list \<Rightarrow> string list \<Rightarrow> 's Node \<Rightarrow> ('s Node \<times> node_action list) go" where
  "must_Serve env schedule visit node =
     (case Serve env schedule visit node of (node', acts, err) \<Rightarrow> go_bind (mustDo err) (\<lambda>_. Ok (node', acts)))"

text \<open>How a client program ends: it exits with a message, waits forever, or returns.\<close>

datatype client_end = ClientExit string | ClientWaits | ClientReturns

section \<open>Numbers as text\<close>

text \<open>The value of a number's digits, the least significant one first.\<close>

definition digits_value :: "string \<Rightarrow> nat" where
  "digits_value ds = foldr (\<lambda>c v. (of_char c - 48) + 10 * v) ds 0"

lemma digits_rev_value: "n < fuel \<Longrightarrow> digits_value (digits_rev fuel n) = n"
proof (induction fuel arbitrary: n)
  case (Suc fuel)
  have c: "of_char (char_of (48 + d) :: char) - (48 :: nat) = d" if "d < 10" for d :: nat
    using that by simp
  show ?case
  proof (cases "n < 10")
    case True
    then show ?thesis using c by (simp add: digits_value_def)
  next
    case False
    then have "n div 10 < fuel" using Suc.prems by simp
    then have "digits_value (digits_rev fuel (n div 10)) = n div 10" by (rule Suc.IH)
    then show ?thesis using False c [of "n mod 10"] by (simp add: digits_value_def)
  qed
qed simp

lemma digits_rev_no_minus: "CHR ''-'' \<notin> set (digits_rev fuel n)"
proof (induction fuel arbitrary: n)
  case (Suc fuel)
  have "char_of (48 + d) \<noteq> CHR ''-''" if "d < 10" for d :: nat
  proof
    assume "char_of (48 + d) = CHR ''-''"
    then have "of_char (char_of (48 + d) :: char) = (45 :: nat)" by simp
    with that show False by simp
  qed
  from this [of n] this [of "n mod 10"] show ?case using Suc.IH [of "n div 10"] by (auto dest: sym)
qed simp

definition digits :: "nat \<Rightarrow> string" where
  "digits n = rev (digits_rev (Suc n) n)"

lemma itoa_digits: "itoa k = (if k < 0 then CHR ''-'' # digits (nat (- k)) else digits (nat k))"
  unfolding itoa_def digits_def ..

lemma digits_inj: "digits m = digits n \<Longrightarrow> m = n"
  using digits_rev_value [of m "Suc m"] digits_rev_value [of n "Suc n"]
  unfolding digits_def rev_is_rev_conv by (metis lessI)

lemma digits_no_minus: "CHR ''-'' # xs \<noteq> digits n"
proof
  assume "CHR ''-'' # xs = digits n"
  then have "CHR ''-'' \<in> set (digits n)" by (metis list.set_intros(1))
  then show False unfolding digits_def set_rev using digits_rev_no_minus by blast
qed

lemma itoa_inj:
  assumes "itoa i = itoa j"
  shows "i = j"
proof (cases "i < 0")
  case neg: True
  then have "CHR ''-'' # digits (nat (- i)) = itoa j" using assms by (simp add: itoa_digits)
  then have "j < 0" "digits (nat (- i)) = digits (nat (- j))"
    using digits_no_minus [of _ "nat j"] by (simp_all add: itoa_digits split: if_splits)
  then show ?thesis using neg digits_inj [of "nat (- i)" "nat (- j)"] by simp
next
  case nonneg: False
  then have "digits (nat i) = itoa j" using assms by (simp add: itoa_digits)
  then have "\<not> j < 0" "digits (nat i) = digits (nat j)"
    using digits_no_minus [of "digits (nat (- j))" "nat i"] by (auto simp: itoa_digits split: if_splits)
  then show ?thesis using nonneg digits_inj [of "nat i" "nat j"] by simp
qed

lemma itoa_not_empty: "itoa i \<noteq> []"
proof -
  have "digits n \<noteq> []" for n by (simp add: digits_def)
  then show ?thesis by (simp add: itoa_digits)
qed

end
