(* ===== verification/Example_Chat.thy ===== *)
theory Example_Chat
  imports Example_Base
begin

text \<open>
  The chat room built on the framework (\<open>src/example/chat\<close>): the room service with its table
  of members, the room node that feeds it cluster events, the gateway node that numbers its
  users, and the command line client. Whom the room's news reach is followed through the
  multicast bus into the sessions of a gateway.

  The room publishes through the interface \<open>multicast.Publisher\<close>: an operation takes
  \<open>publish\<close>, which hands a message over and answers with an error or none, and the room
  holds the publisher's state. \<open>marshal\<close> is \<open>proto.Marshal\<close> for news, \<open>now\<close> the clock and
  \<open>visit\<close> the order in which the members are ranged over.
\<close>

section \<open>Messages\<close>

record JoinRequest =
  jr_Name :: string

record SayRequest =
  sr_To :: string
  sr_Content :: string

record News =
  nw_FromId :: string
  nw_FromName :: string
  nw_Content :: string

definition ReplyCode_NEWS :: int where "ReplyCode_NEWS = 1"
definition Services_ROOM :: int where "Services_ROOM = 1"

text \<open>News of the room itself have no sender.\<close>

definition room_news :: "string \<Rightarrow> News" where
  "room_news content = \<lparr>nw_FromId = [], nw_FromName = [], nw_Content = content\<rparr>"

section \<open>The room service\<close>

record 'p roomService =
  rs_publisher :: 'p
  rs_members :: "string \<rightharpoonup> string"

text \<open>
  The error of \<open>NewReply\<close> is dropped, so news that cannot be encoded dereference a nil reply;
  the error of \<open>Publish\<close> is only logged.
\<close>

definition news_reply :: "(News \<Rightarrow> go_error + byte list) \<Rightarrow> News \<Rightarrow> Reply go" where
  "news_reply marshal news =
     (case NewReply marshal ReplyCode_NEWS news of
        Inl _ \<Rightarrow> Panic ''nil pointer dereference''
      | Inr response \<Rightarrow> Ok (response\<lparr>rep_ServiceCode := Services_ROOM\<rparr>))"

definition room_boardcast ::
  "(News \<Rightarrow> go_error + byte list) \<Rightarrow> (Multicast \<Rightarrow> 'p \<Rightarrow> 'p \<times> go_error option) \<Rightarrow> int \<Rightarrow> string list \<Rightarrow> News \<Rightarrow>
   'p roomService \<Rightarrow> 'p roomService go" where
  "room_boardcast marshal publish now visit news rs =
     go_bind (news_reply marshal news) (\<lambda>response.
       let receiver = map_range (\<lambda>i name acc. (acc @ [i], True)) visit (rs_members rs) [];
           notify = NewMulticast now receiver response
       in Ok (rs\<lparr>rs_publisher := fst (publish notify (rs_publisher rs))\<rparr>))"

definition room_unicast ::
  "(News \<Rightarrow> go_error + byte list) \<Rightarrow> (Multicast \<Rightarrow> 'p \<Rightarrow> 'p \<times> go_error option) \<Rightarrow> int \<Rightarrow> string list \<Rightarrow> string \<Rightarrow> News \<Rightarrow>
   'p roomService \<Rightarrow> 'p roomService go" where
  "room_unicast marshal publish now visit toName news rs =
     go_bind (news_reply marshal news) (\<lambda>response.
       Ok (rs\<lparr>rs_publisher := map_range (\<lambda>i name p.
         if name = toName then (fst (publish (NewMulticast now [i] response) p), False) else (p, True))
           visit (rs_members rs) (rs_publisher rs)\<rparr>))"

definition display_name :: "string \<Rightarrow> JoinRequest \<Rightarrow> string" where
  "display_name userID req = (if jr_Name req = [] then ''anonymous'' @ userID else jr_Name req)"

definition room_Join ::
  "(News \<Rightarrow> go_error + byte list) \<Rightarrow> (Multicast \<Rightarrow> 'p \<Rightarrow> 'p \<times> go_error option) \<Rightarrow> int \<Rightarrow> string list \<Rightarrow> metadata \<Rightarrow>
   JoinRequest \<Rightarrow> 'p roomService \<Rightarrow> 'p roomService go" where
  "room_Join marshal publish now visit md req rs =
     go_bind (SessionIDInContext md) (\<lambda>userID.
       room_boardcast marshal publish now visit (room_news (''ROOM: #'' @ userID @ '' join''))
         (rs\<lparr>rs_members := (rs_members rs)(userID \<mapsto> display_name userID req)\<rparr>))"

definition room_Leave ::
  "(News \<Rightarrow> go_error + byte list) \<Rightarrow> (Multicast \<Rightarrow> 'p \<Rightarrow> 'p \<times> go_error option) \<Rightarrow> int \<Rightarrow> string list \<Rightarrow> metadata \<Rightarrow>
   'p roomService \<Rightarrow> 'p roomService go" where
  "room_Leave marshal publish now visit md rs =
     go_bind (SessionIDInContext md) (\<lambda>userID.
       case rs_members rs userID of
         None \<Rightarrow> Ok rs
       | Some _ \<Rightarrow>
           room_boardcast marshal publish now visit (room_news (''ROOM: #'' @ userID @ '' leave''))
             (rs\<lparr>rs_members := (rs_members rs)(userID := None)\<rparr>))"

definition room_Say ::
  "(News \<Rightarrow> go_error + byte list) \<Rightarrow> (Multicast \<Rightarrow> 'p \<Rightarrow> 'p \<times> go_error option) \<Rightarrow> int \<Rightarrow> string list \<Rightarrow> metadata \<Rightarrow>
   SayRequest \<Rightarrow> 'p roomService \<Rightarrow> 'p roomService go" where
  "room_Say marshal publish now visit md req rs =
     go_bind (SessionIDInContext md) (\<lambda>userID.
       case rs_members rs userID of
         None \<Rightarrow> Ok rs
       | Some name \<Rightarrow>
           let news = \<lparr>nw_FromId = userID, nw_FromName = name, nw_Content = sr_Content req\<rparr>
           in if sr_To req = [] then room_boardcast marshal publish now visit news rs
              else room_unicast marshal publish now visit (sr_To req) news rs)"

text \<open>The handlers that \<open>newGRPCServer\<close> subscribes to the event bus.\<close>

definition room_on_connected ::
  "(News \<Rightarrow> go_error + byte list) \<Rightarrow> (Multicast \<Rightarrow> 'p \<Rightarrow> 'p \<times> go_error option) \<Rightarrow> int \<Rightarrow> string list \<Rightarrow> UserConnected \<Rightarrow>
   'p roomService \<Rightarrow> 'p roomService go" where
  "room_on_connected marshal publish now visit ev rs =
     room_boardcast marshal publish now visit (room_news (''EVENT: #'' @ uc_UserID ev @ '' connected'')) rs"

definition room_on_disconnected ::
  "(News \<Rightarrow> go_error + byte list) \<Rightarrow> (Multicast \<Rightarrow> 'p \<Rightarrow> 'p \<times> go_error option) \<Rightarrow> int \<Rightarrow> string list \<Rightarrow> UserDisconnected \<Rightarrow>
   'p roomService \<Rightarrow> 'p roomService go" where
  "room_on_disconnected marshal publish now visit ev rs =
     room_boardcast marshal publish now visit (room_news (''EVENT: #'' @ ud_UserID ev @ '' disconnected''))
       (rs\<lparr>rs_members := (rs_members rs)(ud_UserID ev := None)\<rparr>)"

section \<open>The room node\<close>

text \<open>
  \<open>newGRPCServer\<close>: the buses are made by \<open>newNatsBus\<close> over the connection of \<open>nats.Connect\<close>,
  the service with an empty table, and it is registered as public, stateful and allocated
  automatically.
\<close>

definition room_newService :: "'p \<Rightarrow> 'p roomService" where
  "room_newService publisher = \<lparr>rs_publisher = publisher, rs_members = Map.empty\<rparr>"

definition room_options :: "(GRPCServiceDesc \<Rightarrow> GRPCServiceDesc) list" where
  "room_options = [rpc_WithPublic, rpc_WithStateful, rpc_WithAllocation AutoAllocate]"

definition connected_sig :: handler_sig where
  "connected_sig = \<lparr>hs_isFunc = True, hs_args = [Named ''UserConnected'', timeTime]\<rparr>"

definition disconnected_sig :: handler_sig where
  "disconnected_sig = \<lparr>hs_isFunc = True, hs_args = [Named ''UserDisconnected'', timeTime]\<rparr>"

definition room_newGRPCServer ::
  "(string \<Rightarrow> go_error option) \<Rightarrow> string \<Rightarrow> string \<Rightarrow> 'p \<Rightarrow> (GRPCServer \<times> natsMQ mc_Bus \<times> 'p roomService) go" where
  "room_newGRPCServer nats_Connect natsURL listenAddr publisher =
     go_bind (newNatsBus nats_Connect natsURL) (\<lambda>(evBus, muBus).
     go_bind initEvents (\<lambda>et.
     go_bind (checkHandler et connected_sig) (\<lambda>_.
     go_bind (checkHandler et disconnected_sig) (\<lambda>_.
       case RegisterService Services_ROOM ''room.Room'' room_options (NewGRPCServer listenAddr) of
         (server, Some err) \<Rightarrow> Error err
       | (server, None) \<Rightarrow> Ok (server, muBus, room_newService publisher)))))"

text \<open>\<open>init\<close> and \<open>main\<close> of the room: a node with the server as its only component.\<close>

record room_flags =
  rf_listenAddr :: string
  rf_natsURL :: string

definition room_init ::
  "(room_flags \<Rightarrow> room_flags) \<Rightarrow> (string list \<Rightarrow> go_error + 'c) \<Rightarrow> ('c \<Rightarrow> watcher go) \<Rightarrow> (room_flags \<times> watcher) go" where
  "room_init flag_Parse clientv3_New newRegistry =
     (let flags = flag_Parse \<lparr>rf_listenAddr = ''127.0.0.1:9100'', rf_natsURL = default_nats\<rparr>
      in go_bind (init_registry clientv3_New newRegistry) (\<lambda>registry. Ok (flags, registry)))"

definition room_main ::
  "gw_deps \<Rightarrow> (string \<Rightarrow> go_error option) \<Rightarrow> room_flags \<Rightarrow> 'p \<Rightarrow> ulid \<Rightarrow> Registry \<Rightarrow> put_env \<Rightarrow> nat list \<Rightarrow> string list \<Rightarrow>
   (gw_comp Node \<times> node_action list) go" where
  "room_main d nats_Connect flags publisher nodeID registry env schedule visit =
     go_bind (mustGo (room_newGRPCServer nats_Connect (rf_natsURL flags) (rf_listenAddr flags) publisher))
       (\<lambda>(server, muBus, service).
       must_Serve env schedule visit
         (AddComponent [rpc_component d server] (NewNode nodeID ''room'' registry [])))"

section \<open>The gateway\<close>

text \<open>
  The initializer numbers the connections of this process with a 32-bit counter; it accepts
  everyone.
\<close>

definition chat_initializer :: "32 word \<Rightarrow> 32 word \<times> (go_error + string \<times> metadata option)" where
  "chat_initializer uid = (let uid' = uid + 1 in (uid', Inr (itoa (sint uid'), Some Map.empty)))"

datatype chat_transporter = ChatTCP tcpServer | ChatWS wsServer

definition chat_transporter_of :: "bool \<Rightarrow> string \<Rightarrow> chat_transporter" where
  "chat_transporter_of useTCP proxyListen =
     (if useTCP then ChatTCP (NewTCPServer proxyListen) else ChatWS (NewWSServer proxyListen []))"

definition chat_complete :: "(string \<Rightarrow> string \<Rightarrow> string) \<Rightarrow> chat_transporter \<Rightarrow> NodeEntry \<Rightarrow> NodeEntry" where
  "chat_complete url_String tr =
     (case tr of ChatTCP ts \<Rightarrow> tcp_CompleteNodeEntry ts | ChatWS ws \<Rightarrow> ws_CompleteNodeEntry url_String ws)"

definition chat_config :: "string \<Rightarrow> GatewayConfig" where
  "chat_config grpcListen = \<lparr>gc_NodeOptions = [],
     gc_Options = [WithTransporter, WithRequestLogger, WithEventBus, WithMulticast, WithInitializer],
     gc_GRPCListen = grpcListen, gc_GRPCEndpoint = [], gc_GRPCListener = None, gc_MetricsListen = []\<rparr>"

record chat_flags =
  cf_proxyListen :: string
  cf_grpcListen :: string
  cf_natsURL :: string
  cf_useTCP :: bool

definition chat_gateway_init ::
  "(chat_flags \<Rightarrow> chat_flags) \<Rightarrow> (string list \<Rightarrow> go_error + 'c) \<Rightarrow> ('c \<Rightarrow> watcher go) \<Rightarrow> (chat_flags \<times> watcher) go" where
  "chat_gateway_init flag_Parse clientv3_New newRegistry =
     (let flags = flag_Parse \<lparr>cf_proxyListen = ''127.0.0.1:9000'', cf_grpcListen = ''127.0.0.1:10000'',
                    cf_natsURL = default_nats, cf_useTCP = False\<rparr>
      in go_bind (init_registry clientv3_New newRegistry) (\<lambda>registry. Ok (flags, registry)))"

definition chat_gateway_main ::
  "gw_deps \<Rightarrow> (string \<Rightarrow> string \<Rightarrow> string) \<Rightarrow> (string \<Rightarrow> go_error option) \<Rightarrow> chat_flags \<Rightarrow> ulid \<Rightarrow> Registry \<Rightarrow>
   put_env \<Rightarrow> nat list \<Rightarrow> string list \<Rightarrow> (gw_comp Node \<times> node_action list) go" where
  "chat_gateway_main d url_String nats_Connect flags nodeID registry env schedule visit =
     (let tr = chat_transporter_of (cf_useTCP flags) (cf_proxyListen flags) in
      go_bind (newNatsBus nats_Connect (cf_natsURL flags)) (\<lambda>(evBus, muBus).
      go_bind (NewGatewayNode (d\<lparr>gd_complete := chat_complete url_String tr\<rparr>) nodeID registry
                 (chat_config (cf_grpcListen flags)))
        (must_Serve env schedule visit)))"

section \<open>The client\<close>

record chat_client_flags =
  cc_serverAddr :: string
  cc_name :: string
  cc_say :: string
  cc_useTCP :: bool

definition chat_client_init :: "(chat_client_flags \<Rightarrow> chat_client_flags) \<Rightarrow> chat_client_flags" where
  "chat_client_init flag_Parse =
     flag_Parse \<lparr>cc_serverAddr = ''127.0.0.1:9000'', cc_name = [], cc_say = [], cc_useTCP = False\<rparr>"

definition chat_connect :: "(string \<Rightarrow> go_error + 'c Client) \<Rightarrow> chat_client_flags \<Rightarrow> 'c Client go" where
  "chat_connect client_New flags =
     (if cc_useTCP flags then mustReturn (client_New (''tcp://'' @ cc_serverAddr flags))
      else mustReturn (client_New (''ws://'' @ cc_serverAddr flags)))"

text \<open>The line that is printed for news.\<close>

definition chat_print :: "News \<Rightarrow> string" where
  "chat_print news =
     (if nw_FromId news = [] then ''>>> '' @ nw_Content news @ [CHR 0x0A]
      else nw_FromName news @ '': '' @ nw_Content news @ [CHR 0x0A])"

text \<open>
  The subscription: of the replies that reach the client's subscribers, it prints the news of
  the room, in order. It runs in a goroutine of its own until \<open>main\<close> ends.
\<close>

definition chat_subscription :: "(byte list \<Rightarrow> go_error + News) \<Rightarrow> Reply list \<Rightarrow> string list go" where
  "chat_subscription unmarshal replies =
     go_bind (cli_Subscribe unmarshal Services_ROOM ReplyCode_NEWS replies) (\<lambda>ms. Ok (map (\<lambda>(news, reply). chat_print news) ms))"

text \<open>
  \<open>main\<close> after connecting: it joins; without words to say it waits forever; otherwise it
  speaks, and the deferred functions leave the room and close the connection. \<open>os.Exit\<close> runs
  no deferred function. The messages of the three calls are one sum for their encoder.
\<close>

datatype chat_input = InJoin JoinRequest | InSay SayRequest | InLeave

definition chat_call ::
  "(chat_input \<Rightarrow> go_error + byte list) \<Rightarrow> (Request \<Rightarrow> go_error + byte list) \<Rightarrow>
   (int \<Rightarrow> byte list \<Rightarrow> 'c \<Rightarrow> 'c \<times> go_error option) \<Rightarrow> string \<Rightarrow> chat_input \<Rightarrow> 'c Client \<Rightarrow>
   'c Client \<times> (go_error + unit option)" where
  "chat_call marshalIn marshalReq send meth input cli =
     CallNoReply marshalIn marshalReq send (\<lambda>_. Inl EOF) (\<lambda>_. Inr ()) (\<lambda>cli. cli) CtxCanceled Services_ROOM meth input [] cli"

definition chat_main ::
  "(chat_input \<Rightarrow> go_error + byte list) \<Rightarrow> (Request \<Rightarrow> go_error + byte list) \<Rightarrow>
   (int \<Rightarrow> byte list \<Rightarrow> 'c \<Rightarrow> 'c \<times> go_error option) \<Rightarrow> ('c \<Rightarrow> 'c go) \<Rightarrow> (go_error \<Rightarrow> Status option) \<Rightarrow> string \<Rightarrow> string \<Rightarrow>
   'c Client \<Rightarrow> ('c Client \<times> client_end) go" where
  "chat_main marshalIn marshalReq send conn_Close FromError name say cli =
     (case chat_call marshalIn marshalReq send ''Join'' (InJoin \<lparr>jr_Name = name\<rparr>) cli of
        (cli1, Inl err) \<Rightarrow> Ok (cli1, ClientExit (handleError FromError err))
      | (cli1, Inr _) \<Rightarrow>
          if say = [] then Ok (cli1, ClientWaits)
          else (case chat_call marshalIn marshalReq send ''Say'' (InSay \<lparr>sr_To = [], sr_Content = say\<rparr>) cli1 of
             (cli2, Inl err) \<Rightarrow> Ok (cli2, ClientExit (handleError FromError err))
           | (cli2, Inr _) \<Rightarrow>
               go_bind (cli_Close conn_Close (fst (chat_call marshalIn marshalReq send ''Leave'' InLeave cli2)))
                 (\<lambda>cli3. Ok (cli3, ClientReturns))))"

section \<open>The publisher\<close>

text \<open>
  What the room relies on: \<open>sent p\<close> are the messages that were accepted. A message is
  accepted as a whole or refused, and one without receivers is refused.
\<close>

locale publisher =
  fixes publish :: "Multicast \<Rightarrow> 'p \<Rightarrow> 'p \<times> go_error option" and sent :: "'p \<Rightarrow> Multicast list"
  assumes publish_ok: "snd (publish m p) = None \<Longrightarrow> sent (fst (publish m p)) = sent p @ [m]"
    and publish_err: "snd (publish m p) = Some e \<Longrightarrow> sent (fst (publish m p)) = sent p"
    and publish_receiver: "snd (publish m p) = None \<Longrightarrow> mc_Receiver m \<noteq> [] \<or> mc_ToEveryone m"
begin

lemma publish_cases: "sent (fst (publish m p)) = sent p \<or> sent (fst (publish m p)) = sent p @ [m]"
  using publish_ok [of m p] publish_err [of m p] by (cases "snd (publish m p)") auto

lemma publish_nobody: "mc_Receiver m = [] \<Longrightarrow> \<not> mc_ToEveryone m \<Longrightarrow> sent (fst (publish m p)) = sent p"
  using publish_receiver [of m p] publish_err [of m p] by (cases "snd (publish m p)") auto

end

text \<open>The multicast bus as a publisher; its state is the list of the messages the broker took.\<close>

definition bus_publisher ::
  "(multicast_msg \<Rightarrow> go_error + byte list) \<Rightarrow> (byte list \<Rightarrow> go_error option) \<Rightarrow> int \<Rightarrow> Multicast \<Rightarrow>
   (multicast_msg \<times> byte list) list \<Rightarrow> (multicast_msg \<times> byte list) list \<times> go_error option" where
  "bus_publisher marshalM queue now m taken =
     (case mc_Publish marshalM queue now \<lparr>mm_msg = m, mm_time = Some (mc_Time m)\<rparr> of
        (m', Ok data) \<Rightarrow> (taken @ [(m', data)], None)
      | (m', Error err) \<Rightarrow> (taken, Some err)
      | (m', Panic p) \<Rightarrow> (taken, Some (ErrNew p)))"

lemma mc_Publish_not_Panic: "mc_Publish marshalM queue now m \<noteq> (m', Panic p)"
  by (simp add: mc_Publish_def Let_def split: sum.splits option.splits)

lemma mc_Publish_Ok:
  assumes "mc_Publish marshalM queue now \<lparr>mm_msg = m, mm_time = Some t\<rparr> = (m', Ok data)"
  shows "m' = \<lparr>mm_msg = m, mm_time = Some t\<rparr>" and "marshalM m' = Inr data" and "queue data = None"
    and "mc_Receiver m \<noteq> [] \<or> mc_ToEveryone m"
  using assms by (auto simp: mc_Publish_def Let_def split: if_splits sum.splits option.splits)

interpretation chat_bus: publisher "bus_publisher marshalM queue now" "map (\<lambda>x. mm_msg (fst x))"
  by unfold_locales
    (auto simp: bus_publisher_def dest: mc_Publish_Ok(1,4) split: prod.splits go.splits)

section \<open>Calls of the room, step by step\<close>

text \<open>
  Handlers of the room run concurrently; what they share is the table of members, whose
  operations are atomic. A call changes the table and may leave news to be told, to everyone
  or to a name; telling them ranges over the table at some later moment. The look-up and the
  deletion of \<open>Leave\<close> are one step here, and a range sees the table as it is at one moment.
\<close>

datatype room_op =
    OpJoin metadata JoinRequest
  | OpLeave metadata
  | OpSay metadata SayRequest
  | OpConnected UserConnected
  | OpDisconnected UserDisconnected

fun room_call ::
  "(News \<Rightarrow> go_error + byte list) \<Rightarrow> (Multicast \<Rightarrow> 'p \<Rightarrow> 'p \<times> go_error option) \<Rightarrow> int \<Rightarrow> string list \<Rightarrow> room_op \<Rightarrow>
   'p roomService \<Rightarrow> 'p roomService go" where
  "room_call marshal publish now visit (OpJoin md req) rs = room_Join marshal publish now visit md req rs"
| "room_call marshal publish now visit (OpLeave md) rs = room_Leave marshal publish now visit md rs"
| "room_call marshal publish now visit (OpSay md req) rs = room_Say marshal publish now visit md req rs"
| "room_call marshal publish now visit (OpConnected ev) rs = room_on_connected marshal publish now visit ev rs"
| "room_call marshal publish now visit (OpDisconnected ev) rs = room_on_disconnected marshal publish now visit ev rs"

type_synonym members = "string \<rightharpoonup> string"

fun op_user :: "room_op \<Rightarrow> string go" where
  "op_user (OpJoin md req) = SessionIDInContext md"
| "op_user (OpLeave md) = SessionIDInContext md"
| "op_user (OpSay md req) = SessionIDInContext md"
| "op_user (OpConnected ev) = Ok (uc_UserID ev)"
| "op_user (OpDisconnected ev) = Ok (ud_UserID ev)"

fun op_members :: "string \<Rightarrow> room_op \<Rightarrow> members \<Rightarrow> members" where
  "op_members u (OpJoin md req) ms = ms(u \<mapsto> display_name u req)"
| "op_members u (OpLeave md) ms = ms(u := None)"
| "op_members u (OpDisconnected ev) ms = ms(u := None)"
| "op_members u _ ms = ms"

fun op_news :: "string \<Rightarrow> room_op \<Rightarrow> members \<Rightarrow> (News \<times> string) option" where
  "op_news u (OpJoin md req) ms = Some (room_news (''ROOM: #'' @ u @ '' join''), [])"
| "op_news u (OpLeave md) ms = map_option (\<lambda>_. (room_news (''ROOM: #'' @ u @ '' leave''), [])) (ms u)"
| "op_news u (OpSay md req) ms =
     map_option (\<lambda>name. (\<lparr>nw_FromId = u, nw_FromName = name, nw_Content = sr_Content req\<rparr>, sr_To req)) (ms u)"
| "op_news u (OpConnected ev) ms = Some (room_news (''EVENT: #'' @ u @ '' connected''), [])"
| "op_news u (OpDisconnected ev) ms = Some (room_news (''EVENT: #'' @ u @ '' disconnected''), [])"

definition room_tell ::
  "(News \<Rightarrow> go_error + byte list) \<Rightarrow> (Multicast \<Rightarrow> 'p \<Rightarrow> 'p \<times> go_error option) \<Rightarrow> int \<Rightarrow> string list \<Rightarrow> News \<times> string \<Rightarrow>
   'p roomService \<Rightarrow> 'p roomService go" where
  "room_tell marshal publish now visit item rs =
     (if snd item = [] then room_boardcast marshal publish now visit (fst item) rs
      else room_unicast marshal publish now visit (snd item) (fst item) rs)"

text \<open>A call that nobody interrupts is its two steps.\<close>

lemma room_call_steps:
  "room_call marshal publish now visit op rs =
     go_bind (op_user op) (\<lambda>u.
       let rs' = rs\<lparr>rs_members := op_members u op (rs_members rs)\<rparr>
       in case op_news u op (rs_members rs) of
            None \<Rightarrow> Ok rs' | Some item \<Rightarrow> room_tell marshal publish now visit item rs')"
proof (cases op)
  case (OpSay md req)
  then show ?thesis
    by (cases "SessionIDInContext md")
      (auto simp: room_Say_def room_tell_def Let_def split: option.splits)
next
  case (OpLeave md)
  have "(rs_members rs)(u := None) = rs_members rs" if "rs_members rs u = None" for u
    using that by auto
  then show ?thesis
    using OpLeave by (cases "SessionIDInContext md") (auto simp: room_Leave_def room_tell_def split: option.splits)
qed (simp_all add: room_Join_def room_on_connected_def room_on_disconnected_def room_tell_def)

inductive room_reach ::
  "(News \<Rightarrow> go_error + byte list) \<Rightarrow> (Multicast \<Rightarrow> 'p \<Rightarrow> 'p \<times> go_error option) \<Rightarrow> 'p \<Rightarrow> room_op list \<Rightarrow>
   'p roomService \<Rightarrow> (News \<times> string) list \<Rightarrow> bool"
  for marshal publish p0 where
  room_start: "room_reach marshal publish p0 [] (room_newService p0) []"
| room_calls: "room_reach marshal publish p0 ops rs pend \<Longrightarrow> op_user op = Ok u \<Longrightarrow>
    room_reach marshal publish p0 (ops @ [op]) (rs\<lparr>rs_members := op_members u op (rs_members rs)\<rparr>)
      (pend @ (case op_news u op (rs_members rs) of None \<Rightarrow> [] | Some item \<Rightarrow> [item]))"
| room_tells: "room_reach marshal publish p0 ops rs (xs @ item # ys) \<Longrightarrow> enumerates visit (rs_members rs) \<Longrightarrow>
    room_tell marshal publish now visit item rs = Ok rs' \<Longrightarrow> room_reach marshal publish p0 ops rs' (xs @ ys)"

text \<open>A call followed by its news is such a sequence of steps.\<close>

lemma room_reach_call:
  assumes "room_reach marshal publish p0 ops rs pend" and "room_call marshal publish now visit op rs = Ok rs'"
    and "\<And>u. op_user op = Ok u \<Longrightarrow> enumerates visit (op_members u op (rs_members rs))"
  shows "room_reach marshal publish p0 (ops @ [op]) rs' pend"
proof -
  obtain u where u: "op_user op = Ok u" using assms(2) by (cases "op_user op") (simp_all add: room_call_steps)
  note run = room_calls [OF assms(1) u]
  show ?thesis
  proof (cases "op_news u op (rs_members rs)")
    case None
    then show ?thesis using run assms(2) u by (simp add: room_call_steps)
  next
    case (Some item)
    then have "room_reach marshal publish p0 (ops @ [op]) (rs\<lparr>rs_members := op_members u op (rs_members rs)\<rparr>)
        (pend @ item # [])" using run by simp
    then have "room_reach marshal publish p0 (ops @ [op]) rs' (pend @ [])"
      by (rule room_tells [where visit = visit]) (use Some assms(2,3) u in \<open>simp_all add: room_call_steps\<close>)
    then show ?thesis by simp
  qed
qed

text \<open>
  The runs of the room: some calls are handled without interruption, by the handlers as they
  are written, others in two steps with other calls in between.
\<close>

inductive room_run ::
  "(News \<Rightarrow> go_error + byte list) \<Rightarrow> (Multicast \<Rightarrow> 'p \<Rightarrow> 'p \<times> go_error option) \<Rightarrow> 'p \<Rightarrow> room_op list \<Rightarrow>
   'p roomService \<Rightarrow> (News \<times> string) list \<Rightarrow> bool"
  for marshal publish p0 where
  run_start: "room_run marshal publish p0 [] (room_newService p0) []"
| run_whole: "room_run marshal publish p0 ops rs pend \<Longrightarrow> room_call marshal publish now visit op rs = Ok rs' \<Longrightarrow>
    enumerates visit (rs_members rs') \<Longrightarrow> room_run marshal publish p0 (ops @ [op]) rs' pend"
| run_calls: "room_run marshal publish p0 ops rs pend \<Longrightarrow> op_user op = Ok u \<Longrightarrow>
    room_run marshal publish p0 (ops @ [op]) (rs\<lparr>rs_members := op_members u op (rs_members rs)\<rparr>)
      (pend @ (case op_news u op (rs_members rs) of None \<Rightarrow> [] | Some item \<Rightarrow> [item]))"
| run_tells: "room_run marshal publish p0 ops rs (xs @ item # ys) \<Longrightarrow> enumerates visit (rs_members rs) \<Longrightarrow>
    room_tell marshal publish now visit item rs = Ok rs' \<Longrightarrow> room_run marshal publish p0 ops rs' (xs @ ys)"

section \<open>Who is in the room and what they are told\<close>

definition members_after :: "room_op list \<Rightarrow> members" where
  "members_after ops =
     fold (\<lambda>op ms. case op_user op of Ok u \<Rightarrow> op_members u op ms | _ \<Rightarrow> ms) ops Map.empty"

text \<open>The calls that put a user into the room or take the user out.\<close>

fun moves :: "string \<Rightarrow> room_op \<Rightarrow> bool" where
  "moves u (OpSay md req) = False"
| "moves u (OpConnected ev) = False"
| "moves u op = (op_user op = Ok u)"

lemma members_after_snoc:
  "op_user op = Ok u \<Longrightarrow> members_after (ops @ [op]) = op_members u op (members_after ops)"
  by (simp add: members_after_def)

lemma room_tell_members: "room_tell marshal publish now visit item rs = Ok rs' \<Longrightarrow> rs_members rs' = rs_members rs"
  by (auto simp: room_tell_def room_boardcast_def room_unicast_def go_bind_Ok_iff Let_def split: if_splits)

lemma room_call_members:
  "room_call marshal publish now visit op rs = Ok rs' \<Longrightarrow> op_user op = Ok u \<Longrightarrow> rs_members rs' = op_members u op (rs_members rs)"
  by (auto simp: room_call_steps Let_def dest: room_tell_members split: option.splits)

lemma room_run_reach: "room_run marshal publish p0 ops rs pend \<Longrightarrow> room_reach marshal publish p0 ops rs pend"
proof (induction rule: room_run.induct)
  case (run_whole ops rs pend now visit op rs')
  then show ?case using room_call_members [OF run_whole(2)] by (intro room_reach_call) auto
qed (auto intro: room_start room_calls room_tells)

lemma room_members: "room_reach marshal publish p0 ops rs pend \<Longrightarrow> rs_members rs = members_after ops"
proof (induction rule: room_reach.induct)
  case (room_calls ops rs pend op u)
  then show ?case by (simp add: members_after_snoc)
next
  case (room_tells ops rs xs item ys visit now rs')
  then show ?case by (simp add: room_tell_members)
qed (simp add: room_newService_def members_after_def)

lemma room_ops_users: "room_reach marshal publish p0 ops rs pend \<Longrightarrow> op \<in> set ops \<Longrightarrow> \<exists>u. op_user op = Ok u"
  by (induction arbitrary: op rule: room_reach.induct) auto

lemma op_members_other: "\<not> moves v op \<Longrightarrow> op_user op = Ok u \<Longrightarrow> op_members u op ms v = ms v"
  by (cases op) auto

lemma op_members_moved:
  "moves v op \<Longrightarrow> op_user op = Ok u \<Longrightarrow>
   op_members u op ms v = (case op of OpJoin md req \<Rightarrow> Some (display_name v req) | _ \<Rightarrow> None)"
  by (cases op) auto

text \<open>The last call that moved a user decides.\<close>

definition last_join :: "string \<Rightarrow> string \<Rightarrow> room_op list \<Rightarrow> bool" where
  "last_join u n ops \<longleftrightarrow> (\<exists>pre md req post. ops = pre @ OpJoin md req # post \<and> SessionIDInContext md = Ok u \<and>
     n = display_name u req \<and> (\<forall>op \<in> set post. \<not> moves u op))"

lemma last_join_snoc:
  "last_join u n (ops @ [op]) \<longleftrightarrow>
     (if moves u op then (\<exists>md req. op = OpJoin md req \<and> n = display_name u req) else last_join u n ops)"
proof
  assume "last_join u n (ops @ [op])"
  then obtain pre md req post where l: "ops @ [op] = pre @ OpJoin md req # post" "SessionIDInContext md = Ok u"
    "n = display_name u req" "\<forall>op \<in> set post. \<not> moves u op" unfolding last_join_def by blast
  show "if moves u op then (\<exists>md req. op = OpJoin md req \<and> n = display_name u req) else last_join u n ops"
  proof (cases post rule: rev_cases)
    case Nil
    then show ?thesis using l by auto
  next
    case (snoc post' x)
    then have "ops = pre @ OpJoin md req # post'" "x = op" using l(1) by simp_all
    then show ?thesis using l snoc unfolding last_join_def by auto
  qed
next
  assume r: "if moves u op then (\<exists>md req. op = OpJoin md req \<and> n = display_name u req) else last_join u n ops"
  show "last_join u n (ops @ [op])"
  proof (cases "moves u op")
    case True
    then obtain md req where "op = OpJoin md req" "n = display_name u req" using r by auto
    then show ?thesis using True unfolding last_join_def by (intro exI [of _ ops] exI [of _ md] exI [of _ req] exI [of _ "[]"]) simp
  next
    case False
    then obtain pre md req post where l: "ops = pre @ OpJoin md req # post" "SessionIDInContext md = Ok u"
      "n = display_name u req" "\<forall>op \<in> set post. \<not> moves u op" using r unfolding last_join_def by auto
    then show ?thesis
      using False unfolding last_join_def
      by (intro exI [of _ pre] exI [of _ md] exI [of _ req] exI [of _ "post @ [op]"]) simp
  qed
qed

lemma members_after_iff:
  "(\<forall>op \<in> set ops. \<exists>u. op_user op = Ok u) \<Longrightarrow> members_after ops v = Some n \<longleftrightarrow> last_join v n ops"
proof (induction ops rule: rev_induct)
  case Nil
  then show ?case by (simp add: members_after_def last_join_def)
next
  case (snoc op ops)
  obtain u where u: "op_user op = Ok u" using snoc.prems by auto
  show ?case
  proof (cases "moves v op")
    case True
    then show ?thesis
      by (auto simp: last_join_snoc members_after_snoc [OF u] op_members_moved [OF True u] split: room_op.splits)
  next
    case False
    then show ?thesis
      using snoc by (simp add: last_join_snoc members_after_snoc [OF u] op_members_other [OF False u])
  qed
qed

text \<open>
  Where news come from: from the room itself, for everyone, or said by a member, whose
  name is the one the member had at that moment.
\<close>

definition said :: "room_op list \<Rightarrow> News \<times> string \<Rightarrow> bool" where
  "said ops item \<longleftrightarrow> nw_FromId (fst item) = [] \<and> nw_FromName (fst item) = [] \<and> snd item = [] \<or>
     (\<exists>pre md req post. ops = pre @ OpSay md req # post \<and> SessionIDInContext md = Ok (nw_FromId (fst item)) \<and>
        members_after pre (nw_FromId (fst item)) = Some (nw_FromName (fst item)) \<and>
        nw_Content (fst item) = sr_Content req \<and> snd item = sr_To req)"

text \<open>A message told to those who were members, or to one member with the given name.\<close>

definition told :: "(News \<Rightarrow> go_error + byte list) \<Rightarrow> room_op list \<Rightarrow> Multicast \<Rightarrow> bool" where
  "told marshal ops m \<longleftrightarrow> (\<exists>item pre post. said ops item \<and> ops = pre @ post \<and>
     news_reply marshal (fst item) = Ok (mc_Content m) \<and> \<not> mc_ToEveryone m \<and> mc_Receiver m \<noteq> [] \<and>
     (if snd item = [] then set (mc_Receiver m) = dom (members_after pre) \<and> distinct (mc_Receiver m)
      else (\<exists>u. mc_Receiver m = [u] \<and> members_after pre u = Some (snd item))))"

lemma said_more: "said ops item \<Longrightarrow> said (ops @ ops') item"
  unfolding said_def by (metis append.assoc append_Cons)

lemma told_now:
  assumes "said ops item" and "news_reply marshal (fst item) = Ok (mc_Content m)" and "\<not> mc_ToEveryone m"
    and "mc_Receiver m \<noteq> []"
    and "if snd item = [] then set (mc_Receiver m) = dom (members_after ops) \<and> distinct (mc_Receiver m)
       else (\<exists>u. mc_Receiver m = [u] \<and> members_after ops u = Some (snd item))"
  shows "told marshal ops m"
  unfolding told_def
proof (rule exI [of _ item], rule exI [of _ ops], rule exI [of _ "[]"])
qed (use assms in simp)

lemma told_more: "told marshal ops m \<Longrightarrow> told marshal (ops @ ops') m"
  unfolding told_def using said_more by (metis append.assoc)

lemma op_news_said:
  assumes "op_user op = Ok u" and "op_news u op (members_after ops) = Some item"
  shows "said (ops @ [op]) item"
proof (cases op)
  case (OpSay md req)
  then show ?thesis
    using assms unfolding said_def by (intro disjI2 exI [of _ ops] exI [of _ md] exI [of _ req] exI [of _ "[]"]) auto
qed (use assms in \<open>auto simp: said_def room_news_def\<close>)

lemma range_receivers:
  "map_range (\<lambda>i name acc. (acc @ [i], True)) visit ms acc = acc @ filter (\<lambda>u. u \<in> dom ms) visit"
  by (induction visit arbitrary: acc) (auto split: option.splits)

lemma set_map_filter_eq: "set (List.map_filter f xs) = {y. \<exists>x \<in> set xs. f x = Some y}"
  by (induction xs) (auto simp: List.map_filter_simps split: option.splits)

lemma range_first:
  "map_range (\<lambda>i name p. if name = n then (f i p, False) else (p, True)) visit ms p =
     (case List.find (\<lambda>u. ms u = Some n) visit of None \<Rightarrow> p | Some u \<Rightarrow> f u p)"
  by (induction visit) (auto split: option.splits)

text \<open>What telling does: at most one message, to those found in the table.\<close>

lemma room_tell_cases:
  assumes "room_tell marshal publish now visit item rs = Ok rs'" and "enumerates visit (rs_members rs)"
  obtains (nobody) "rs' = rs" "snd item \<noteq> []" "\<forall>u. rs_members rs u \<noteq> Some (snd item)"
  | (message) receiver response where
      "rs' = rs\<lparr>rs_publisher := fst (publish (NewMulticast now receiver response) (rs_publisher rs))\<rparr>"
      "news_reply marshal (fst item) = Ok response"
      "if snd item = [] then set receiver = dom (rs_members rs) \<and> distinct receiver
       else (\<exists>u. receiver = [u] \<and> rs_members rs u = Some (snd item))"
proof -
  obtain response where r: "news_reply marshal (fst item) = Ok response"
    using assms(1) by (auto simp: room_tell_def room_boardcast_def room_unicast_def go_bind_Ok_iff split: if_splits)
  show thesis
  proof (cases "snd item = []")
    case True
    have "set (filter (\<lambda>u. u \<in> dom (rs_members rs)) visit) = dom (rs_members rs)"
      using assms(2) by (auto simp: enumerates_def)
    then show thesis
      using True r assms by (intro message [of "filter (\<lambda>u. u \<in> dom (rs_members rs)) visit" response])
        (auto simp: room_tell_def room_boardcast_def range_receivers enumerates_def)
  next
    case False
    then have rs': "rs' = rs\<lparr>rs_publisher := (case List.find (\<lambda>u. rs_members rs u = Some (snd item)) visit of
        None \<Rightarrow> rs_publisher rs | Some u \<Rightarrow> fst (publish (NewMulticast now [u] response) (rs_publisher rs)))\<rparr>"
      using assms(1) r by (simp add: room_tell_def room_unicast_def range_first)
    show thesis
    proof (cases "List.find (\<lambda>u. rs_members rs u = Some (snd item)) visit")
      case None
      have "\<forall>u. rs_members rs u \<noteq> Some (snd item)"
        using None assms(2) by (auto simp: find_None_iff enumerates_def)
      then show thesis using nobody rs' None False by simp
    next
      case (Some u)
      then have "rs_members rs u = Some (snd item)" by (auto simp: find_Some_iff)
      then show thesis using message [of "[u]" response] rs' Some False r by simp
    qed
  qed
qed

context publisher
begin

lemma news_told:
  "room_reach marshal publish p0 ops rs pend \<Longrightarrow> sent p0 = [] \<Longrightarrow>
   (\<forall>item \<in> set pend. said ops item) \<and> (\<forall>m \<in> set (sent (rs_publisher rs)). told marshal ops m)"
proof (induction rule: room_reach.induct)
  case room_start
  then show ?case by (simp add: room_newService_def)
next
  case (room_calls ops rs pend op u)
  have "op_news u op (rs_members rs) = Some item \<Longrightarrow> said (ops @ [op]) item" for item
    using op_news_said [OF room_calls.hyps(2)] room_members [OF room_calls.hyps(1)] by simp
  then show ?case
    using room_calls said_more [of ops _ "[op]"] told_more [of marshal ops _ "[op]"] by (auto split: option.splits)
next
  case (room_tells ops rs xs item ys visit now rs')
  have ms: "rs_members rs = members_after ops" by (rule room_members [OF room_tells.hyps(1)])
  have "\<forall>m \<in> set (sent (rs_publisher rs')). told marshal ops m"
    using room_tells.hyps(3,2)
  proof (cases rule: room_tell_cases)
    case nobody
    then show ?thesis using room_tells by simp
  next
    case (message receiver response)
    let ?m = "NewMulticast now receiver response"
    have "told marshal ops ?m" if "receiver \<noteq> []"
      using message(2) message(3) [unfolded ms] that room_tells.IH room_tells.prems
      by (intro told_now [of ops item]) (simp_all add: NewMulticast_def split: if_splits)
    moreover have "sent (rs_publisher rs') = sent (rs_publisher rs)" if "receiver = []"
      using publish_nobody [of ?m] message(1) that by (simp add: NewMulticast_def)
    moreover have "sent (rs_publisher rs') = sent (rs_publisher rs) \<or>
        sent (rs_publisher rs') = sent (rs_publisher rs) @ [?m]"
      using publish_cases [of ?m] message(1) by simp
    ultimately show ?thesis using room_tells.IH room_tells.prems by (cases "receiver = []") auto
  qed
  then show ?case using room_tells by auto
qed

end

section \<open>Properties of the room\<close>

definition demo_user :: "string \<Rightarrow> metadata" where
  "demo_user u = [MDSessID \<mapsto> [u]]"

definition demo_marshal :: "News \<Rightarrow> go_error + byte list" where
  "demo_marshal news = Inr [of_nat (length (nw_Content news))]"

definition demo_publish ::
  "Multicast \<Rightarrow> (multicast_msg \<times> byte list) list \<Rightarrow> (multicast_msg \<times> byte list) list \<times> go_error option" where
  "demo_publish = bus_publisher (\<lambda>m. Inr (rep_Data (mc_Content (mm_msg m)))) (\<lambda>_. None) 0"

definition demo_message :: "int \<Rightarrow> string list \<Rightarrow> News \<Rightarrow> multicast_msg \<times> byte list" where
  "demo_message now receiver news =
     (\<lparr>mm_msg = NewMulticast now receiver (empty_Reply\<lparr>rep_Code := ReplyCode_NEWS, rep_ServiceCode := Services_ROOM,
         rep_Data := [of_nat (length (nw_Content news))]\<rparr>), mm_time = Some now\<rparr>, [of_nat (length (nw_Content news))])"

lemma demo_user_id [simp]: "SessionIDInContext (demo_user u) = Ok u"
  by (simp add: demo_user_def SessionIDInContext_def)

lemma demo_boardcast:
  "filter (\<lambda>u. u \<in> dom (rs_members rs)) visit = r # rest \<Longrightarrow>
   room_boardcast demo_marshal demo_publish now visit news rs =
     Ok (rs\<lparr>rs_publisher := rs_publisher rs @ [demo_message now (r # rest) news]\<rparr>)"
  by (simp add: room_boardcast_def news_reply_def NewReply_def demo_marshal_def range_receivers demo_publish_def
      bus_publisher_def mc_Publish_def NewMulticast_def ReplyCode_NEWS_def Services_ROOM_def empty_Reply_def
      demo_message_def)

text \<open>Ann and an anonymous user join, and the latter leaves.\<close>

definition demo_ops :: "room_op list" where
  "demo_ops = [OpJoin (demo_user ''1'') \<lparr>jr_Name = ''ann''\<rparr>, OpJoin (demo_user ''2'') \<lparr>jr_Name = []\<rparr>,
     OpLeave (demo_user ''2'')]"

definition demo_room :: "(multicast_msg \<times> byte list) list roomService" where
  "demo_room = \<lparr>rs_publisher = [demo_message 5 [''1''] (room_news ''ROOM: #1 join''),
       demo_message 6 [''2'', ''1''] (room_news ''ROOM: #2 join''), demo_message 7 [''1''] (room_news ''ROOM: #2 leave'')],
     rs_members = [''1'' \<mapsto> ''ann'']\<rparr>"

lemma demo_room_run: "room_run demo_marshal demo_publish [] demo_ops demo_room []"
proof -
  let ?r1 = "\<lparr>rs_publisher = [demo_message 5 [''1''] (room_news ''ROOM: #1 join'')], rs_members = [''1'' \<mapsto> ''ann'']\<rparr>"
  let ?r2 = "\<lparr>rs_publisher = [demo_message 5 [''1''] (room_news ''ROOM: #1 join''),
      demo_message 6 [''2'', ''1''] (room_news ''ROOM: #2 join'')], rs_members = [''1'' \<mapsto> ''ann'', ''2'' \<mapsto> ''anonymous2'']\<rparr>"
  have "room_run demo_marshal demo_publish [] ([] @ [OpJoin (demo_user ''1'') \<lparr>jr_Name = ''ann''\<rparr>]) ?r1 []"
    by (rule run_whole [OF run_start, where now = 5 and visit = "[''1'']"])
      (simp_all add: room_Join_def demo_boardcast room_newService_def display_name_def enumerates_def)
  then have "room_run demo_marshal demo_publish [] (([] @ [OpJoin (demo_user ''1'') \<lparr>jr_Name = ''ann''\<rparr>]) @
      [OpJoin (demo_user ''2'') \<lparr>jr_Name = []\<rparr>]) ?r2 []"
    by (rule run_whole [where now = 6 and visit = "[''2'', ''1'']"])
      (simp_all add: room_Join_def demo_boardcast display_name_def enumerates_def)
  then have "room_run demo_marshal demo_publish [] ((([] @ [OpJoin (demo_user ''1'') \<lparr>jr_Name = ''ann''\<rparr>]) @
      [OpJoin (demo_user ''2'') \<lparr>jr_Name = []\<rparr>]) @ [OpLeave (demo_user ''2'')]) demo_room []"
    by (rule run_whole [where now = 7 and visit = "[''1'']"])
      (simp_all add: room_Leave_def demo_boardcast demo_room_def enumerates_def)
  then show ?thesis by (simp add: demo_ops_def)
qed

text \<open>
  C25. Who is in the room: a user is a member under a name exactly when the last call that moved
  the user was a join, and the name is the one of that join, or \<open>anonymous\<close> followed by the
  user's id when the join had none; however calls and the telling of news interleave.
\<close>

theorem room_membership:
  assumes "room_run marshal publish p0 ops rs pend"
  shows "rs_members rs u = Some n \<longleftrightarrow>
    (\<exists>pre md req post. ops = pre @ OpJoin md req # post \<and> SessionIDInContext md = Ok u \<and>
       n = (if jr_Name req = [] then ''anonymous'' @ u else jr_Name req) \<and> (\<forall>op \<in> set post. \<not> moves u op))"
  using members_after_iff [of ops u n] room_ops_users [OF room_run_reach [OF assms]] room_members [OF room_run_reach [OF assms]]
  by (simp add: last_join_def display_name_def)

theorem room_membership_witness:
  "rs_members demo_room ''1'' = Some ''ann'' \<and>
   (\<exists>pre md req post. demo_ops = pre @ OpJoin md req # post \<and> SessionIDInContext md = Ok ''1'' \<and>
      ''ann'' = (if jr_Name req = [] then ''anonymous'' @ ''1'' else jr_Name req) \<and> (\<forall>op \<in> set post. \<not> moves ''1'' op))"
proof
  show m: "rs_members demo_room ''1'' = Some ''ann''" by (simp add: demo_room_def)
  show "\<exists>pre md req post. demo_ops = pre @ OpJoin md req # post \<and> SessionIDInContext md = Ok ''1'' \<and>
      ''ann'' = (if jr_Name req = [] then ''anonymous'' @ ''1'' else jr_Name req) \<and> (\<forall>op \<in> set post. \<not> moves ''1'' op)"
    using m by (rule iffD1 [OF room_membership [OF demo_room_run]])
qed

text \<open>
  C24. Nobody else hears the room: every message the bus took from the room carries news that are
  either of the room itself or were said by their sender, who was a member under the given
  name, and goes exactly to those who were members at some moment of the run, each once; a
  message said to a name goes to a single member of that name.
\<close>

theorem room_news_told:
  assumes "room_run marshal (bus_publisher marshalM queue now) [] ops rs pend" and "(m, data) \<in> set (rs_publisher rs)"
  shows "told marshal ops (mm_msg m)"
proof -
  have "mm_msg m \<in> set (map (\<lambda>x. mm_msg (fst x)) (rs_publisher rs))" using assms(2) by force
  then show ?thesis using chat_bus.news_told [OF room_run_reach [OF assms(1)]] by blast
qed

theorem room_news_told_witness:
  "told demo_marshal demo_ops (mm_msg (fst (demo_message 6 [''2'', ''1''] (room_news ''ROOM: #2 join''))))"
proof -
  let ?m = "demo_message 6 [''2'', ''1''] (room_news ''ROOM: #2 join'')"
  have "(fst ?m, snd ?m) \<in> set (rs_publisher demo_room)" by (simp add: demo_room_def)
  then show ?thesis by (rule room_news_told [OF demo_room_run [unfolded demo_publish_def]])
qed

text \<open>
  C26. What is said reaches the members: when a member speaks to everyone, encoding undoes itself
  and the broker takes the message, then the bus hands every gateway one message; a gateway
  sends its content to exactly the sessions of members that it serves, and a client
  program that gets it prints the words after the speaker's name.
\<close>

theorem room_say_delivered:
  fixes u name :: string and req :: SayRequest and d :: "byte list" and now :: int and visit :: "string list"
  defines "news \<equiv> \<lparr>nw_FromId = u, nw_FromName = name, nw_Content = sr_Content req\<rparr>"
    and "reply \<equiv> empty_Reply\<lparr>rep_Code := ReplyCode_NEWS, rep_Data := d, rep_ServiceCode := Services_ROOM\<rparr>"
  defines "m \<equiv> \<lparr>mm_msg = NewMulticast now visit reply, mm_time = Some now\<rparr>"
  assumes "SessionIDInContext md = Ok u" and "rs_members rs u = Some name" and "sr_To req = []"
    and "enumerates visit (rs_members rs)" and "marshal news = Inr d" and "unmarshal d = Inr news"
    and "marshalM m = Inr data" and "queue data = None" and "unmarshalM data = Inr (mm_msg m)"
  shows "room_Say marshal (bus_publisher marshalM queue now') now visit md req rs =
      Ok (rs\<lparr>rs_publisher := rs_publisher rs @ [(m, data)]\<rparr>) \<and>
    mc_receive unmarshalM True t data s = Some (s\<lparr>mcs_tasks := mcs_tasks s @ [mm_msg m]\<rparr>) \<and>
    set (handleMulticast (\<lambda>_. True) hub hubVisit (mm_msg m)) =
      {(sess, reply) |sess v. v \<in> dom (rs_members rs) \<and> hub v = Some sess} \<and>
    chat_subscription unmarshal [reply] = Ok [(if u = [] then ''>>> '' else name @ '': '') @ sr_Content req @ [CHR 0x0A]]"
proof -
  have vs: "set visit = dom (rs_members rs)" "visit \<noteq> []" "filter (\<lambda>v. v \<in> dom (rs_members rs)) visit = visit"
    using assms(5,7) by (auto simp: enumerates_def filter_id_conv)
  have "mc_Publish marshalM queue now' m = (m, Ok data)"
    using assms(10,11) vs(2)
    by (simp add: mc_Publish_def m_def reply_def NewMulticast_def Services_ROOM_def ReplyCode_NEWS_def empty_Reply_def)
  then have "bus_publisher marshalM queue now' (NewMulticast now visit reply) p = (p @ [(m, data)], None)" for p
    by (simp add: bus_publisher_def m_def NewMulticast_def)
  then have "room_Say marshal (bus_publisher marshalM queue now') now visit md req rs =
      Ok (rs\<lparr>rs_publisher := rs_publisher rs @ [(m, data)]\<rparr>)"
    using assms(4-6,8) vs(3)
    by (simp add: room_Say_def room_boardcast_def news_reply_def NewReply_def range_receivers reply_def news_def)
  moreover have "mc_receive unmarshalM True t data s = Some (s\<lparr>mcs_tasks := mcs_tasks s @ [mm_msg m]\<rparr>)"
    using assms(12) by (simp add: mc_receive_def m_def NewMulticast_def)
  moreover have "set (handleMulticast (\<lambda>_. True) hub hubVisit (mm_msg m)) =
      {(sess, reply) |sess v. v \<in> dom (rs_members rs) \<and> hub v = Some sess}"
    using vs(1,2)
    by (auto simp: handleMulticast_def multicast_targets_def m_def NewMulticast_def set_map_filter_eq)
  moreover have "chat_subscription unmarshal [reply] =
      Ok [(if u = [] then ''>>> '' else name @ '': '') @ sr_Content req @ [CHR 0x0A]]"
    using assms(9) by (simp add: chat_subscription_def cli_Subscribe_def reply_def news_def chat_print_def)
  ultimately show ?thesis by blast
qed

theorem room_say_delivered_witness:
  "\<exists>m data. room_Say demo_marshal demo_publish 8 [''1''] (demo_user ''1'') \<lparr>sr_To = [], sr_Content = ''hi''\<rparr> demo_room =
      Ok (demo_room\<lparr>rs_publisher := rs_publisher demo_room @ [(m, data)]\<rparr>) \<and>
    set (handleMulticast (\<lambda>_. True) [''1'' \<mapsto> 4, ''2'' \<mapsto> 6] [''1'', ''2''] (mm_msg m)) = {(4, mc_Content (mm_msg m))} \<and>
    chat_subscription (\<lambda>_. Inr \<lparr>nw_FromId = ''1'', nw_FromName = ''ann'', nw_Content = ''hi''\<rparr>) [mc_Content (mm_msg m)] =
      Ok [''ann: hi'' @ [CHR 0x0A]]"
proof -
  let ?n = "\<lparr>nw_FromId = ''1'', nw_FromName = ''ann'', nw_Content = ''hi''\<rparr>"
  let ?m = "NewMulticast 8 [''1''] (empty_Reply\<lparr>rep_Code := ReplyCode_NEWS, rep_Data := [2], rep_ServiceCode := Services_ROOM\<rparr>)"
  note w = room_say_delivered [where md = "demo_user ''1''" and u = "''1''" and name = "''ann''" and rs = demo_room and
      req = "\<lparr>sr_To = [], sr_Content = ''hi''\<rparr>" and visit = "[''1'']" and marshal = demo_marshal and d = "[2]" and
      unmarshal = "\<lambda>_. Inr ?n" and data = "[2]" and marshalM = "\<lambda>m. Inr (rep_Data (mc_Content (mm_msg m)))" and
      queue = "\<lambda>_. None" and unmarshalM = "\<lambda>_. Inr ?m" and now = 8 and now' = 0 and
      hub = "[''1'' \<mapsto> 4, ''2'' \<mapsto> 6]" and hubVisit = "[''1'', ''2'']" and t = 0 and s = mc_init, folded demo_publish_def]
  have d: "dom (rs_members demo_room) = {''1''}" by (simp add: demo_room_def)
  have "room_Say demo_marshal demo_publish 8 [''1''] (demo_user ''1'') \<lparr>sr_To = [], sr_Content = ''hi''\<rparr> demo_room =
      Ok (demo_room\<lparr>rs_publisher := rs_publisher demo_room @ [(\<lparr>mm_msg = ?m, mm_time = Some 8\<rparr>, [2])]\<rparr>) \<and>
    set (handleMulticast (\<lambda>_. True) [''1'' \<mapsto> 4, ''2'' \<mapsto> 6] [''1'', ''2''] ?m) = {(4, mc_Content ?m)} \<and>
    chat_subscription (\<lambda>_. Inr ?n) [mc_Content ?m] = Ok [''ann: hi'' @ [CHR 0x0A]]"
    using w by (auto simp: d enumerates_def demo_room_def demo_marshal_def NewMulticast_def)
  then show ?thesis by (metis multicast_msg.select_convs(1))
qed

section \<open>Properties of the programs\<close>

text \<open>
  The room is a public service whose users stick to one node: registering it succeeds, and
  the description it announces is public, stateful and allocated automatically.
\<close>

lemma room_server:
  assumes "nats_Connect natsURL = None"
  shows "\<exists>server desc. room_newGRPCServer nats_Connect natsURL listenAddr publisher =
      Ok (server, mc_NewNatsBus [], room_newService publisher) \<and>
    gs_services server = [Services_ROOM \<mapsto> desc] \<and> Path desc = ''/room.Room'' \<and>
    Public desc \<and> Stateful desc \<and> Allocation desc = AutoAllocate \<and> rpc_reach server"
proof -
  obtain server desc where r: "RegisterService Services_ROOM ''room.Room'' room_options (NewGRPCServer listenAddr) = (server, None)"
    "gs_services server = [Services_ROOM \<mapsto> desc]" "Path desc = ''/room.Room''" "Public desc" "Stateful desc"
    "Allocation desc = AutoAllocate"
    by (simp add: RegisterService_def room_options_def desc_Validate_def NewGRPCServer_def rpc_WithPublic_def
        rpc_WithStateful_def rpc_WithAllocation_def Services_ROOM_def BalancerRandom_def AutoAllocate_def Let_def)
  have "rpc_reach server" using rpc_register [OF rpc_new, of Services_ROOM "''room.Room''" room_options listenAddr] r(1) by simp
  moreover have "room_newGRPCServer nats_Connect natsURL listenAddr publisher =
      Ok (server, mc_NewNatsBus [], room_newService publisher)"
    using assms r(1)
    by (simp add: room_newGRPCServer_def newNatsBus_def mustDo_def initEvents_def Register_def checkHandler_def
        connected_sig_def disconnected_sig_def timeTime_def)
  ultimately show ?thesis using r by blast
qed

lemma chat_gateway_starts:
  "\<exists>n. NewGatewayNode d nodeID registry (chat_config grpcListen) = Ok n"
  by (simp add: NewGatewayNode_def chat_config_def NewProxy_def newOptions_def options_Validate_def WithTransporter_def
      WithInitializer_def WithEventBus_def WithMulticast_def WithRegistry_def WithRequestLogger_def Let_def)

text \<open>The id of the \<open>n\<close>-th connection of a gateway process.\<close>

definition chat_uid :: "nat \<Rightarrow> string" where
  "chat_uid n = itoa (sint (of_nat n :: 32 word))"

lemma chat_initializer_uid:
  "chat_initializer (of_nat n) = (of_nat (Suc n), Inr (chat_uid (Suc n), Some Map.empty))"
  by (simp add: chat_initializer_def chat_uid_def Let_def add.commute)

text \<open>
  Users of one gateway are told apart: the initializer never fails and never gives the empty
  id, which the proxy would refuse, and the ids of two connections of a gateway process
  differ unless at least \<open>2^32\<close> connections lie between them.
\<close>

theorem chat_ids_distinct:
  assumes "m < n" and "n - m < 2 ^ 32"
  shows "chat_initializer (of_nat n) = (of_nat (Suc n), Inr (chat_uid (Suc n), Some Map.empty)) \<and>
    chat_uid (Suc n) \<noteq> [] \<and> chat_uid (Suc m) \<noteq> chat_uid (Suc n)"
proof -
  have "(of_nat (Suc m) :: 32 word) \<noteq> of_nat (Suc n)"
  proof
    assume "(of_nat (Suc m) :: 32 word) = of_nat (Suc n)"
    then have "(of_nat (n - m) :: 32 word) = 0" using assms(1) by (simp add: of_nat_diff)
    then have "2 ^ 32 dvd n - m" by (simp only: of_nat_32_zero)
    with assms show False using dvd_imp_le [of "2 ^ 32" "n - m"] by linarith
  qed
  then have "sint (of_nat (Suc m) :: 32 word) \<noteq> sint (of_nat (Suc n) :: 32 word)"
    by (metis word_eq_iff_signed)
  then show ?thesis
    unfolding chat_uid_def using chat_initializer_uid [of n] itoa_inj itoa_not_empty by (auto simp: chat_uid_def)
qed

theorem chat_ids_distinct_witness: "chat_uid (Suc 0) \<noteq> chat_uid (Suc 7)"
  using chat_ids_distinct [of 0 7] by simp

text \<open>
  Users of two gateways are not told apart: every process counts from one, so the first
  users of two gateways have the same id, and the announcement of the second one makes the
  first gateway close the session of its own user.
\<close>

theorem chat_gateways_collide:
  assumes "gw_reach px" and "open_session px (chat_uid (Suc n)) s"
    and "uc_GatewayID ev \<noteq> px_nodeID px" and "Inr (uc_UserID ev, Some Map.empty) = snd (chat_initializer (of_nat n))"
  shows "\<not> open_session (on_UserConnected ev px) (chat_uid (Suc n)) s"
  using on_UserConnected_facts(2) [OF assms(1,3)] assms(4) by (simp add: chat_initializer_uid)

theorem chat_gateways_collide_witness:
  "\<exists>px ev. gw_reach px \<and> open_session px ''1'' 0 \<and> uc_GatewayID ev = ''gw2'' \<and>
     \<not> open_session (on_UserConnected ev px) ''1'' 0"
proof -
  let ?px = "case onConnect (snd (chat_initializer 0)) None None 0 (demo_accept 0 (init_Proxy ''gw'')) of
    (px', r) \<Rightarrow> session_begin r 0 px'"
  let ?ev = "\<lparr>uc_GatewayID = ''gw2'', uc_UserID = ''1'', uc_RemoteAddr = [], uc_Metadata = Map.empty\<rparr>"
  have one: "chat_uid (Suc 0) = ''1''" by code_simp
  have i: "chat_initializer 0 = (1, Inr (''1'', Some Map.empty))" using chat_initializer_uid [of 0] one by simp
  have acc: "gw_reach (demo_accept 0 (init_Proxy ''gw''))" by (rule demo_steps_reach [OF gw_init]) (simp add: init_Proxy_def)
  have "gw_reach ?px"
    by (auto split: prod.split intro!: gw_connect [OF acc] simp: demo_accept_def accept_session_def Let_def init_Proxy_def)
  moreover have "open_session ?px ''1'' 0" "px_nodeID ?px = ''gw''"
    by (simp_all add: i open_session_def demo_run_simps)
  ultimately show ?thesis
    using chat_gateways_collide [of ?px 0 0 ?ev] one i by (intro exI [of _ ?px] exI [of _ ?ev]) simp
qed

text \<open>
  A user that reconnects may be dropped from the room: when an old session of the user ends
  after a new one was opened, the gateway still announces that the user has disconnected,
  and the room forgets the user although the new session is open, also when the user has
  joined through it.
\<close>

theorem room_forgets_reconnected:
  assumes "gw_reach px" and "open_session px u s" and "px_phase px r = Leaving" and "sess_ID r px = u"
  shows "\<exists>ev. px_events (session_end None r px) = px_events px @ [EvDisconnected ev] \<and>
    open_session (session_end None r px) u s \<and>
    (\<forall>rs rs'. room_on_disconnected marshal publish now visit ev rs = Ok rs' \<longrightarrow> rs_members rs' u = None)"
proof -
  have rs: "r \<noteq> s" using assms(2,3) by (auto simp: open_session_def)
  have hub: "px_hub px u = Some s" using open_session_unique(1) [OF assms(1,2)] by (simp add: hub_Load_def)
  let ?ev = "\<lparr>ud_GatewayID = px_nodeID px, ud_UserID = u, ud_RemoteAddr = sess_RemoteAddr r px\<rparr>"
  have "hub_Delete r px = px" using hub assms(4) rs by (simp add: hub_Delete_def)
  then have "px_events (session_end None r px) = px_events px @ [EvDisconnected ?ev]"
    "open_session (session_end None r px) u s"
    using assms(2,4) rs
    by (auto simp: session_end_def onDisconnect_def Let_def sess_Close_def open_session_def sess_ID_def
        sess_RemoteAddr_def split: option.splits)
  moreover have "rs_members rs' u = None" if "room_on_disconnected marshal publish now visit ?ev rs = Ok rs'" for rs rs'
    using that by (auto simp: room_on_disconnected_def room_boardcast_def go_bind_Ok_iff Let_def)
  ultimately show ?thesis by blast
qed

text \<open>The user's second session was opened and the first one is ending.\<close>

definition demo_reconnected :: Proxy where
  "demo_reconnected = session_leaves 0 (demo_connect 1 (demo_accept 1 demo_px))"

theorem room_forgets_reconnected_witness:
  "gw_reach demo_reconnected \<and> open_session (session_end None 0 demo_reconnected) ''u'' 1 \<and>
   (\<exists>ev rs'. last (px_events (session_end None 0 demo_reconnected)) = EvDisconnected ev \<and>
      room_on_disconnected demo_marshal demo_publish 9 [''1''] ev
        (demo_room\<lparr>rs_members := [''1'' \<mapsto> ''ann'', ''u'' \<mapsto> ''bob'']\<rparr>) = Ok rs' \<and> rs_members rs' ''u'' = None)"
proof -
  have reach: "gw_reach demo_reconnected"
    unfolding demo_reconnected_def by (intro gw_leave demo_steps_reach demo_px_reach) (simp_all add: demo_run_simps)
  have "open_session demo_reconnected ''u'' 1" "px_phase demo_reconnected 0 = Leaving" "sess_ID 0 demo_reconnected = ''u''"
    by (simp_all add: demo_reconnected_def open_session_def session_leaves_def demo_run_simps)
  from room_forgets_reconnected [OF reach this, of demo_marshal demo_publish 9 "[''1'']"]
  obtain ev where ev: "px_events (session_end None 0 demo_reconnected) = px_events demo_reconnected @ [EvDisconnected ev]"
    "open_session (session_end None 0 demo_reconnected) ''u'' 1"
    "\<forall>rs rs'. room_on_disconnected demo_marshal demo_publish 9 [''1''] ev rs = Ok rs' \<longrightarrow> rs_members rs' ''u'' = None"
    by blast
  let ?rs = "demo_room\<lparr>rs_members := [''1'' \<mapsto> ''ann'', ''u'' \<mapsto> ''bob'']\<rparr>"
  obtain rs' where "room_on_disconnected demo_marshal demo_publish 9 [''1''] ev ?rs = Ok rs'"
    by (simp add: room_on_disconnected_def room_boardcast_def news_reply_def NewReply_def demo_marshal_def)
  then show ?thesis using ev reach by auto
qed

end
