(* ===== verification/Example_Echo.thy ===== *)
theory Example_Echo
  imports Example_Base Protoc_Gen
begin

text \<open>
  The echo example (\<open>src/example/echo\<close>): a gateway that authorises its clients before it
  serves them, a service node that sends messages back, and the client.

  The gateway's initializer works on the interface \<open>Session\<close>: \<open>recv\<close> and \<open>send\<close> are the
  session's methods. Protobuf codecs, the fresh ULID of a user, sockets and the functions
  of the crypto packages are arguments.
\<close>

section \<open>Messages\<close>

record AuthorizeToken =
  at_Token :: string

record AuthorizeAck =
  aa_UserId :: string

record Msg =
  em_Content :: string

definition Services_AUTH :: int where "Services_AUTH = 1"
definition Services_ECHO :: int where "Services_ECHO = 2"

definition PackAuthorizeAck :: "(AuthorizeAck \<Rightarrow> go_error + byte list) \<Rightarrow> AuthorizeAck \<Rightarrow> go_error + Reply" where
  "PackAuthorizeAck marshal msg =
     (case marshal msg of
        Inl err \<Rightarrow> Inl err
      | Inr data \<Rightarrow> Inr (empty_Reply\<lparr>rep_ServiceCode := 1, rep_Code := 1, rep_Data := data\<rparr>))"

definition Echo_MethodReplyCodes :: "string \<rightharpoonup> int" where
  "Echo_MethodReplyCodes = [''/echo.Echo/Send'' \<mapsto> 1]"

text \<open>
  The descriptors of \<open>echo/service.proto\<close> and \<open>auth/message.proto\<close>: the tables above are what
  the code generator makes of them.
\<close>

definition echo_msg_desc :: pg_message where
  "echo_msg_desc = \<lparr>pm_GoIdent = (''echopb'', ''Msg''), pm_Options = Some [\<lparr>of_ext = True, of_Name = ''reply_code'', of_Value = 1\<rparr>]\<rparr>"

definition echo_proto :: pg_file where
  "echo_proto = \<lparr>pf_Path = ''echo/service.proto'', pf_Package = ''echopb'', pf_Deprecated = False,
     pf_Services = [\<lparr>ps_GoName = ''Echo'', ps_FullName = ''echo.Echo'',
       ps_Options = Some [\<lparr>of_ext = True, of_Name = ''service_code'', of_Value = 2\<rparr>],
       ps_Methods = [\<lparr>pd_GoName = ''Send'', pd_Name = ''Send'', pd_Output = echo_msg_desc\<rparr>]\<rparr>],
     pf_Messages = [echo_msg_desc]\<rparr>"

definition auth_proto :: pg_file where
  "auth_proto = \<lparr>pf_Path = ''auth/message.proto'', pf_Package = ''authpb'', pf_Deprecated = False, pf_Services = [],
     pf_Messages = [\<lparr>pm_GoIdent = (''authpb'', ''AuthorizeToken''), pm_Options = None\<rparr>,
       \<lparr>pm_GoIdent = (''authpb'', ''AuthorizeAck''), pm_Options = Some [\<lparr>of_ext = True, of_Name = ''reply_service'', of_Value = 1\<rparr>,
         \<lparr>of_ext = True, of_Name = ''reply_code'', of_Value = 1\<rparr>]\<rparr>]\<rparr>"

lemmas proto_defs = parseServices_def parseMessages_def parse_message_def parse_methods_def getServiceCode_def getReplyCode_def
  optionServiceCode_def optionReplyCode_def optionReplyService_def last_ext_def List.map_filter_def

lemma echo_tables_generated:
  "map MethodReplyCodes (parseServices echo_proto) = [Echo_MethodReplyCodes]"
  "registrations echo_proto = [(Services_ECHO, 1, ''echopb'', ''Msg'')]"
  by (simp_all add: proto_defs echo_proto_def echo_msg_desc_def MethodReplyCodes_def method_path_def Echo_MethodReplyCodes_def
      registrations_def Services_ECHO_def)

lemma auth_pack_generated:
  "map (\<lambda>m. (ng_ReplyService m, ng_ReplyCode m, snd (pm_GoIdent (ng_Message m)))) (parseMessages auth_proto) =
     [(Services_AUTH, 1, ''AuthorizeAck'')]"
  by (simp add: proto_defs auth_proto_def Services_AUTH_def)

section \<open>Authorising a session\<close>

definition valid_token :: string where
  "valid_token = ''0d8b750e-35e8-4f98-b032-f389d401213e''"

definition validToken ::
  "(byte list \<Rightarrow> go_error + AuthorizeToken) \<Rightarrow> string \<Rightarrow> Request \<Rightarrow> go_error + string \<times> metadata" where
  "validToken unmarshal fresh req =
     (if req_Method req \<noteq> ''Authorize'' then Inl (ErrNew ''invalid method'')
      else case unmarshal (req_Data req) of
        Inl err \<Rightarrow> Inl err
      | Inr token \<Rightarrow>
          if at_Token token \<noteq> valid_token then Inl (ErrNew ''invalid token'') else Inr (fresh, Map.empty))"

text \<open>The goroutine that reads the first request: the request's id, and the user or an error.\<close>

definition auth_goroutine ::
  "('s \<Rightarrow> ('s \<times> (go_error + Request)) go) \<Rightarrow> (byte list \<Rightarrow> go_error + AuthorizeToken) \<Rightarrow> string \<Rightarrow> 's \<Rightarrow>
   ('s \<times> 32 word \<times> (go_error + string \<times> metadata)) go" where
  "auth_goroutine recv unmarshal fresh sess =
     go_bind (recv sess) (\<lambda>(sess', r).
       case r of
         Inl err \<Rightarrow> Ok (sess', 1, Inl err)
       | Inr req \<Rightarrow> Ok (sess', req_Id req, validToken unmarshal fresh req))"

text \<open>
  \<open>initializer\<close>: \<open>ctxDone\<close> is the context's error when the select takes that case (after five
  seconds, or when the caller's context ends), otherwise the goroutine's answer is taken.
  \<open>gokit.MustReturn\<close> and \<open>gokit.Must\<close> panic on an error.
\<close>

definition initializer ::
  "('s \<Rightarrow> ('s \<times> (go_error + Request)) go) \<Rightarrow> (Reply \<Rightarrow> 's \<Rightarrow> 's \<times> go_error option) \<Rightarrow>
   (AuthorizeAck \<Rightarrow> go_error + byte list) \<Rightarrow> (byte list \<Rightarrow> go_error + AuthorizeToken) \<Rightarrow> string \<Rightarrow> go_error option \<Rightarrow> 's \<Rightarrow>
   ('s \<times> (go_error + string \<times> metadata option)) go" where
  "initializer recv send marshalAck unmarshal fresh ctxDone sess =
     (case ctxDone of
        Some err \<Rightarrow> Ok (sess, Inl err)
      | None \<Rightarrow>
          go_bind (auth_goroutine recv unmarshal fresh sess) (\<lambda>(sess1, requestID, r).
            case r of
              Inl err \<Rightarrow> Ok (sess1, Inl err)
            | Inr (userID, md) \<Rightarrow>
                go_bind (mustReturn (PackAuthorizeAck marshalAck \<lparr>aa_UserId = userID\<rparr>)) (\<lambda>reply.
                  case send (reply\<lparr>rep_RequestId := requestID\<rparr>) sess1 of
                    (sess2, err) \<Rightarrow> go_bind (mustDo err) (\<lambda>_. Ok (sess2, Inr (userID, Some md))))))"

section \<open>The gateway\<close>

text \<open>
  Listeners: with \<open>reuse\<close> the socket options for sharing the port are set; the errors of
  setting them are dropped, so only the kind of listening differs.
\<close>

definition newTCPListener ::
  "(string \<Rightarrow> string \<Rightarrow> go_error + 'l) \<Rightarrow> (string \<Rightarrow> string \<Rightarrow> go_error + 'l) \<Rightarrow> string \<Rightarrow> bool \<Rightarrow> go_error + 'l" where
  "newTCPListener net_Listen lc_Listen addr reuse =
     (if \<not> reuse then net_Listen ''tcp'' addr else lc_Listen ''tcp'' addr)"

definition newPacketConn ::
  "(string \<Rightarrow> string \<Rightarrow> go_error + 'l) \<Rightarrow> (string \<Rightarrow> string \<Rightarrow> go_error + 'l) \<Rightarrow> string \<Rightarrow> bool \<Rightarrow> go_error + 'l" where
  "newPacketConn net_ListenPacket lc_ListenPacket addr reuse =
     (if \<not> reuse then net_ListenPacket ''udp'' addr else lc_ListenPacket ''udp'' addr)"

record 'c tls_Config =
  tls_Certificates :: "'c list"
  tls_NextProtos :: "string list"

definition generateTLSConfig ::
  "(int \<Rightarrow> go_error + 'k) \<Rightarrow> ('k \<Rightarrow> go_error + byte list) \<Rightarrow> ('k \<Rightarrow> byte list) \<Rightarrow> (byte list \<Rightarrow> byte list) \<Rightarrow>
   (byte list \<Rightarrow> byte list \<Rightarrow> go_error + 'c) \<Rightarrow> 'c tls_Config go" where
  "generateTLSConfig rsa_GenerateKey x509_CreateCertificate keyToPEM certToPEM tls_X509KeyPair =
     go_bind (mustReturn (rsa_GenerateKey 1024)) (\<lambda>key.
     go_bind (mustReturn (x509_CreateCertificate key)) (\<lambda>certDER.
     go_bind (mustReturn (tls_X509KeyPair (certToPEM certDER) (keyToPEM key))) (\<lambda>tlsCert.
       Ok \<lparr>tls_Certificates = [tlsCert], tls_NextProtos = [''quic-echo-example'']\<rparr>)))"

record gateway_flags =
  gf_proxyListen :: string
  gf_reuse :: bool
  gf_grpcListen :: string
  gf_natsURL :: string
  gf_useTCP :: bool
  gf_useQUIC :: bool

definition echo_gateway_init ::
  "(gateway_flags \<Rightarrow> gateway_flags) \<Rightarrow> (string list \<Rightarrow> go_error + 'c) \<Rightarrow> ('c \<Rightarrow> watcher go) \<Rightarrow> (gateway_flags \<times> watcher) go" where
  "echo_gateway_init flag_Parse clientv3_New newRegistry =
     (let flags = flag_Parse \<lparr>gf_proxyListen = ''127.0.0.1:9000'', gf_reuse = False, gf_grpcListen = ''127.0.0.1:10000'',
                    gf_natsURL = default_nats, gf_useTCP = False, gf_useQUIC = False\<rparr>
      in go_bind (init_registry clientv3_New newRegistry) (\<lambda>registry. Ok (flags, registry)))"

text \<open>
  The transporter of the command line. Sockets of the gateway are numbers with the address
  they are bound to; \<open>listen\<close> opens one, with the port shared or not.
\<close>

datatype echo_transporter = EchoTCP tcpServer | EchoQUIC quicServer | EchoWS wsServer

definition echo_transporter_of ::
  "(bool \<Rightarrow> string \<Rightarrow> string \<Rightarrow> go_error + nat \<times> string) \<Rightarrow> 'c tls_Config go \<Rightarrow> gateway_flags \<Rightarrow> echo_transporter go" where
  "echo_transporter_of listen tlsConfig flags =
     (if gf_useTCP flags then
        go_bind (mustReturn (newTCPListener (listen False) (listen True) (gf_proxyListen flags) (gf_reuse flags)))
          (\<lambda>(l, addr). Ok (EchoTCP (BindTCPServer addr l)))
      else if gf_useQUIC flags then
        go_bind (mustReturn (newPacketConn (listen False) (listen True) (gf_proxyListen flags) (gf_reuse flags)))
          (\<lambda>(c, addr). go_bind tlsConfig (\<lambda>_. Ok (EchoQUIC (BindQUICServer c addr))))
      else
        go_bind (mustReturn (newTCPListener (listen False) (listen True) (gf_proxyListen flags) (gf_reuse flags)))
          (\<lambda>(l, addr). Ok (EchoWS (BindWSServer l addr []))))"

definition echo_complete :: "(string \<Rightarrow> string \<Rightarrow> string) \<Rightarrow> echo_transporter \<Rightarrow> NodeEntry \<Rightarrow> NodeEntry" where
  "echo_complete url_String tr =
     (case tr of EchoTCP ts \<Rightarrow> tcp_CompleteNodeEntry ts | EchoQUIC qs \<Rightarrow> qsv_CompleteNodeEntry qs
      | EchoWS ws \<Rightarrow> ws_CompleteNodeEntry url_String ws)"

definition echo_config :: "net_Listener \<Rightarrow> GatewayConfig" where
  "echo_config grpcListener = \<lparr>gc_NodeOptions = [],
     gc_Options = [WithRequestLogger, WithTransporter, WithEventBus, WithMulticast, WithInitializer],
     gc_GRPCListen = [], gc_GRPCEndpoint = [], gc_GRPCListener = Some grpcListener,
     gc_MetricsListen = ''127.0.0.1:12345''\<rparr>"

definition echo_gateway_main ::
  "gw_deps \<Rightarrow> (string \<Rightarrow> string \<Rightarrow> string) \<Rightarrow> (bool \<Rightarrow> string \<Rightarrow> string \<Rightarrow> go_error + nat \<times> string) \<Rightarrow>
   (bool \<Rightarrow> string \<Rightarrow> string \<Rightarrow> go_error + net_Listener) \<Rightarrow> 'c tls_Config go \<Rightarrow> (string \<Rightarrow> go_error option) \<Rightarrow> gateway_flags \<Rightarrow>
   ulid \<Rightarrow> Registry \<Rightarrow> put_env \<Rightarrow> nat list \<Rightarrow> string list \<Rightarrow> (gw_comp Node \<times> node_action list) go" where
  "echo_gateway_main d url_String listen listenGRPC tlsConfig nats_Connect flags nodeID registry env schedule visit =
     go_bind (echo_transporter_of listen tlsConfig flags) (\<lambda>tr.
     go_bind (newNatsBus nats_Connect (gf_natsURL flags)) (\<lambda>(evBus, muBus).
     go_bind (mustReturn (newTCPListener (listenGRPC False) (listenGRPC True) (gf_grpcListen flags) (gf_reuse flags))) (\<lambda>l.
     go_bind (NewGatewayNode (d\<lparr>gd_complete := echo_complete url_String tr\<rparr>) nodeID registry (echo_config l))
       (must_Serve env schedule visit))))"

section \<open>The service node\<close>

definition echo_Send :: "Msg \<Rightarrow> Msg \<times> go_error option" where
  "echo_Send msg = (msg, None)"

definition echo_options :: "string \<Rightarrow> int \<Rightarrow> (GRPCServiceDesc \<Rightarrow> GRPCServiceDesc) list" where
  "echo_options balancer weight =
     [rpc_WithPublic, rpc_WithBalancer balancer] @ (if weight > 0 then [rpc_WithWeight weight] else [])"

definition echo_newGRPCServer :: "string \<Rightarrow> string \<Rightarrow> int \<Rightarrow> GRPCServer go" where
  "echo_newGRPCServer listen balancer weight =
     (case RegisterService Services_ECHO ''echo.Echo'' (echo_options balancer weight) (NewGRPCServer listen) of
        (gs, Some err) \<Rightarrow> Error (ErrWrap ''register service'' err)
      | (gs, None) \<Rightarrow> Ok gs)"

record echo_flags =
  ef_listen :: string
  ef_balancer :: string
  ef_weight :: int

definition echo_init ::
  "(echo_flags \<Rightarrow> echo_flags) \<Rightarrow> (string list \<Rightarrow> go_error + 'c) \<Rightarrow> ('c \<Rightarrow> watcher go) \<Rightarrow> (echo_flags \<times> watcher) go" where
  "echo_init flag_Parse clientv3_New newRegistry =
     (let flags = flag_Parse \<lparr>ef_listen = ''127.0.0.1:9001'', ef_balancer = ''random'', ef_weight = 0\<rparr>
      in go_bind (init_registry clientv3_New newRegistry) (\<lambda>registry. Ok (flags, registry)))"

definition echo_main ::
  "gw_deps \<Rightarrow> echo_flags \<Rightarrow> ulid \<Rightarrow> Registry \<Rightarrow> put_env \<Rightarrow> nat list \<Rightarrow> string list \<Rightarrow>
   (gw_comp Node \<times> node_action list) go" where
  "echo_main d flags nodeID registry env schedule visit =
     go_bind (mustGo (echo_newGRPCServer (ef_listen flags) (ef_balancer flags) (ef_weight flags))) (\<lambda>gs.
       must_Serve env schedule visit (AddComponent [rpc_component d gs] (NewNode nodeID ''echo'' registry [])))"

text \<open>A remote call of \<open>Send\<close> as the server answers it, through the interceptor \<open>PackReply\<close>.\<close>

definition echo_serve ::
  "(Msg \<Rightarrow> go_error + byte list) \<Rightarrow> (byte list \<Rightarrow> go_error + Msg) \<Rightarrow> byte list \<Rightarrow> go_error + Reply" where
  "echo_serve marshal unmarshal data =
     (case unmarshal data of
        Inl err \<Rightarrow> Inl err
      | Inr msg \<Rightarrow>
          (case PackReply marshal [Echo_MethodReplyCodes] ''/echo.Echo/Send'' echo_Send msg of
             (RespReply reply, None) \<Rightarrow> Inr reply
           | (_, Some err) \<Rightarrow> Inl err
           | (_, None) \<Rightarrow> Inl (ErrNew ''no reply'')))"

section \<open>The client\<close>

record echo_client_flags =
  ec_serverAddr :: string
  ec_useTCP :: bool
  ec_useQUIC :: bool

definition echo_client_init :: "(echo_client_flags \<Rightarrow> echo_client_flags) \<Rightarrow> echo_client_flags" where
  "echo_client_init flag_Parse =
     flag_Parse \<lparr>ec_serverAddr = ''127.0.0.1:9000'', ec_useTCP = False, ec_useQUIC = False\<rparr>"

definition echo_endpoint :: "echo_client_flags \<Rightarrow> string" where
  "echo_endpoint flags =
     (if ec_useTCP flags then ''tcp://'' @ ec_serverAddr flags
      else if ec_useQUIC flags then ''quic://'' @ ec_serverAddr flags
      else ''ws://'' @ ec_serverAddr flags @ ''/'')"

datatype echo_conn = EchoAny "any_conn Client" | EchoQuicC "quicConn Client"

definition echo_newClient ::
  "(string \<Rightarrow> go_error + any_conn Client) \<Rightarrow> (string \<Rightarrow> quicConn Client go) \<Rightarrow> string \<Rightarrow> echo_conn go" where
  "echo_newClient client_New client_NewQUIC endpoint =
     (if strip_prefix ''quic://'' endpoint \<noteq> None
      then go_bind (mustGo (client_NewQUIC endpoint)) (\<lambda>cli. Ok (EchoQuicC cli))
      else go_bind (mustReturn (client_New endpoint)) (\<lambda>cli. Ok (EchoAny cli)))"

text \<open>
  The calls of \<open>main\<close>: the authorisation, and echoes in rounds of three concurrent calls
  without end, of which the first \<open>n\<close> calls are followed; the arguments before the client are
  those of \<open>Call\<close>, except that \<open>waits k\<close> is what happens while the \<open>k\<close>-th call waits.
\<close>

definition echo_authorize ::
  "(AuthorizeToken \<Rightarrow> go_error + byte list) \<Rightarrow> (Request \<Rightarrow> go_error + byte list) \<Rightarrow>
   (int \<Rightarrow> byte list \<Rightarrow> 'c \<Rightarrow> 'c \<times> go_error option) \<Rightarrow> (byte list \<Rightarrow> go_error + RPCError) \<Rightarrow>
   (byte list \<Rightarrow> go_error + AuthorizeAck) \<Rightarrow> ('c Client \<Rightarrow> 'c Client) \<Rightarrow> go_error \<Rightarrow> 'c Client \<Rightarrow>
   'c Client \<times> (go_error + AuthorizeAck option)" where
  "echo_authorize marshalTok marshalReq send uerr uout wait ctxErr cli =
     Call marshalTok marshalReq send uerr uout wait ctxErr 0 ''Authorize'' \<lparr>at_Token = valid_token\<rparr> [] cli"

definition echo_call ::
  "(Msg \<Rightarrow> go_error + byte list) \<Rightarrow> (Request \<Rightarrow> go_error + byte list) \<Rightarrow>
   (int \<Rightarrow> byte list \<Rightarrow> 'c \<Rightarrow> 'c \<times> go_error option) \<Rightarrow> (byte list \<Rightarrow> go_error + RPCError) \<Rightarrow>
   (byte list \<Rightarrow> go_error + Msg) \<Rightarrow> ('c Client \<Rightarrow> 'c Client) \<Rightarrow> go_error \<Rightarrow> 'c Client \<Rightarrow>
   'c Client \<times> (go_error + Msg option)" where
  "echo_call marshalMsg marshalReq send uerr uout wait ctxErr cli =
     Call marshalMsg marshalReq send uerr uout wait ctxErr Services_ECHO ''Send''
       \<lparr>em_Content = ''hello world!''\<rparr> [WithStream ''test:echo''] cli"

fun echo_calls ::
  "nat \<Rightarrow> ('c Client \<Rightarrow> 'c Client \<times> (go_error + Msg option)) \<Rightarrow> (go_error \<Rightarrow> Status option) \<Rightarrow> 'c Client \<Rightarrow>
   'c Client \<times> client_end option" where
  "echo_calls 0 call FromError cli = (cli, None)"
| "echo_calls (Suc n) call FromError cli =
     (case call cli of
        (cli1, Inl err) \<Rightarrow> (cli1, Some (ClientExit (handleError FromError err)))
      | (cli1, Inr _) \<Rightarrow> echo_calls n call FromError cli1)"

definition echo_client_main ::
  "nat \<Rightarrow> ('c Client \<Rightarrow> 'c Client \<times> (go_error + AuthorizeAck option)) \<Rightarrow>
   ('c Client \<Rightarrow> 'c Client \<times> (go_error + Msg option)) \<Rightarrow> (go_error \<Rightarrow> Status option) \<Rightarrow> 'c Client \<Rightarrow>
   'c Client \<times> client_end option" where
  "echo_client_main n authorize call FromError cli =
     (case authorize cli of
        (cli1, Inl err) \<Rightarrow> (cli1, Some (ClientExit (handleError FromError err)))
      | (cli1, Inr _) \<Rightarrow> echo_calls n call FromError cli1)"

section \<open>What a session lets the initializer do\<close>

lemma auth_goroutine_cases:
  assumes "auth_goroutine recv unmarshal fresh s = Ok (s1, rid, r)"
  obtains (failed) err where "recv s = Ok (s1, Inl err)" "rid = 1" "r = Inl err"
  | (received) req where "recv s = Ok (s1, Inr req)" "rid = req_Id req" "r = validToken unmarshal fresh req"
proof -
  obtain a x where rx: "recv s = Ok (a, x)" and "(case x of Inl err \<Rightarrow> Ok (a, 1, Inl err)
      | Inr req \<Rightarrow> Ok (a, req_Id req, validToken unmarshal fresh req)) = Ok (s1, rid, r)"
    using assms by (auto simp: auth_goroutine_def go_bind_Ok_iff)
  then show thesis using that rx by (cases x) auto
qed

lemma validToken_ok:
  assumes "validToken unmarshal fresh req = Inr (u, md)"
  obtains token where "req_Method req = ''Authorize''" "unmarshal (req_Data req) = Inr token" "at_Token token = valid_token"
    "u = fresh" "md = Map.empty"
  using assms by (auto simp: validToken_def split: if_splits sum.splits)

text \<open>The three ways in which the initializer ends without a panic.\<close>

lemma initializer_cases:
  assumes "initializer recv send marshalAck unmarshal fresh ctxDone s = Ok (s', res)"
  obtains (late) err where "ctxDone = Some err" "res = Inl err" "s' = s"
  | (refused) x err where "ctxDone = None" "recv s = Ok (s', x)" "res = Inl err"
  | (accepted) s1 req u md reply where "ctxDone = None" "recv s = Ok (s1, Inr req)" "validToken unmarshal fresh req = Inr (u, md)"
      "res = Inr (u, Some md)" "PackAuthorizeAck marshalAck \<lparr>aa_UserId = u\<rparr> = Inr reply"
      "send (reply\<lparr>rep_RequestId := req_Id req\<rparr>) s1 = (s', None)"
proof (cases ctxDone)
  case (Some err)
  then show thesis using assms late by (simp add: initializer_def)
next
  case None
  then obtain s1 rid r where g: "auth_goroutine recv unmarshal fresh s = Ok (s1, rid, r)"
    and k: "(case r of Inl err \<Rightarrow> Ok (s1, Inl err)
      | Inr (userID, md) \<Rightarrow> go_bind (mustReturn (PackAuthorizeAck marshalAck \<lparr>aa_UserId = userID\<rparr>)) (\<lambda>reply.
          case send (reply\<lparr>rep_RequestId := rid\<rparr>) s1 of
            (sess2, err) \<Rightarrow> go_bind (mustDo err) (\<lambda>_. Ok (sess2, Inr (userID, Some md))))) = Ok (s', res)"
    using assms by (auto simp: initializer_def go_bind_Ok_iff)
  obtain x where rx: "recv s = Ok (s1, x)" using g by (cases rule: auth_goroutine_cases) auto
  show thesis
  proof (cases r)
    case (Inl err)
    then show thesis using refused [OF None] rx k by auto
  next
    case (Inr um)
    then obtain u md where um: "r = Inr (u, md)" by (cases um) simp
    then obtain reply where reply: "PackAuthorizeAck marshalAck \<lparr>aa_UserId = u\<rparr> = Inr reply"
      "send (reply\<lparr>rep_RequestId := rid\<rparr>) s1 = (s', None)" "res = Inr (u, Some md)"
      using k by (auto simp: mustReturn_def mustDo_def go_bind_Ok_iff split: sum.splits prod.splits option.splits)
    from g show thesis
    proof (cases rule: auth_goroutine_cases)
      case (received req)
      then show thesis using accepted [OF None received(1), of u md reply] um reply by simp
    qed (use um in simp)
  qed
qed

text \<open>
  \<open>wrote s ds\<close> says that \<open>ds\<close> are the encoded replies the peer can read from \<open>s\<close>; a reply is
  written as a whole or not at all, and receiving writes nothing.
\<close>

locale session_io =
  fixes recv :: "'s \<Rightarrow> ('s \<times> (go_error + Request)) go"
    and send :: "Reply \<Rightarrow> 's \<Rightarrow> 's \<times> go_error option"
    and marshal :: "Reply \<Rightarrow> go_error + byte list" and wrote :: "'s \<Rightarrow> byte list list \<Rightarrow> bool"
  assumes recv_keeps: "recv s = Ok (s', r) \<Longrightarrow> wrote s ds \<Longrightarrow> wrote s' ds"
    and send_writes: "send reply s = (s', None) \<Longrightarrow> wrote s ds \<Longrightarrow> \<exists>d. marshal reply = Inr d \<and> wrote s' (ds @ [d])"
begin

lemma initializer_ack:
  assumes "initializer recv send marshalAck unmarshal fresh ctxDone s = Ok (s', Inr (userID, md))" and "wrote s ds"
  shows "\<exists>s1 req d d'. recv s = Ok (s1, Inr req) \<and> marshalAck \<lparr>aa_UserId = userID\<rparr> = Inr d \<and>
    marshal (empty_Reply\<lparr>rep_ServiceCode := 1, rep_Code := 1, rep_Data := d, rep_RequestId := req_Id req\<rparr>) = Inr d' \<and>
    wrote s' (ds @ [d'])"
  using assms(1)
proof (cases rule: initializer_cases)
  case (accepted s1 req u md' reply)
  obtain d' where "marshal (reply\<lparr>rep_RequestId := req_Id req\<rparr>) = Inr d'" "wrote s' (ds @ [d'])"
    using send_writes [OF accepted(6)] recv_keeps [OF accepted(2) assms(2)] by blast
  moreover obtain d where "marshalAck \<lparr>aa_UserId = userID\<rparr> = Inr d"
    "reply = empty_Reply\<lparr>rep_ServiceCode := 1, rep_Code := 1, rep_Data := d\<rparr>"
    using accepted(4,5) by (auto simp: PackAuthorizeAck_def split: sum.splits)
  ultimately show ?thesis using accepted(2) by auto
qed simp_all

text \<open>A client that is not accepted is sent nothing.\<close>

lemma initializer_silent:
  assumes "initializer recv send marshalAck unmarshal fresh ctxDone s = Ok (s', Inl err)" and "wrote s ds"
  shows "wrote s' ds"
  using assms(1) by (cases rule: initializer_cases) (use assms(2) recv_keeps in auto)

end

text \<open>The sessions of the TCP and websocket transports.\<close>

definition tcp_wrote :: "tcpSession \<Rightarrow> byte list list \<Rightarrow> bool" where
  "tcp_wrote ts ds \<longleftrightarrow> ts_written ts = concat (map frame ds)"

definition ws_wrote :: "wsSession \<Rightarrow> byte list list \<Rightarrow> bool" where
  "ws_wrote ws ds \<longleftrightarrow> ws_out ws = ds"

lemma tcp_recv_loop_written:
  "tcp_recv_loop growcap now ts msg = Ok (ts', msg', err) \<Longrightarrow> ts_written ts' = ts_written ts"
proof (induction growcap now ts msg arbitrary: ts' msg' err rule: tcp_recv_loop.induct)
  case (1 growcap now ts msg)
  obtain r1 msg1 e1 where x: "ReadMessage growcap (ts_r ts) msg = Ok (r1, msg1, e1)"
    using 1(2) tcp_recv_loop.simps [of growcap now ts msg] by (cases "ReadMessage growcap (ts_r ts) msg") auto
  let ?ts = "ts\<lparr>ts_r := r1, ts_lastRWTime := now\<rparr>"
  have eq: "tcp_recv_loop growcap now ts msg = (case e1 of
      Some err \<Rightarrow> Ok (ts\<lparr>ts_r := r1\<rparr>, msg1, Some (ErrWrap ''read message'' err))
    | None \<Rightarrow> if msg_Len msg1 > 0 then Ok (?ts, msg1, None) else tcp_recv_loop growcap now ?ts msg1)"
    using x by (subst tcp_recv_loop.simps) (simp add: Let_def split: option.split)
  show ?case
  proof (cases "e1 = None \<and> msg_Len msg1 = 0")
    case True
    then have "tcp_recv_loop growcap now ?ts msg1 = Ok (ts', msg', err)" using 1(2) eq by simp
    with 1(1) [of "(r1, msg1, e1)" r1 "(msg1, e1)" msg1 e1 ?ts] x True show ?thesis by simp
  next
    case False
    then show ?thesis using 1(2) eq by (auto split: option.splits if_splits)
  qed
qed

lemma tcp_Recv_written:
  assumes "tcp_Recv growcap unmarshal now ts msg = Ok (ts', r)"
  shows "ts_written ts' = ts_written ts"
proof -
  obtain a m e where l: "tcp_recv_loop growcap now ts msg = Ok (a, m, e)"
    using assms by (auto simp: tcp_Recv_def go_bind_Ok_iff)
  have "a = ts'"
  proof (cases e)
    case None
    then obtain data where "msg_Bytes m = Ok data" using assms l by (auto simp: tcp_Recv_def go_bind_Ok_iff)
    then show ?thesis using assms l None by (cases "unmarshal data") (simp_all add: tcp_Recv_def Let_def)
  qed (use assms l in \<open>simp add: tcp_Recv_def\<close>)
  then show ?thesis using tcp_recv_loop_written [OF l] by simp
qed

interpretation tcp_io: session_io "\<lambda>ts. tcp_Recv growcap unmarshal now ts msg" "tcp_Send marshal write now" marshal tcp_wrote
proof unfold_locales
  show "tcp_Recv growcap unmarshal now ts msg = Ok (ts', r) \<Longrightarrow> tcp_wrote ts ds \<Longrightarrow> tcp_wrote ts' ds" for ts ts' r ds
    by (simp add: tcp_wrote_def tcp_Recv_written)
  show "tcp_Send marshal write now reply ts = (ts', None) \<Longrightarrow> tcp_wrote ts ds \<Longrightarrow>
      \<exists>d. marshal reply = Inr d \<and> tcp_wrote ts' (ds @ [d])" for reply ts ts' ds
    by (auto simp: tcp_Send_def tcp_wrote_def split: option.splits sum.splits)
qed

interpretation ws_io: session_io "\<lambda>ws. Ok (ws_Recv isClose unmarshal now received ws)" "ws_Send marshal write now" marshal ws_wrote
proof unfold_locales
  show "Ok (ws_Recv isClose unmarshal now received ws) = Ok (ws', r) \<Longrightarrow> ws_wrote ws ds \<Longrightarrow> ws_wrote ws' ds" for ws ws' r ds
    by (auto simp: ws_Recv_def ws_wrote_def Let_def split: if_splits sum.splits prod.splits)
  show "ws_Send marshal write now reply ws = (ws', None) \<Longrightarrow> ws_wrote ws ds \<Longrightarrow>
      \<exists>d. marshal reply = Inr d \<and> ws_wrote ws' (ds @ [d])" for reply ws ws' ds
    by (auto simp: ws_Send_def ws_wrote_def split: option.splits sum.splits)
qed

section \<open>Properties\<close>

text \<open>
  C12. Only authorised clients are served: a session is connected by the proxy only when the first
  request of the client arrived in time, asked for \<open>Authorize\<close> and carried the valid token,
  and it then has the user id that was made for it.
\<close>

theorem only_authorized_connect:
  assumes "initializer recv send marshalAck unmarshal fresh ctxDone sess = Ok (sess', answer)"
    and "onConnect answer interceptor published s px = (px', Connected)" and "px_store px s = Some gs"
  shows "ctxDone = None \<and> sess_ID s px' = fresh \<and> (\<exists>sess1 req token. recv sess = Ok (sess1, Inr req) \<and>
    req_Method req = ''Authorize'' \<and> unmarshal (req_Data req) = Inr token \<and> at_Token token = valid_token)"
proof -
  obtain u md px1 where a: "answer = Inr (u, md)" and i: "connectInit answer interceptor s px = (px1, None)"
    and "sess_ID s px' = sess_ID s px1" using assms(2) by (rule onConnect_Connected)
  moreover have "sess_ID s px1 = u"
    using i a assms(3) by (auto simp: connectInit_def sess_ID_def Let_def split: if_splits)
  ultimately have id: "sess_ID s px' = u" by simp
  from assms(1) show ?thesis
  proof (cases rule: initializer_cases)
    case (accepted s1 req u' md' reply)
    then show ?thesis using id a by (auto elim!: validToken_ok)
  qed (use a in auto)
qed

text \<open>A session on which the valid token arrives and that stores what it is sent.\<close>

definition demo_auth_req :: Request where
  "demo_auth_req = empty_Request\<lparr>req_Id := 4, req_Method := ''Authorize'', req_Data := [7]\<rparr>"

definition demo_init :: "go_error option \<Rightarrow> (Reply list \<times> (go_error + string \<times> metadata option)) go" where
  "demo_init ctxDone = initializer (\<lambda>s. Ok (s, Inr demo_auth_req)) (\<lambda>r s. (s @ [r], None)) (\<lambda>ack. Inr [9])
     (\<lambda>d. Inr \<lparr>at_Token = valid_token\<rparr>) ''u9'' ctxDone []"

lemma demo_init_run:
  "demo_init None = Ok ([empty_Reply\<lparr>rep_RequestId := 4, rep_ServiceCode := 1, rep_Code := 1, rep_Data := [9]\<rparr>],
     Inr (''u9'', Some Map.empty))"
  by (simp add: demo_init_def initializer_def auth_goroutine_def validToken_def mustReturn_def mustDo_def
      PackAuthorizeAck_def demo_auth_req_def empty_Request_def)

theorem only_authorized_connect_witness:
  "\<exists>px'. onConnect (Inr (''u9'', Some Map.empty)) None None 0 (demo_accept 0 (init_Proxy ''gw'')) = (px', Connected) \<and>
     sess_ID 0 px' = ''u9''"
proof -
  obtain px' where run: "onConnect (Inr (''u9'', Some Map.empty)) None None 0 (demo_accept 0 (init_Proxy ''gw'')) = (px', Connected)"
    by (simp add: demo_run_simps)
  have "px_store (demo_accept 0 (init_Proxy ''gw'')) 0 = Some demo_gsession" by (simp add: demo_run_simps)
  from only_authorized_connect [OF demo_init_run [unfolded demo_init_def] run this] run show ?thesis by blast
qed

text \<open>
  When the initializer panics: the client's token is accepted, and either the answer cannot
  be encoded or sending it fails; the session is then neither connected nor closed by the
  proxy. Without a panic of the session itself it never panics for a client that is not
  authorised.
\<close>

theorem initializer_panics_iff:
  assumes "\<And>p. recv sess \<noteq> Panic p"
  shows "(\<exists>p. initializer recv send marshalAck unmarshal fresh ctxDone sess = Panic p) \<longleftrightarrow>
    ctxDone = None \<and> (\<exists>sess1 req md. recv sess = Ok (sess1, Inr req) \<and> validToken unmarshal fresh req = Inr (fresh, md) \<and>
      (case PackAuthorizeAck marshalAck \<lparr>aa_UserId = fresh\<rparr> of
         Inl err \<Rightarrow> True | Inr reply \<Rightarrow> snd (send (reply\<lparr>rep_RequestId := req_Id req\<rparr>) sess1) \<noteq> None))"
proof (cases ctxDone)
  case None
  show ?thesis
  proof (cases "recv sess")
    case (Ok x)
    obtain s1 r where x: "x = (s1, r)" by (cases x)
    show ?thesis
    proof (cases r)
      case (Inl err)
      then show ?thesis using None Ok x by (simp add: initializer_def auth_goroutine_def)
    next
      case (Inr req)
      show ?thesis
      proof (cases "validToken unmarshal fresh req")
        case Inl': (Inl err)
        then show ?thesis using None Ok x Inr by (simp add: initializer_def auth_goroutine_def)
      next
        case Inr': (Inr um)
        then have um: "um = (fresh, Map.empty)" by (cases um) (auto elim!: validToken_ok)
        then show ?thesis
          using None Ok x Inr Inr'
          by (cases "PackAuthorizeAck marshalAck \<lparr>aa_UserId = fresh\<rparr>")
            (auto simp: initializer_def auth_goroutine_def mustReturn_def mustDo_def split: prod.splits option.splits)
      qed
    qed
  next
    case (Error e)
    then show ?thesis using None by (simp add: initializer_def auth_goroutine_def)
  qed (use assms in blast)
qed (simp add: initializer_def)

theorem initializer_panics_iff_witness:
  "\<exists>p. initializer (\<lambda>s. Ok (s, Inr demo_auth_req)) (\<lambda>r s. (s, Some ErrClosed)) (\<lambda>ack. Inr [9])
     (\<lambda>d. Inr \<lparr>at_Token = valid_token\<rparr>) ''u9'' None () = Panic p"
  using initializer_panics_iff [of "\<lambda>s. Ok (s, Inr demo_auth_req)" "()" "\<lambda>r s. (s, Some ErrClosed)" "\<lambda>ack. Inr [9]"
      "\<lambda>d. Inr \<lparr>at_Token = valid_token\<rparr>" "''u9''" None]
  by (simp add: validToken_def demo_auth_req_def empty_Request_def PackAuthorizeAck_def)

text \<open>
  Echoes: what the service answers to an encoded message unpacks, for the code of the echo
  service, to the same message.
\<close>

theorem echo_back:
  assumes "marshal msg = Inr d" and "unmarshal d = Inr msg"
  shows "\<exists>reply. echo_serve marshal unmarshal d = Inr reply \<and>
    UnpackReply (RegisterReplyType Services_ECHO 1 unmarshal types) (reply\<lparr>rep_ServiceCode := Services_ECHO\<rparr>) = Some (Inr msg)"
  using assms
  by (simp add: echo_serve_def PackReply_def echo_Send_def lo_Assign_def Echo_MethodReplyCodes_def NewReply_def
      UnpackReply_def GetReplyType_def RegisterReplyType_def)

theorem echo_back_witness:
  "\<exists>reply. echo_serve (\<lambda>m. Inr [1]) (\<lambda>d. Inr \<lparr>em_Content = ''hi''\<rparr>) [1] = Inr reply \<and>
    UnpackReply (RegisterReplyType 2 1 (\<lambda>d. Inr \<lparr>em_Content = ''hi''\<rparr>) Map.empty) (reply\<lparr>rep_ServiceCode := 2\<rparr>) =
      Some (Inr \<lparr>em_Content = ''hi''\<rparr>)"
  using echo_back [of "\<lambda>m. Inr [1]" "\<lparr>em_Content = ''hi''\<rparr>" "[1]" "\<lambda>d. Inr \<lparr>em_Content = ''hi''\<rparr>" Map.empty]
  by (simp add: Services_ECHO_def)

end
