(* ===== verification/Spec2Isabelle.thy ===== *)
theory Spec2Isabelle
  imports Gateway_Service Multicast_Bus Gateway_Client Gateway_Cluster Gateway_Quic Node_Runtime Runtime_Metrics Protoc_Gen Nh_Logger
    Example_Chat Example_Echo
begin

text \<open>
  \<^bold>\<open>nodehub\<close> is a Go framework for clusters of game and chat servers. Gateway nodes hold the
  connections of clients and forward their requests over gRPC to service nodes, which find
  each other through etcd; replies, pushed messages and cluster events travel back through
  message queues. This development models the program under \<open>src/\<close> as executable
  definitions, one theory per component, and proves the properties the components owe each
  other. This theory holds the properties that span the components.

  \<^bold>\<open>How the parts interact.\<close>
  A node (\<open>src/node.go\<close>) starts its components, lets each complete the node's entry and puts
  the entry into etcd through the registry (\<open>src/cluster/registry.go\<close>). Every node watches
  etcd and feeds the entries to its resolver (\<open>src/cluster/resolver.go\<close>), which keeps, per
  service, the nodes that may be used and a balancer (\<open>src/cluster/balancer.go\<close>). A gateway
  node runs the proxy (\<open>src/component/gateway/proxy.go\<close>), which accepts sessions from a
  transport (\<open>tcp.go\<close>, \<open>websocket.go\<close>, \<open>quic.go\<close>), initialises them, and for each request asks
  the route table (\<open>state.go\<close>) and the registry for the upstream node, makes the call and
  sends the reply. Messages on the wire are framed by \<open>src/internal/codec/message.go\<close>; the
  other end is \<open>src/component/gateway/client/client.go\<close>. Gateways announce users on the
  event bus (\<open>src/event\<close>) and deliver messages of the multicast bus (\<open>src/multicast\<close>), both
  over the queues of \<open>src/internal/mq\<close>. Service nodes run the gRPC server of
  \<open>src/component/rpc\<close>; gateways offer the management service of \<open>gateway/grpc.go\<close>.
  The programs under \<open>src/example\<close>, a chat room and an echo service, are clusters built from
  these parts.

  \<^bold>\<open>Theories.\<close>
  \<^item> \<open>Nh_Prelude\<close>: errors (\<open>go_error\<close>), results (\<open>'a go\<close>: a value, an error or a panic), Go's
    integer division, indexing, iteration over maps (\<open>map_range\<close> with the order of the visit
    as an argument, \<open>enumerates\<close>), ULIDs with their order. \<open>Go_Netip\<close>: the address parser of
    \<open>net/netip\<close> and \<open>math/big\<close> as far as validation and hashing use them.
  \<^item> \<open>Cluster_Entry\<close> (\<open>entry.go\<close>): node entries and \<open>Validate\<close>. \<open>Cluster_Balancer\<close>
    (\<open>balancer.go\<close>): the policy registry and six balancers behind the locale of a \<open>Pick\<close>
    that chooses from the given nodes; shares of round robin, and when the hash balancer
    panics. \<open>Cluster_Resolver\<close> (\<open>resolver.go\<close>): \<open>Update\<close>, \<open>Remove\<close>, allocation, connections;
    the invariant that its tables describe exactly the known nodes. \<open>Cluster_Registry\<close>
    (\<open>registry.go\<close>, \<open>event.go\<close>): leases, \<open>Put\<close>, the watcher with retries and full and
    periodic synchronisation, against a history of etcd as the abstract specification
    (\<open>watcher_tracks_etcd\<close> is the refinement; \<open>watch_told\<close> also keeps what was reported).
  \<^item> \<open>Codec_Message\<close> (\<open>message.go\<close>): frames, the reader with its reused buffer and the pool;
    round trip, equivalence with a decoder without buffer, safety on arbitrary input, and the
    well-formedness of every buffer in use. The limit on messages is the variable that
    \<open>SetMaxMessageSize\<close> assigns; \<open>ReadMessage\<close> is the reader at its default.
    \<open>Nh_Messages\<close> (\<open>proto/nh\<close>): the messages and helpers.
  \<^item> \<open>Gateway_State\<close> (\<open>state.go\<close>), \<open>Gateway_Session\<close> and \<open>Gateway_Transport\<close> (\<open>tcp.go\<close>,
    \<open>websocket.go\<close>, \<open>quic.go\<close>; the interfaces \<open>Transporter\<close> and \<open>Session\<close> are the locales
    \<open>transporter\<close> and \<open>gw_session\<close>), \<open>Gateway_Proxy\<close> (\<open>options.go\<close> and the request path of
    \<open>proxy.go\<close>: \<open>getUpstream\<close>, \<open>handleRequest\<close>, multicast delivery), \<open>Stream_Workers\<close> (the
    worker goroutines of request streams and of multicast streams; order and progress),
    \<open>Gateway_Lifecycle\<close> (the rest of \<open>proxy.go\<close>: hub, connect, disconnect, cleanup jobs,
    heartbeat, cluster events, stop, with the step relation \<open>gw_step\<close>, the states \<open>gw_reach\<close>
    it reaches together with events, and their invariants, of sessions and of cleanup jobs;
    \<open>spares\<close> are the steps that leave a user's routes alone), \<open>Gateway_Cluster\<close> (any number of
    gateways with the event bus between them, as the states \<open>cluster_reach\<close>, in which a connect
    is announced in one step and stored in a later one; what a step
    announces and how announcements are handled), \<open>Gateway_Quic\<close> (the goroutines of a QUIC
    session as the states \<open>quic_reach\<close>, against the streams of the client),
    \<open>Gateway_Service\<close> (\<open>grpc.go\<close>), \<open>Gateway_Client\<close> (\<open>client.go\<close>, whose connections are
    interpretations of the locale \<open>client_transport\<close>).
  \<^item> \<open>Message_Queue\<close> (\<open>internal/mq\<close>; the interface \<open>Queue\<close> is the locale \<open>mq_queue\<close>),
    \<open>Event_Bus\<close> (\<open>event\<close>), \<open>Multicast_Bus\<close> (\<open>multicast\<close>; \<open>mc_run\<close> are the runs of a subscription).
  \<^item> \<open>Rpc_Server\<close> (\<open>component/rpc\<close>), \<open>Node_Runtime\<close> (\<open>node.go\<close>, \<open>node_service.go\<close>,
    \<open>gateway/metrics/server.go\<close>), \<open>Runtime_Metrics\<close> (\<open>internal/metrics\<close>, the request log and
    \<open>handleSession\<close> as a whole),
    \<open>Nh_Logger\<close> (\<open>logger\<close>), \<open>Protoc_Gen\<close> (\<open>cmd/protoc-gen-go-nodehub\<close>: its \<open>main\<close>, reading the
    codes and printing the tables, and that the tables fit \<open>PackReply\<close> and \<open>UnpackReply\<close>).
  \<^item> \<open>Example_Base\<close>: what the example programs share. \<open>Example_Chat\<close> (\<open>example/chat\<close>): the room
    service over the locale \<open>publisher\<close>, interpreted on the multicast bus, with its runs
    \<open>room_run\<close>, and the programs around it; who is a member, who hears what, and that user
    ids are unique within a gateway only. \<open>Example_Echo\<close> (\<open>example/echo\<close>): the authorising
    initializer over the locale \<open>session_io\<close>, interpreted on TCP and websocket sessions, the
    echo service and the client; the tables that the code generator made for them are checked
    against \<open>Protoc_Gen\<close>.

  \<^bold>\<open>Conventions.\<close> A struct is a record, its pointer methods take and return it. Code outside
  the repository is an argument: etcd's answers, dialling, the remote call, protobuf and JSON
  codecs, hashes, random numbers, the clock, fresh identifiers. What a property needs of
  them is a hypothesis of its statement (a codec undoes itself on the messages concerned, a
  range visits every key). Panics are values of the result type. Nondeterminism of Go is an
  argument too: the order of a map's range, which case of a select is taken, the schedule
  of goroutines.

  \<^bold>\<open>Bounds.\<close> \<open>read_msgs\<close>, \<open>tcp_recvs\<close> and \<open>tcp_replyStream\<close> take the number of rounds; their
  properties hold for the number of messages concerned or for any larger number. \<open>Recv\<close>
  itself terminates because every frame consumes input. \<open>stopAll\<close> takes a schedule and
  \<open>streams_drain\<close> states how many turns of each worker are enough. Integers keep their
  width where the code depends on it: request numbers, frame lengths and the session counter are 32-bit words,
  hashes 64-bit words, weights and indices use Go's signed arithmetic; times are integers
  in nanoseconds.

  \<^bold>\<open>What the properties show.\<close> For requests: only those that name a public service are
  forwarded, and to that service unless the client's method has a component \<open>..\<close>
  (\<open>method_leaves_service\<close> reaches a private one that way); errors do not leak,
  at most one reply is sent and a call returns its own, stateful routes stick, streams are
  in order and drain, requests of a service arrive in order over QUIC. For the cluster view:
  the watcher and the resolver follow etcd under any delay, repetition or loss of events and
  never fall behind what they were told; allocated nodes are registered and up, where nodes
  keep their services. For sessions: one open session per user in a gateway; in the whole
  cluster, once the announcements are handled, a second one only when an announcement was
  handled between announcing and storing a session; counting that is exact below \<open>2 ^ 31\<close>
  sessions, routes that survive a short absence, cleanup on disconnect, heartbeat and connects
  elsewhere. For nodes: a gateway registers a valid entry, state changes are
  atomic, start is ordered and stop is not. For the examples: only authorised clients are
  connected and their calls return, the room holds exactly those who joined and did not
  leave, and its news reach them and nobody else. Where the code departs from its intention,
  the theorem states exactly when: connects that race, announcements that cross or come
  before the session is stored, hash balancing of negative values,
  \<open>CleanNode\<close> with two services, busy workers that are closed, timers that hang a connect for ever.

  \<^bold>\<open>Assumptions to note.\<close> In \<open>gw_reach\<close> a connect is one step: connects happen one at a time
  and no other goroutine runs in between; \<open>connect_race\<close> shows what happens otherwise. In
  \<open>cluster_reach\<close> a connect is two steps, up to \<open>Publish\<close> and from \<open>Store\<close> on, with anything in
  between but a second connect of the same user to the same gateway;
  \<open>announced_before_stored\<close> shows that two gateways can then both keep a session of a user, and
  \<open>cluster_single_session\<close> that this is the only way. The bus of \<open>cluster_reach\<close> delays and reorders
  announcements and loses none; \<open>announcements_cross\<close> shows that the order still matters.
  The order of streams is proved for tickers
  that close idle workers only; \<open>busy_worker_closed\<close> shows what happens otherwise.
  The client's receive loop acts on a call only after \<open>Call\<close> has registered it: the
  end-to-end properties follow the runs in which the reply comes while the call waits, and
  \<open>early_reply_lost\<close> is the other one. A write of the client that fails leaves nothing on the
  wire, although the operating system may have sent a part of the frame; the stream is
  not used for whole messages after that.
  Sessions and the end-to-end properties read with the default limit on messages, which
  \<open>SetMaxMessageSize\<close> could change before the gateway starts. A range over the members of the
  room sees the table of one moment. The echo client's three concurrent calls of a round are
  followed one after the other.

  \<^bold>\<open>Not modelled.\<close> The reflection code of \<open>*.pb.go\<close> is generated and the messages are records
  here; log lines are recorded only where the
  code decides what is logged. HTTP serving, TLS, the QUIC and
  websocket protocols and Prometheus' exposition belong to the libraries. Memory is not
  modelled: goroutines interleave at the steps of the step relations above, which are
  coarser than single loads and stores; where that hides a race of the code, it is named among
  the assumptions.
\<close>

section \<open>A call from end to end\<close>

text \<open>
  One round of \<open>handleSession\<close> over a TCP session (\<open>src/component/gateway/proxy.go\<close>): the
  next request is received, handled at once (as one without a stream is), and the replies
  are sent; the result is the request, what handling it did, and the session.
\<close>

definition serve_request ::
  "(nat \<Rightarrow> nat) \<Rightarrow> (byte list \<Rightarrow> go_error + Request) \<Rightarrow> (Reply \<Rightarrow> go_error + byte list) \<Rightarrow> int \<Rightarrow> gw_env \<Rightarrow> string \<Rightarrow>
   go_error + bool \<Rightarrow> sess_info \<Rightarrow> Registry \<Rightarrow> stateTable \<Rightarrow> Message \<Rightarrow> tcpSession \<Rightarrow> (Request \<times> hr_result \<times> tcpSession) option" where
  "serve_request growcap unmarshal marshal now env gw ic sess reg st msg ts =
     (case tcp_Recv growcap unmarshal now ts msg of
        Ok (ts1, Inr req) \<Rightarrow>
          (case handleRequest env gw ic sess req reg st of
             Ok res \<Rightarrow> Some (req, res, tcp_sends marshal now (hr_sent res) ts1)
           | _ \<Rightarrow> None)
      | _ \<Rightarrow> None)"

text \<open>\<open>receiveLoop\<close> of the client over the replies its connection delivers.\<close>

fun receiveLoop :: "Reply list \<Rightarrow> 'c Client \<Rightarrow> 'c Client" where
  "receiveLoop [] cli = cli"
| "receiveLoop (reply # replies) cli =
     (case cli_receive True reply cli of RecvOk cli' \<Rightarrow> receiveLoop replies cli' | _ \<Rightarrow> cli)"

definition client_reads ::
  "nat \<Rightarrow> (nat \<Rightarrow> nat) \<Rightarrow> (byte list \<Rightarrow> go_error + Reply) \<Rightarrow> Message \<Rightarrow> byte list \<Rightarrow> 'c Client \<Rightarrow> 'c Client" where
  "client_reads rounds growcap unmarshal msg wire cli =
     receiveLoop (fst (tcp_replyStream rounds growcap unmarshal \<lparr>rd_bytes = wire, rd_err = EOF\<rparr> msg)) cli"

text \<open>The three legs: the request arrives, the reply arrives, the waiting call takes it.\<close>

lemma request_arrives:
  assumes "tcp_sent (cl_conn cli) []"
    and "cli_send marshalIn marshalReq (tcpc_send w) svc m input opts cli = (cli1, Some req, None)"
    and "marshalReq req = Inr d" and "d \<noteq> []" and "int (length d) \<le> MaxMessageSize" and "unmarshal d = Inr req"
    and "rd_bytes (ts_r ts) = tc_out (cl_conn cli1)" and "msg_ok msg" and "\<And>s. s \<le> growcap s"
  shows "\<exists>ts1. tcp_Recv growcap unmarshal now ts msg = Ok (ts1, Inr req) \<and> ts_written ts1 = ts_written ts"
proof -
  have "tcp_sent (cl_conn cli1) ([] @ [d])" by (rule tcp_tr.cli_send_sent [OF assms(1-4)])
  then obtain fs where fs: "rd_bytes (ts_r ts) = concat (map frame fs)" "filter (\<lambda>d. d \<noteq> []) fs = [d]"
    using assms(7) by (auto simp: tcp_sent_def)
  then obtain k fs' where "fs = replicate k [] @ d # fs'" using filter_first by blast
  then have "rd_bytes (ts_r ts) = concat (replicate k (frame [])) @ frame d @ concat (map frame fs')"
    using fs(1) by (simp add: map_replicate_const)
  from tcp_Recv_frame [where unmarshal = unmarshal and growcap = growcap and now = now, OF assms(8,9,4,5) this assms(6)]
  show ?thesis by simp
qed

lemma reply_arrives:
  assumes "marshal reply = Inr d" and "int (length d) \<le> MaxMessageSize" and "unmarshal d = Inr reply"
    and "ts_written ts = []" and "msg_ok msg" and "\<And>s. s \<le> growcap s"
  shows "fst (tcp_replyStream (Suc n) growcap unmarshal
    \<lparr>rd_bytes = ts_written (tcp_sends marshal now [reply] ts), rd_err = EOF\<rparr> msg) = [reply]"
proof -
  let ?r = "\<lparr>rd_bytes = ts_written (tcp_sends marshal now [reply] ts), rd_err = EOF\<rparr>"
  have "rd_bytes ?r = frame d @ []"
    using assms(1,4) by (simp add: tcp_Send_def SendReply_def SendBytes_frame)
  then obtain msg' where read: "ReadMessage growcap ?r msg = Ok (?r\<lparr>rd_bytes := []\<rparr>, msg', None)"
    "msg_ok msg'" "msg_Bytes msg' = Ok d"
    using ReadMessage_frame [OF assms(5) _ assms(2,6)] by blast
  have "fst (tcp_replyStream n growcap unmarshal (?r\<lparr>rd_bytes := []\<rparr>) msg') = []"
    using read(2) by (cases n) (simp_all add: ReadMessage_def ReadFull_def SizeLen_def msg_ok_def)
  then obtain e where "tcp_replyStream n growcap unmarshal (?r\<lparr>rd_bytes := []\<rparr>) msg' = ([], e)"
    by (metis prod.collapse)
  then show ?thesis using read(1,3) assms(3) by simp
qed

lemma reply_taken:
  assumes "cli_send marshalIn marshalReq send svc m input opts cli = (cli1, Some req, None)" and "\<not> req_NoReply req"
    and "rep_RequestId reply = req_Id req"
  shows "snd (Call marshalIn marshalReq send uerr uout (receiveLoop [reply]) ctxErr svc m input opts cli) =
    call_result uerr uout reply"
  using assms by (simp add: Call_def Let_def cli_receive_def call_register_def)

lemma call_served:
  assumes "tcp_sent (cl_conn cli) []"
    and "cli_send marshalIn marshalReq (tcpc_send w) svc m input opts cli = (cli1, Some req, None)"
    and "marshalReq req = Inr d" and "d \<noteq> []" and "int (length d) \<le> MaxMessageSize" and "unmarshal d = Inr req"
    and "\<not> req_NoReply req" and "rd_bytes (ts_r ts) = tc_out (cl_conn cli1)" and "ts_written ts = []"
    and "handleRequest env gw ic sess req reg st = Ok res" and "hr_sent res = [reply]" and "rep_RequestId reply = req_Id req"
    and "marshalRep reply = Inr d'" and "int (length d') \<le> MaxMessageSize" and "unmarshalRep d' = Inr reply"
    and "msg_ok msg" and "msg_ok cmsg" and "\<And>s. s \<le> growcap s"
  shows "\<exists>ts'. serve_request growcap unmarshal marshalRep now env gw ic sess reg st msg ts = Some (req, res, ts') \<and>
    snd (Call marshalIn marshalReq (tcpc_send w) uerr uout (client_reads (Suc n) growcap unmarshalRep cmsg (ts_written ts'))
           ctxErr svc m input opts cli) = call_result uerr uout reply"
proof -
  obtain ts1 where ts1: "tcp_Recv growcap unmarshal now ts msg = Ok (ts1, Inr req)" "ts_written ts1 = []"
    using request_arrives [where growcap = growcap and unmarshal = unmarshal and marshalReq = marshalReq and now = now,
        OF assms(1-6,8,16,18)] assms(9) by auto
  let ?ts' = "tcp_sends marshalRep now [reply] ts1"
  have "serve_request growcap unmarshal marshalRep now env gw ic sess reg st msg ts = Some (req, res, ?ts')"
    using ts1(1) assms(10,11) by (simp add: serve_request_def)
  moreover have "client_reads (Suc n) growcap unmarshalRep cmsg (ts_written ?ts') = (receiveLoop [reply] :: tcpConn Client \<Rightarrow> _)"
    unfolding client_reads_def
      reply_arrives [where marshal = marshalRep and unmarshal = unmarshalRep and growcap = growcap,
        OF assms(13-15) ts1(2) assms(17,18)]
    by (rule ext) (rule refl)
  ultimately show ?thesis using reply_taken [OF assms(2,7,12)] by auto
qed

lemma call_completes:
  assumes "tcp_sent (cl_conn cli) []"
    and "cli_send marshalIn marshalReq (tcpc_send w) svc m input opts cli = (cli1, Some req, None)"
    and "marshalReq req = Inr d" and "d \<noteq> []" and "int (length d) \<le> MaxMessageSize" and "unmarshal d = Inr req"
    and "\<not> req_NoReply req" and "req_ServiceCode req \<noteq> 0"
    and "rd_bytes (ts_r ts) = tc_out (cl_conn cli1)" and "ts_written ts = []"
    and "handleRequest env gw ic sess req reg st = Ok res" and "hr_err res = None"
    and "\<forall>r \<in> set (hr_sent res). \<exists>d'. marshalRep r = Inr d' \<and> int (length d') \<le> MaxMessageSize \<and> unmarshalRep d' = Inr r"
    and "msg_ok msg" and "msg_ok cmsg" and "\<And>s. s \<le> growcap s"
  shows "\<exists>ts' conn meth md out.
    serve_request growcap unmarshal marshalRep now env gw ic sess reg st msg ts = Some (req, res, ts') \<and>
    hr_call res = Some (conn, meth, md, req_Data req) \<and> env_Invoke env conn meth md (req_Data req) = Inr out \<and>
    snd (Call marshalIn marshalReq (tcpc_send w) uerr uout (client_reads (Suc n) growcap unmarshalRep cmsg (ts_written ts'))
           ctxErr svc m input opts cli) =
      (case uout (rep_Data out) of Inl e \<Rightarrow> Inl (ErrWrap ''unmarshal reply'' e) | Inr v \<Rightarrow> Inr (Some v))"
proof -
  obtain fr where fr: "forwardRequest env gw ic sess req reg st = Ok fr" "hr_call res = hr_call fr"
    "hr_err fr = None" "hr_sent res = hr_sent fr"
    using assms(11) by (rule handleRequest_Ok) (use assms(12) in auto)
  from fr(1) show ?thesis
  proof (cases rule: hr_cases)
    case (answered desc conn out)
    define reply where "reply = out\<lparr>rep_RequestId := req_Id req, rep_ServiceCode := req_ServiceCode req\<rparr>"
    have s: "hr_sent res = [reply]" "rep_RequestId reply = req_Id req"
      using answered(8) fr(4) assms(7) by (simp_all add: reply_def)
    then obtain d' where d': "marshalRep reply = Inr d'" "int (length d') \<le> MaxMessageSize" "unmarshalRep d' = Inr reply"
      using assms(13) by auto
    have "call_result uerr uout reply =
        (case uout (rep_Data out) of Inl e \<Rightarrow> Inl (ErrWrap ''unmarshal reply'' e) | Inr v \<Rightarrow> Inr (Some v))"
      using assms(8) by (simp add: call_result_def reply_def)
    then show ?thesis
      using call_served [where growcap = growcap and unmarshal = unmarshal and marshalReq = marshalReq and
          marshalRep = marshalRep and unmarshalRep = unmarshalRep and now = now and uerr = uerr and uout = uout and
          n = n and ctxErr = ctxErr, OF assms(1-7,9-11) s d' assms(14-16)] answered(5,6) fr(2)
      by auto
  qed (use fr(3) in auto)
qed

text \<open>
  C5. A call works from end to end: when a client calls a method over a fresh TCP connection and
  handling its request on the gateway succeeds, then the gateway called the service with the
  client's data, and the client's call returns what it decodes from the service's reply.
\<close>

theorem call_end_to_end:
  assumes "tcp_sent (cl_conn cli) []"
    and "cli_send marshalIn marshalReq (tcpc_send w) svc m input opts cli = (cli1, Some req, None)"
    and "marshalReq req = Inr d" and "d \<noteq> []" and "int (length d) \<le> MaxMessageSize" and "unmarshal d = Inr req"
    and "\<not> req_NoReply req" and "req_ServiceCode req \<noteq> 0"
    and "rd_bytes (ts_r ts) = tc_out (cl_conn cli1)" and "ts_written ts = []"
    and "handleRequest env gw ic sess req reg st = Ok res" and "hr_err res = None"
    and "\<forall>r \<in> set (hr_sent res). \<exists>d'. marshalRep r = Inr d' \<and> int (length d') \<le> MaxMessageSize \<and> unmarshalRep d' = Inr r"
    and "msg_ok msg" and "msg_ok cmsg" and "\<And>s. s \<le> growcap s"
  shows "\<exists>ts' conn meth md out.
    serve_request growcap unmarshal marshalRep now env gw ic sess reg st msg ts = Some (req, res, ts') \<and>
    hr_call res = Some (conn, meth, md, req_Data req) \<and> env_Invoke env conn meth md (req_Data req) = Inr out \<and>
    snd (Call marshalIn marshalReq (tcpc_send w) uerr uout (client_reads (Suc n) growcap unmarshalRep cmsg (ts_written ts'))
           ctxErr svc m input opts cli) =
      (case uout (rep_Data out) of Inl e \<Rightarrow> Inl (ErrWrap ''unmarshal reply'' e) | Inr v \<Rightarrow> Inr (Some v))"
  using call_completes [where growcap = growcap and unmarshal = unmarshal and marshalReq = marshalReq and
      marshalRep = marshalRep and unmarshalRep = unmarshalRep and now = now and uerr = uerr and uout = uout and
      n = n and ctxErr = ctxErr, OF assms] .

text \<open>A concrete call: the ninth request of a client, to the service of \<open>demo_registry\<close>.\<close>

definition demo_caller :: "tcpConn Client" where
  "demo_caller = demo_client\<lparr>cl_seq := 8\<rparr>"

definition demo_send :: "string \<Rightarrow> tcpConn Client \<times> Request option \<times> go_error option" where
  "demo_send meth = cli_send (\<lambda>i. Inr [1]) (\<lambda>r. Inr [8, 7]) (tcpc_send (\<lambda>_. None)) 7 meth () [] demo_caller"

definition demo_reply :: Reply where
  "demo_reply = empty_Reply\<lparr>rep_RequestId := 9, rep_ServiceCode := 7, rep_Code := 3, rep_Data := [1]\<rparr>"

lemma demo_send_run: "\<exists>cli1. demo_send meth = (cli1, Some (demo_req meth), None)"
  by (simp add: demo_send_def cli_send_def demo_caller_def demo_client_def newClient_def tcpc_send_def SendBytes_frame
      demo_req_def empty_Request_def)

lemma demo_caller_sent: "tcp_sent (cl_conn demo_caller) []"
  unfolding tcp_sent_def by (intro exI [of _ "[[]]"]) (simp add: demo_caller_def demo_client_def newClient_def)

lemma demo_req_plain [simp]:
  "\<not> req_NoReply (demo_req m)" "req_ServiceCode (demo_req m) = 7" "req_Data (demo_req m) = [1]" "req_Id (demo_req m) = 9"
  "req_Method (demo_req m) = m"
  by (simp_all add: demo_req_def empty_Request_def)

lemma demo_handled_Say:
  "\<exists>res. handleRequest demo_env ''gw'' (Inr True) demo_sess (demo_req ''Say'') demo_registry Map.empty = Ok res \<and>
     hr_err res = None \<and> hr_sent res = [demo_reply]"
proof -
  obtain reg' where "getUpstream demo_env demo_sess (demo_req ''Say'') demo_desc demo_registry Map.empty = (reg', Map.empty, Ok 5)"
    using demo_upstream by blast
  moreover have "env_Invoke demo_env 5 ''/echo.Echo/Say'' md [1] = Inr (empty_Reply\<lparr>rep_Code := 3, rep_Data := [1]\<rparr>)" for md
    by (simp add: demo_env_def)
  moreover have "newEmptyMessage demo_env [1] = None" by (simp add: newEmptyMessage_def demo_env_def)
  ultimately show ?thesis
    using demo_desc_found by (simp add: handleRequest_def forwardRequest_def Let_def demo_method demo_reply_def empty_Reply_def)
qed

theorem call_end_to_end_witness:
  "\<exists>cli1 ts' res. demo_send ''Say'' = (cli1, Some (demo_req ''Say''), None) \<and>
    serve_request id (\<lambda>_. Inr (demo_req ''Say'')) (\<lambda>_. Inr [5]) 3 demo_env ''gw'' (Inr True) demo_sess demo_registry Map.empty
      pool_msg (newTCPSession ''s'' 0 \<lparr>rd_bytes = tc_out (cl_conn cli1), rd_err = EOF\<rparr> [] []) =
      Some (demo_req ''Say'', res, ts') \<and>
    snd (Call (\<lambda>i. Inr [1]) (\<lambda>r. Inr [8, 7]) (tcpc_send (\<lambda>_. None)) (\<lambda>d. Inl EOF) Inr
      (client_reads 2 id (\<lambda>_. Inr demo_reply) pool_msg (ts_written ts')) CtxDeadlineExceeded 7 ''Say'' () [] demo_caller) =
      Inr (Some [1])"
proof -
  obtain cli1 where send: "demo_send ''Say'' = (cli1, Some (demo_req ''Say''), None)" using demo_send_run by blast
  obtain res where res: "handleRequest demo_env ''gw'' (Inr True) demo_sess (demo_req ''Say'') demo_registry Map.empty = Ok res"
    "hr_err res = None" "hr_sent res = [demo_reply]" using demo_handled_Say by blast
  let ?ts = "newTCPSession ''s'' 0 \<lparr>rd_bytes = tc_out (cl_conn cli1), rd_err = EOF\<rparr> [] []"
  have "\<exists>ts' conn meth md out.
    serve_request id (\<lambda>_. Inr (demo_req ''Say'')) (\<lambda>_. Inr [5]) 3 demo_env ''gw'' (Inr True) demo_sess demo_registry Map.empty
      pool_msg ?ts = Some (demo_req ''Say'', res, ts') \<and>
    hr_call res = Some (conn, meth, md, req_Data (demo_req ''Say'')) \<and>
    env_Invoke demo_env conn meth md (req_Data (demo_req ''Say'')) = Inr out \<and>
    snd (Call (\<lambda>i. Inr [1]) (\<lambda>r. Inr [8, 7]) (tcpc_send (\<lambda>_. None)) (\<lambda>d. Inl EOF) Inr
      (client_reads (Suc 1) id (\<lambda>_. Inr demo_reply) pool_msg (ts_written ts')) CtxDeadlineExceeded 7 ''Say'' () [] demo_caller) =
      (case Inr (rep_Data out) of Inl e \<Rightarrow> Inl (ErrWrap ''unmarshal reply'' e) | Inr v \<Rightarrow> Inr (Some v))"
    by (rule call_end_to_end [OF demo_caller_sent send [unfolded demo_send_def], where d = "[8, 7]"])
      (use res in \<open>simp_all add: MaxMessageSize_def newTCPSession_def\<close>)
  then obtain ts' conn meth md out where w:
    "serve_request id (\<lambda>_. Inr (demo_req ''Say'')) (\<lambda>_. Inr [5]) 3 demo_env ''gw'' (Inr True) demo_sess demo_registry Map.empty
      pool_msg ?ts = Some (demo_req ''Say'', res, ts')"
    "env_Invoke demo_env conn meth md [1] = Inr out"
    "snd (Call (\<lambda>i. Inr [1]) (\<lambda>r. Inr [8, 7]) (tcpc_send (\<lambda>_. None)) (\<lambda>d. Inl EOF) Inr
      (client_reads 2 id (\<lambda>_. Inr demo_reply) pool_msg (ts_written ts')) CtxDeadlineExceeded 7 ''Say'' () [] demo_caller) =
      Inr (Some (rep_Data out))"
    by (auto simp: numeral_2_eq_2)
  then have "rep_Data out = [1]" by (auto simp: demo_env_def empty_Reply_def split: if_splits)
  with send w show ?thesis by auto
qed

text \<open>The status that a client is shown.\<close>

definition shown_status :: "Status \<Rightarrow> Status" where
  "shown_status s = (if st_Code s = codes_Unknown then \<lparr>st_Code = codes_Unknown, st_Message = ''unknown error''\<rparr> else s)"

text \<open>
  C10. Errors reach the caller from end to end: when handling the request fails with an error
  that carries a status, the client's call returns an error with the code of the status and
  its message, which for the code Unknown is replaced by a fixed text.
\<close>

theorem error_end_to_end:
  assumes "tcp_sent (cl_conn cli) []"
    and "cli_send marshalIn marshalReq (tcpc_send w) svc m input opts cli = (cli1, Some req, None)"
    and "marshalReq req = Inr d" and "d \<noteq> []" and "int (length d) \<le> MaxMessageSize" and "unmarshal d = Inr req"
    and "\<not> req_NoReply req"
    and "rd_bytes (ts_r ts) = tc_out (cl_conn cli1)" and "ts_written ts = []"
    and "handleRequest env gw ic sess req reg st = Ok res" and "hr_err res = Some err"
    and "env_FromError env err = Some s" and "st_Code s \<noteq> codes_OK"
    and "\<And>d'. env_marshalRPCError env \<lparr>re_RequestService = req_ServiceCode req, re_RequestMethod = req_Method req,
        re_Status = shown_status s\<rparr> = Inr d' \<Longrightarrow>
      uerr d' = Inr \<lparr>re_RequestService = req_ServiceCode req, re_RequestMethod = req_Method req, re_Status = shown_status s\<rparr>"
    and "\<forall>r \<in> set (hr_sent res). \<exists>d'. marshalRep r = Inr d' \<and> int (length d') \<le> MaxMessageSize \<and> unmarshalRep d' = Inr r"
    and "msg_ok msg" and "msg_ok cmsg" and "\<And>s. s \<le> growcap s"
  shows "\<exists>ts'. serve_request growcap unmarshal marshalRep now env gw ic sess reg st msg ts = Some (req, res, ts') \<and>
    snd (Call marshalIn marshalReq (tcpc_send w) uerr uout (client_reads (Suc n) growcap unmarshalRep cmsg (ts_written ts'))
           ctxErr svc m input opts cli) =
      Inl (ErrStatus (st_Code s) (if st_Code s = codes_Unknown then ''unknown error'' else st_Message s))"
proof -
  obtain fr rs where fr: "forwardRequest env gw ic sess req reg st = Ok fr" "hr_err fr = Some err"
    "hr_sent res = hr_sent fr @ rs" "errorReply env req err = Ok rs"
    using assms(10) by (rule handleRequest_Ok) (use assms(11) in auto)
  obtain data where e: "uerr data = Inr \<lparr>re_RequestService = req_ServiceCode req, re_RequestMethod = req_Method req,
        re_Status = shown_status s\<rparr>"
    "rs = [empty_Reply\<lparr>rep_RequestId := req_Id req, rep_Code := ReplyCode_RPC_ERROR, rep_Data := data\<rparr>]"
    using errorReply_cases [OF fr(4)] assms(12,14) by (auto simp: shown_status_def)
  define reply where "reply = empty_Reply\<lparr>rep_RequestId := req_Id req, rep_Code := ReplyCode_RPC_ERROR, rep_Data := data\<rparr>"
  have "hr_sent fr = []" using fr(1) by (cases rule: hr_cases) (use fr(2) in auto)
  then have sent: "hr_sent res = [reply]" "rep_RequestId reply = req_Id req" using fr(3) e(2) by (simp_all add: reply_def)
  then obtain d' where d': "marshalRep reply = Inr d'" "int (length d') \<le> MaxMessageSize" "unmarshalRep d' = Inr reply"
    using assms(15) by auto
  have "call_result uerr uout reply =
      Inl (ErrStatus (st_Code s) (if st_Code s = codes_Unknown then ''unknown error'' else st_Message s))"
    using e(1) assms(13) by (auto simp: call_result_def reply_def empty_Reply_def shown_status_def)
  then show ?thesis
    using call_served [where growcap = growcap and unmarshal = unmarshal and marshalReq = marshalReq and
        marshalRep = marshalRep and unmarshalRep = unmarshalRep and now = now and uerr = uerr and uout = uout and
        n = n and ctxErr = ctxErr, OF assms(1-10) sent d' assms(16-18)]
    by simp
qed

definition demo_rpc_error :: RPCError where
  "demo_rpc_error = \<lparr>re_RequestService = 7, re_RequestMethod = ''Fail'',
     re_Status = \<lparr>st_Code = codes_Unknown, st_Message = ''unknown error''\<rparr>\<rparr>"

definition demo_error_reply :: Reply where
  "demo_error_reply = empty_Reply\<lparr>rep_RequestId := 9, rep_Code := ReplyCode_RPC_ERROR\<rparr>"

lemma demo_handled_Fail:
  "\<exists>res. handleRequest demo_env ''gw'' (Inr True) demo_sess (demo_req ''Fail'') demo_registry Map.empty = Ok res \<and>
     hr_err res = Some (ErrStatus codes_Unknown ''secret'') \<and> hr_sent res = [demo_error_reply]"
proof -
  obtain res where res: "handleRequest demo_env ''gw'' (Inr True) demo_sess (demo_req ''Fail'') demo_registry Map.empty = Ok res"
    "hr_err res = Some (ErrStatus codes_Unknown ''secret'')" using demo_handle_Fail by blast
  obtain fr rs where fr: "forwardRequest demo_env ''gw'' (Inr True) demo_sess (demo_req ''Fail'') demo_registry Map.empty = Ok fr"
    "hr_err fr = Some (ErrStatus codes_Unknown ''secret'')" "hr_sent res = hr_sent fr @ rs"
    "errorReply demo_env (demo_req ''Fail'') (ErrStatus codes_Unknown ''secret'') = Ok rs"
    using res(1) by (rule handleRequest_Ok) (use res(2) in auto)
  have "hr_sent fr = []" using fr(1) by (cases rule: hr_cases) (use fr(2) in auto)
  moreover have "rs = [demo_error_reply]"
    using fr(4) by (simp add: errorReply_def demo_env_def NewReply_def demo_error_reply_def empty_Reply_def)
  ultimately show ?thesis using res fr(3) by simp
qed

theorem error_end_to_end_witness:
  "\<exists>cli1 ts' res. demo_send ''Fail'' = (cli1, Some (demo_req ''Fail''), None) \<and>
    serve_request id (\<lambda>_. Inr (demo_req ''Fail'')) (\<lambda>_. Inr [5]) 3 demo_env ''gw'' (Inr True) demo_sess demo_registry Map.empty
      pool_msg (newTCPSession ''s'' 0 \<lparr>rd_bytes = tc_out (cl_conn cli1), rd_err = EOF\<rparr> [] []) =
      Some (demo_req ''Fail'', res, ts') \<and>
    snd (Call (\<lambda>i. Inr [1]) (\<lambda>r. Inr [8, 7]) (tcpc_send (\<lambda>_. None)) (\<lambda>d. Inr demo_rpc_error) (Inr :: _ \<Rightarrow> _ + byte list)
      (client_reads 2 id (\<lambda>_. Inr demo_error_reply) pool_msg (ts_written ts')) CtxDeadlineExceeded 7 ''Fail'' () [] demo_caller) =
      Inl (ErrStatus codes_Unknown ''unknown error'')"
proof -
  obtain cli1 where send: "demo_send ''Fail'' = (cli1, Some (demo_req ''Fail''), None)" using demo_send_run by blast
  obtain res where res: "handleRequest demo_env ''gw'' (Inr True) demo_sess (demo_req ''Fail'') demo_registry Map.empty = Ok res"
    "hr_err res = Some (ErrStatus codes_Unknown ''secret'')" "hr_sent res = [demo_error_reply]" using demo_handled_Fail by blast
  let ?s = "\<lparr>st_Code = codes_Unknown, st_Message = ''secret''\<rparr>"
  have s: "env_FromError demo_env (ErrStatus codes_Unknown ''secret'') = Some ?s" by (simp add: demo_env_def)
  have "\<exists>ts'. serve_request id (\<lambda>_. Inr (demo_req ''Fail'')) (\<lambda>_. Inr [5]) 3 demo_env ''gw'' (Inr True) demo_sess demo_registry
      Map.empty pool_msg (newTCPSession ''s'' 0 \<lparr>rd_bytes = tc_out (cl_conn cli1), rd_err = EOF\<rparr> [] []) =
      Some (demo_req ''Fail'', res, ts') \<and>
    snd (Call (\<lambda>i. Inr [1]) (\<lambda>r. Inr [8, 7]) (tcpc_send (\<lambda>_. None)) (\<lambda>d. Inr demo_rpc_error) (Inr :: _ \<Rightarrow> _ + byte list)
      (client_reads (Suc 1) id (\<lambda>_. Inr demo_error_reply) pool_msg (ts_written ts')) CtxDeadlineExceeded 7 ''Fail'' () [] demo_caller) =
      Inl (ErrStatus (st_Code ?s) (if st_Code ?s = codes_Unknown then ''unknown error'' else st_Message ?s))"
    by (rule error_end_to_end [OF demo_caller_sent send [unfolded demo_send_def], where d = "[8, 7]", OF _ _ _ _ _ _ _ res(1,2) s])
      (use res(3) in \<open>simp_all add: MaxMessageSize_def newTCPSession_def shown_status_def demo_rpc_error_def\<close>)
  then show ?thesis using send by (auto simp: numeral_2_eq_2)
qed

section \<open>Authorisation and echo from end to end\<close>

text \<open>
  C11. Authorisation works from end to end: when the client of the echo example asks for
  authorisation with the valid token over a fresh TCP connection, its gateway accepts the
  session under the user id made for it, and the client's call returns exactly this id.
\<close>

theorem authorize_end_to_end:
  fixes req :: Request and fresh :: string and a :: "byte list"
  defines "ack \<equiv> empty_Reply\<lparr>rep_ServiceCode := 1, rep_Code := 1, rep_Data := a, rep_RequestId := req_Id req\<rparr>"
  assumes "tcp_sent (cl_conn cli) []"
    and "cli_send marshalTok marshalReq (tcpc_send w) 0 ''Authorize'' \<lparr>at_Token = valid_token\<rparr> [] cli = (cli1, Some req, None)"
    and "marshalReq req = Inr d" and "d \<noteq> []" and "int (length d) \<le> MaxMessageSize" and "unmarshal d = Inr req"
    and "marshalTok \<lparr>at_Token = valid_token\<rparr> = Inr tk" and "unmarshalTok tk = Inr \<lparr>at_Token = valid_token\<rparr>"
    and "rd_bytes (ts_r ts) = tc_out (cl_conn cli1)" and "ts_written ts = []"
    and "marshalAck \<lparr>aa_UserId = fresh\<rparr> = Inr a" and "uout a = Inr \<lparr>aa_UserId = fresh\<rparr>"
    and "marshalRep ack = Inr d'" and "int (length d') \<le> MaxMessageSize" and "unmarshalRep d' = Inr ack"
    and "msg_ok msg" and "msg_ok cmsg" and "\<And>s. s \<le> growcap s"
  shows "\<exists>ts'. initializer (\<lambda>ts. tcp_Recv growcap unmarshal now ts msg) (tcp_Send marshalRep (\<lambda>_. None) now) marshalAck
      unmarshalTok fresh None ts = Ok (ts', Inr (fresh, Some Map.empty)) \<and>
    snd (echo_authorize marshalTok marshalReq (tcpc_send w) uerr uout
      (client_reads (Suc n) growcap unmarshalRep cmsg (ts_written ts')) ctxErr cli) = Inr (Some \<lparr>aa_UserId = fresh\<rparr>)"
proof -
  have req: "req_Method req = ''Authorize''" "req_Data req = tk" "\<not> req_NoReply req"
    using assms(3,8) by (auto simp: cli_send_def empty_Request_def Let_def split: sum.splits prod.splits)
  obtain ts1 where ts1: "tcp_Recv growcap unmarshal now ts msg = Ok (ts1, Inr req)" "ts_written ts1 = []"
    using request_arrives [where growcap = growcap and unmarshal = unmarshal and marshalReq = marshalReq and now = now,
        OF assms(2-7,10,17,19)] assms(11) by auto
  obtain ts' where ts': "tcp_Send marshalRep (\<lambda>_. None) now ack ts1 = (ts', None)"
    using assms(14) by (simp add: tcp_Send_def SendReply_def SendBytes_frame)
  then have init: "initializer (\<lambda>ts. tcp_Recv growcap unmarshal now ts msg) (tcp_Send marshalRep (\<lambda>_. None) now) marshalAck
      unmarshalTok fresh None ts = Ok (ts', Inr (fresh, Some Map.empty))"
    using ts1(1) req assms(9,12)
    by (simp add: initializer_def auth_goroutine_def validToken_def PackAuthorizeAck_def mustReturn_def mustDo_def ack_def)
  have "client_reads (Suc n) growcap unmarshalRep cmsg (ts_written ts') = (receiveLoop [ack] :: tcpConn Client \<Rightarrow> _)"
    using reply_arrives [where marshal = marshalRep and unmarshal = unmarshalRep and growcap = growcap and now = now and n = n,
        OF assms(14-16) ts1(2) assms(18,19)] ts' by (simp add: client_reads_def fun_eq_iff)
  moreover have "rep_RequestId ack = req_Id req" by (simp add: ack_def)
  ultimately have "snd (echo_authorize marshalTok marshalReq (tcpc_send w) uerr uout
      (client_reads (Suc n) growcap unmarshalRep cmsg (ts_written ts')) ctxErr cli) = call_result uerr uout ack"
    unfolding echo_authorize_def using reply_taken [OF assms(3) req(3)] by simp
  also have "\<dots> = Inr (Some \<lparr>aa_UserId = fresh\<rparr>)" using assms(13) by (simp add: call_result_def ack_def)
  finally show ?thesis using init by blast
qed

definition demo_auth_ack :: Reply where
  "demo_auth_ack = empty_Reply\<lparr>rep_ServiceCode := 1, rep_Code := 1, rep_Data := [6], rep_RequestId := 9\<rparr>"

theorem authorize_end_to_end_witness:
  "\<exists>cli1 req ts'. cli_send (\<lambda>_. Inr [3]) (\<lambda>_. Inr [8, 7]) (tcpc_send (\<lambda>_. None)) 0 ''Authorize''
      \<lparr>at_Token = valid_token\<rparr> [] demo_caller = (cli1, Some req, None) \<and>
    initializer (\<lambda>ts. tcp_Recv id (\<lambda>_. Inr req) 3 ts pool_msg) (tcp_Send (\<lambda>_. Inr [5]) (\<lambda>_. None) 3) (\<lambda>_. Inr [6])
      (\<lambda>_. Inr \<lparr>at_Token = valid_token\<rparr>) ''u9'' None
      (newTCPSession ''s'' 0 \<lparr>rd_bytes = tc_out (cl_conn cli1), rd_err = EOF\<rparr> [] []) = Ok (ts', Inr (''u9'', Some Map.empty)) \<and>
    snd (echo_authorize (\<lambda>_. Inr [3]) (\<lambda>_. Inr [8, 7]) (tcpc_send (\<lambda>_. None)) (\<lambda>_. Inl EOF) (\<lambda>_. Inr \<lparr>aa_UserId = ''u9''\<rparr>)
      (client_reads (Suc 1) id (\<lambda>_. Inr demo_auth_ack) pool_msg (ts_written ts')) CtxDeadlineExceeded demo_caller) =
      Inr (Some \<lparr>aa_UserId = ''u9''\<rparr>)"
proof -
  obtain cli1 req where send: "cli_send (\<lambda>_. Inr [3]) (\<lambda>_. Inr [8, 7]) (tcpc_send (\<lambda>_. None)) 0 ''Authorize''
      \<lparr>at_Token = valid_token\<rparr> [] demo_caller = (cli1, Some req, None)" and id: "req_Id req = 9"
    by (simp add: cli_send_def demo_caller_def demo_client_def newClient_def tcpc_send_def SendBytes_frame)
  have ack: "empty_Reply\<lparr>rep_ServiceCode := 1, rep_Code := 1, rep_Data := [6], rep_RequestId := req_Id req\<rparr> = demo_auth_ack"
    using id by (simp add: demo_auth_ack_def)
  let ?ts = "newTCPSession ''s'' 0 \<lparr>rd_bytes = tc_out (cl_conn cli1), rd_err = EOF\<rparr> [] []"
  have "\<exists>ts'. initializer (\<lambda>ts. tcp_Recv id (\<lambda>_. Inr req) 3 ts pool_msg) (tcp_Send (\<lambda>_. Inr [5]) (\<lambda>_. None) 3) (\<lambda>_. Inr [6])
      (\<lambda>_. Inr \<lparr>at_Token = valid_token\<rparr>) ''u9'' None ?ts = Ok (ts', Inr (''u9'', Some Map.empty)) \<and>
    snd (echo_authorize (\<lambda>_. Inr [3]) (\<lambda>_. Inr [8, 7]) (tcpc_send (\<lambda>_. None)) (\<lambda>_. Inl EOF) (\<lambda>_. Inr \<lparr>aa_UserId = ''u9''\<rparr>)
      (client_reads (Suc 1) id (\<lambda>_. Inr demo_auth_ack) pool_msg (ts_written ts')) CtxDeadlineExceeded demo_caller) =
      Inr (Some \<lparr>aa_UserId = ''u9''\<rparr>)"
    by (rule authorize_end_to_end [OF demo_caller_sent send, where d = "[8, 7]" and a = "[6]" and d' = "[5]"])
      (simp_all add: MaxMessageSize_def newTCPSession_def ack)
  with send show ?thesis by blast
qed

text \<open>
  An echo comes back: when the gateway handles the echo call of the client without an error
  and the service it calls is the echo service, the call returns the message that was sent
  (for a call whose stream is idle, so that it is handled at once).
\<close>

theorem echo_end_to_end:
  assumes "tcp_sent (cl_conn cli) []"
    and "cli_send marshalMsg marshalReq (tcpc_send w) Services_ECHO ''Send'' \<lparr>em_Content = ''hello world!''\<rparr>
      [WithStream ''test:echo''] cli = (cli1, Some req, None)"
    and "marshalReq req = Inr d" and "d \<noteq> []" and "int (length d) \<le> MaxMessageSize" and "unmarshal d = Inr req"
    and "rd_bytes (ts_r ts) = tc_out (cl_conn cli1)" and "ts_written ts = []"
    and "handleRequest env gw ic sess req reg st = Ok res" and "hr_err res = None"
    and "\<forall>r \<in> set (hr_sent res). \<exists>d'. marshalRep r = Inr d' \<and> int (length d') \<le> MaxMessageSize \<and> unmarshalRep d' = Inr r"
    and "msg_ok msg" and "msg_ok cmsg" and "\<And>s. s \<le> growcap s"
    and "\<And>conn meth md data. env_Invoke env conn meth md data = echo_serve marshalMsg unmarshalMsg data"
    and "marshalMsg \<lparr>em_Content = ''hello world!''\<rparr> = Inr e" and "unmarshalMsg e = Inr \<lparr>em_Content = ''hello world!''\<rparr>"
  shows "\<exists>ts'. serve_request growcap unmarshal marshalRep now env gw ic sess reg st msg ts = Some (req, res, ts') \<and>
    snd (echo_call marshalMsg marshalReq (tcpc_send w) uerr unmarshalMsg
      (client_reads (Suc n) growcap unmarshalRep cmsg (ts_written ts')) ctxErr cli) = Inr (Some \<lparr>em_Content = ''hello world!''\<rparr>)"
proof -
  have req: "\<not> req_NoReply req" "req_ServiceCode req \<noteq> 0" "req_Data req = e"
    using assms(2,16) by (auto simp: cli_send_def empty_Request_def WithStream_def Services_ECHO_def Let_def split: sum.splits prod.splits)
  obtain ts' out where c: "serve_request growcap unmarshal marshalRep now env gw ic sess reg st msg ts = Some (req, res, ts')"
    "echo_serve marshalMsg unmarshalMsg e = Inr out"
    "snd (Call marshalMsg marshalReq (tcpc_send w) uerr unmarshalMsg (client_reads (Suc n) growcap unmarshalRep cmsg (ts_written ts'))
        ctxErr Services_ECHO ''Send'' \<lparr>em_Content = ''hello world!''\<rparr> [WithStream ''test:echo''] cli) =
      (case unmarshalMsg (rep_Data out) of Inl e \<Rightarrow> Inl (ErrWrap ''unmarshal reply'' e) | Inr v \<Rightarrow> Inr (Some v))"
    using call_completes [where growcap = growcap and unmarshal = unmarshal and marshalReq = marshalReq and
        marshalRep = marshalRep and unmarshalRep = unmarshalRep and now = now and uerr = uerr and uout = unmarshalMsg and
        n = n and ctxErr = ctxErr, OF assms(1-6) req(1,2) assms(7-14)] assms(15) req(3) by auto
  have "rep_Data out = e"
    using c(2) assms(16,17)
    by (auto simp: echo_serve_def PackReply_def echo_Send_def lo_Assign_def Echo_MethodReplyCodes_def NewReply_def)
  then show ?thesis using c(1,3) assms(17) by (auto simp: echo_call_def)
qed

text \<open>A registry with a node of the echo service, and an environment whose calls reach it.\<close>

definition demo_echo_desc :: GRPCServiceDesc where
  "demo_echo_desc = \<lparr>SvcName = ''echo.Echo'', Code = 2, Path = ''/echo.Echo'', Public = True, Balancer = ''random'',
     Weight = 0, Stateful = False, Allocation = []\<rparr>"

definition demo_echo_node :: NodeEntry where
  "demo_echo_node = (demo_node 1 0 ''random'')\<lparr>GRPC := \<lparr>Endpoint = ''10.0.0.1:9000'', Services = [demo_echo_desc]\<rparr>\<rparr>"

definition demo_echo_registry :: Registry where
  "demo_echo_registry = default_Registry\<lparr>reg_resolver := newGRPCResolver\<lparr>allNodes := [ULID 1 0 \<mapsto> demo_echo_node],
     services := [2 \<mapsto> demo_echo_desc], okNodes := [2 \<mapsto> [demo_echo_node]],
     serviceBalancer := [2 \<mapsto> noBalancer demo_echo_node]\<rparr>\<rparr>"

definition demo_echo_env :: gw_env where
  "demo_echo_env = demo_env\<lparr>env_Invoke := \<lambda>_ _ _. echo_serve (\<lambda>_. Inr [1]) (\<lambda>_. Inr \<lparr>em_Content = ''hello world!''\<rparr>)\<rparr>"

definition demo_echo_req :: Request where
  "demo_echo_req = empty_Request\<lparr>req_Id := 9, req_Data := [1], req_ServiceCode := 2, req_Method := ''Send'',
     req_Stream := ''test:echo''\<rparr>"

definition demo_echo_reply :: Reply where
  "demo_echo_reply = empty_Reply\<lparr>rep_Code := 1, rep_Data := [1], rep_RequestId := 9, rep_ServiceCode := 2\<rparr>"

lemma demo_echo_upstream:
  "\<exists>reg'. getUpstream demo_echo_env demo_sess demo_echo_req demo_echo_desc demo_echo_registry st = (reg', st, Ok 5)"
  by (simp add: getUpstream_def allocUpstream_def finishUpstream_def AllocGRPCNode_def AllocNode_def demo_echo_registry_def
      demo_echo_req_def empty_Request_def GetGRPCConn_def GetConn_def getConn_def demo_echo_env_def demo_env_def state_defs
      newGRPCResolver_def demo_echo_desc_def demo_echo_node_def)

lemma demo_echo_handled:
  "\<exists>res. handleRequest demo_echo_env ''gw'' (Inr True) demo_sess demo_echo_req demo_echo_registry Map.empty = Ok res \<and>
     hr_err res = None \<and> hr_sent res = [demo_echo_reply]"
proof -
  obtain reg' where up: "getUpstream demo_echo_env demo_sess demo_echo_req demo_echo_desc demo_echo_registry Map.empty =
      (reg', Map.empty, Ok 5)" using demo_echo_upstream by blast
  have "GetGRPCDesc demo_echo_registry 2 = Some demo_echo_desc"
    by (simp add: GetGRPCDesc_def GetDesc_def demo_echo_registry_def)
  moreover have "req_ServiceCode demo_echo_req = 2" "req_Data demo_echo_req = [1]" "\<not> req_NoReply demo_echo_req" "req_Id demo_echo_req = 9"
    by (simp_all add: demo_echo_req_def empty_Request_def)
  moreover have "Public demo_echo_desc" by (simp add: demo_echo_desc_def)
  moreover have "newEmptyMessage demo_echo_env [1] = None"
    by (simp add: newEmptyMessage_def demo_echo_env_def demo_env_def)
  moreover have "env_Invoke demo_echo_env c m md [1] = Inr (empty_Reply\<lparr>rep_Code := 1, rep_Data := [1]\<rparr>)" for c m md
    by (simp add: demo_echo_env_def echo_serve_def PackReply_def echo_Send_def lo_Assign_def Echo_MethodReplyCodes_def
        NewReply_def)
  ultimately show ?thesis
    using up by (simp add: handleRequest_def forwardRequest_def Let_def demo_echo_reply_def empty_Reply_def)
qed

theorem echo_end_to_end_witness:
  "\<exists>cli1 ts' res. cli_send (\<lambda>_. Inr [1]) (\<lambda>_. Inr [8, 7]) (tcpc_send (\<lambda>_. None)) Services_ECHO ''Send''
      \<lparr>em_Content = ''hello world!''\<rparr> [WithStream ''test:echo''] demo_caller = (cli1, Some demo_echo_req, None) \<and>
    serve_request id (\<lambda>_. Inr demo_echo_req) (\<lambda>_. Inr [5]) 3 demo_echo_env ''gw'' (Inr True) demo_sess demo_echo_registry
      Map.empty pool_msg (newTCPSession ''s'' 0 \<lparr>rd_bytes = tc_out (cl_conn cli1), rd_err = EOF\<rparr> [] []) =
      Some (demo_echo_req, res, ts') \<and>
    snd (echo_call (\<lambda>_. Inr [1]) (\<lambda>_. Inr [8, 7]) (tcpc_send (\<lambda>_. None)) (\<lambda>_. Inl EOF) (\<lambda>_. Inr \<lparr>em_Content = ''hello world!''\<rparr>)
      (client_reads (Suc 1) id (\<lambda>_. Inr demo_echo_reply) pool_msg (ts_written ts')) CtxDeadlineExceeded demo_caller) =
      Inr (Some \<lparr>em_Content = ''hello world!''\<rparr>)"
proof -
  obtain cli1 where send: "cli_send (\<lambda>_. Inr [1]) (\<lambda>_. Inr [8, 7]) (tcpc_send (\<lambda>_. None)) Services_ECHO ''Send''
      \<lparr>em_Content = ''hello world!''\<rparr> [WithStream ''test:echo''] demo_caller = (cli1, Some demo_echo_req, None)"
    by (simp add: cli_send_def demo_caller_def demo_client_def newClient_def tcpc_send_def SendBytes_frame WithStream_def
        demo_echo_req_def empty_Request_def Services_ECHO_def)
  obtain res where res: "handleRequest demo_echo_env ''gw'' (Inr True) demo_sess demo_echo_req demo_echo_registry Map.empty = Ok res"
    "hr_err res = None" "hr_sent res = [demo_echo_reply]" using demo_echo_handled by blast
  let ?ts = "newTCPSession ''s'' 0 \<lparr>rd_bytes = tc_out (cl_conn cli1), rd_err = EOF\<rparr> [] []"
  have "\<exists>ts'. serve_request id (\<lambda>_. Inr demo_echo_req) (\<lambda>_. Inr [5]) 3 demo_echo_env ''gw'' (Inr True) demo_sess
      demo_echo_registry Map.empty pool_msg ?ts = Some (demo_echo_req, res, ts') \<and>
    snd (echo_call (\<lambda>_. Inr [1]) (\<lambda>_. Inr [8, 7]) (tcpc_send (\<lambda>_. None)) (\<lambda>_. Inl EOF) (\<lambda>_. Inr \<lparr>em_Content = ''hello world!''\<rparr>)
      (client_reads (Suc 1) id (\<lambda>_. Inr demo_echo_reply) pool_msg (ts_written ts')) CtxDeadlineExceeded demo_caller) =
      Inr (Some \<lparr>em_Content = ''hello world!''\<rparr>)"
    by (rule echo_end_to_end [OF demo_caller_sent send, where d = "[8, 7]" and e = "[1]", OF _ _ _ _ _ _ res(1,2)])
      (use res(3) in \<open>simp_all add: MaxMessageSize_def newTCPSession_def demo_echo_env_def\<close>)
  with send show ?thesis by blast
qed

section \<open>A user that moves to another gateway\<close>

text \<open>
  C9. One session per user in the cluster: when a user connects to a gateway and the event bus
  takes the announcement, then the user's only open session there is the new one; the handler
  that every gateway subscribes gets exactly this announcement; it changes nothing at the
  gateway that made it, and at any other gateway it closes the user's session, forgets the
  user's routes and leaves the other users alone.
\<close>

theorem user_moves_gateway:
  assumes "gw_reach pa" and "px_phase pa s = Connecting" and "px_store pa s = Some sess" and "\<not> gs_closed sess"
    and "onConnect (Inr (u, md)) c None s pa = (pa', Connected)"
    and "initEvents = Ok et" and "bus_Publish et event_typeOf marshal marshalP queue now (last (px_events pa')) = Ok data"
    and "\<And>d. marshal (last (px_events pa')) = Inr d \<Longrightarrow> unmarshal d = Inr (last (px_events pa'))"
    and "\<And>p. marshalP p = Inr data \<Longrightarrow> unmarshalP data = Inr p"
    and "gw_reach pb" and "px_nodeID pb \<noteq> px_nodeID pa"
  shows "\<exists>ev. bus_Subscribe et unmarshalP unmarshal connected_sig [data] = Ok [(EvConnected ev, now)] \<and>
    (\<forall>r. open_session (session_begin Connected s pa') u r \<longleftrightarrow> r = s) \<and>
    on_UserConnected ev (session_begin Connected s pa') = session_begin Connected s pa' \<and>
    (\<forall>r. \<not> open_session (on_UserConnected ev pb) u r) \<and> (\<forall>svc. st_Find (px_state (on_UserConnected ev pb)) u svc = None) \<and>
    (\<forall>v r. v \<noteq> u \<longrightarrow> open_session (on_UserConnected ev pb) v r = open_session pb v r)"
proof -
  note connected = connected_user [OF gw_reach_inv [OF assms(1)] assms(2-5)]
  obtain ev where ev: "px_events pa' = px_events pa @ [EvConnected ev]" "uc_GatewayID ev = px_nodeID pa" "uc_UserID ev = u"
    using connected(3) by blast
  let ?pa = "session_begin Connected s pa'"
  have reach: "gw_reach ?pa" using gw_connect [OF assms(1,2,5)] .
  have id: "px_nodeID ?pa = px_nodeID pa" using connected(2) by (simp add: session_begin_def)
  have "r = s" if "open_session ?pa u r" for r
    using open_session_unique(1) [OF reach that] open_session_unique(1) [OF reach connected(1)] by simp
  then have one: "open_session ?pa u r \<longleftrightarrow> r = s" for r using connected(1) by blast
  have et: "et_types et (Named ''UserConnected'') = Some ''user:connected''" "et_types et timeTime = None"
    using assms(6) by (auto simp: initEvents_def Register_def timeTime_def)
  have "bus_Subscribe et unmarshalP unmarshal connected_sig [data] = Ok [(EvConnected ev, now)]"
    using assms(7-9) ev(1) et
    by (elim bus_Publish_Ok)
      (simp add: bus_Subscribe_def checkHandler_def connected_sig_def observe_def dispatch_def event_typeOf_def)
  then show ?thesis
    using one on_UserConnected_facts(1) [OF reach, where ev = ev] on_UserConnected_facts(2-4) [OF assms(10), where ev = ev]
      assms(11) ev(2,3) id by (intro exI [of _ ev]) simp
qed

text \<open>The user of \<open>demo_px\<close> connects to a second gateway.\<close>

definition demo_announced :: UserConnected where
  "demo_announced = \<lparr>uc_GatewayID = ''gw2'', uc_UserID = ''u'', uc_RemoteAddr = ''10.0.0.1:99'', uc_Metadata = Map.empty\<rparr>"

definition demo_payload :: payload where
  "demo_payload = \<lparr>p_Time = 7, p_Type = ''user:connected'', p_Detail = [1]\<rparr>"

theorem user_moves_gateway_witness:
  "\<exists>et ev. initEvents = Ok et \<and>
    bus_Subscribe et (\<lambda>_. Inr demo_payload) (\<lambda>_. Inr (EvConnected demo_announced)) connected_sig [[2]] = Ok [(EvConnected ev, 7)] \<and>
    open_session demo_px ''u'' 0 \<and> \<not> open_session (on_UserConnected ev demo_px) ''u'' 0"
proof -
  obtain et where et: "initEvents = Ok et" "et_types et (Named ''UserConnected'') = Some ''user:connected''"
    by (simp add: initEvents_def Register_def)
  let ?pa = "demo_accept 1 (init_Proxy ''gw2'')"
  have pa: "gw_reach ?pa" "px_phase ?pa 1 = Connecting" "px_store ?pa 1 = Some demo_gsession" "\<not> gs_closed demo_gsession"
    by (rule demo_steps_reach(1) [OF gw_init]) (simp_all add: demo_accept_def accept_session_def demo_gsession_def init_Proxy_def)
  obtain pa' where c: "onConnect (Inr (''u'', None)) None None 1 ?pa = (pa', Connected)" and
      l: "last (px_events pa') = EvConnected demo_announced"
    by (simp add: demo_run_simps demo_announced_def sess_RemoteAddr_def)
  let ?marshalP = "\<lambda>p. if p = demo_payload then Inr [2] else Inl EOF"
  have pub: "bus_Publish et event_typeOf (\<lambda>_. Inr [1]) ?marshalP (\<lambda>_. None) 7 (last (px_events pa')) = Ok [2]"
    using et(2) by (simp add: l bus_Publish_def newPayload_def event_typeOf_def demo_payload_def)
  have dec: "(Inr demo_payload :: go_error + payload) = Inr p" if "?marshalP p = Inr ([2] :: byte list)" for p
    using that by (simp split: if_splits)
  have "px_nodeID demo_px \<noteq> px_nodeID ?pa" by (simp add: demo_px_open(3) demo_accept_def accept_session_def init_Proxy_def)
  then obtain ev where "bus_Subscribe et (\<lambda>_. Inr demo_payload) (\<lambda>_. Inr (EvConnected demo_announced)) connected_sig [[2]] =
      Ok [(EvConnected ev, 7)]" "\<forall>r. \<not> open_session (on_UserConnected ev demo_px) ''u'' r"
    using user_moves_gateway [OF pa c et(1) pub _ dec demo_px_reach, where unmarshal = "\<lambda>_. Inr (EvConnected demo_announced)"] l
    by auto
  with et(1) demo_px_open(1) show ?thesis by blast
qed

end
